(* ===== verification/Prelude.thy ===== *)
theory Prelude
  imports Main "HOL-Library.Multiset" "HOL-Library.AList" "HOL-Library.Product_Lexorder"
begin

text \<open>
  Shared vocabulary of the development: Python exceptions as values, the result type and its
  sequencing operator, Python slices, \<^verbatim>\<open>torch.unique\<close>, ceiling division, and the lemmas on
  lists, multisets and association lists that the component theories use.
\<close>

section \<open>Collections of rewrite rules\<close>

named_theorems result_simps \<open>unfolding of the result type's operations\<close>
named_theorems slice_simps \<open>Python slices with in-range bounds\<close>
named_theorems kv_simps \<open>the KV-slot allocators\<close>
named_theorems radix_simps \<open>the radix cache\<close>

section \<open>Errors and results\<close>

text \<open>
  The exceptions the modelled code raises. \<open>NonTermination\<close> is not a Python exception: a
  loop modelled with fuel returns it when the fuel runs out, and every such loop has a lemma that
  it does not occur from a well-formed state.
\<close>

datatype py_error =
    ValueError | IndexError | KeyError | TypeError | AttributeError | AssertionError
  | RuntimeError | NotImplementedError | NameError | ZeroDivisionError | NonTermination

type_synonym 'a result = "py_error + 'a"

definition bind_r :: "'a result \<Rightarrow> ('a \<Rightarrow> 'b result) \<Rightarrow> 'b result" where
  "bind_r x f = (case x of Inl e \<Rightarrow> Inl e | Inr v \<Rightarrow> f v)"

definition assert_r :: "bool \<Rightarrow> 'a result \<Rightarrow> 'a result" where
  "assert_r b x = (if b then x else Inl AssertionError)"

lemma bind_r_Inl [simp, result_simps]: "bind_r (Inl e) f = Inl e"
  by (simp add: bind_r_def)

lemma bind_r_Inr [simp, result_simps]: "bind_r (Inr v) f = f v"
  by (simp add: bind_r_def)

lemma bind_r_eq_Inr [result_simps]: "bind_r x f = Inr y \<longleftrightarrow> (\<exists>v. x = Inr v \<and> f v = Inr y)"
  by (cases x) auto

lemma assert_r_True [simp]: "b \<Longrightarrow> assert_r b x = x"
  by (simp add: assert_r_def)

lemma assert_r_eq_Inr [result_simps]: "assert_r b x = Inr y \<longleftrightarrow> b \<and> x = Inr y"
  by (simp add: assert_r_def)

section \<open>Python slices\<close>

text \<open>
  \<open>py_bound n i\<close> is where the slice bound \<open>i\<close> of a sequence of length \<open>n\<close> falls: a negative
  bound counts from the end, and bounds outside the sequence are clamped.
\<close>

definition py_bound :: "nat \<Rightarrow> int \<Rightarrow> nat" where
  "py_bound n i = (if i < 0 then nat (int n + i) else min (nat i) n)"

definition py_slice :: "'a list \<Rightarrow> int \<Rightarrow> int \<Rightarrow> 'a list" where
  "py_slice xs i j =
     drop (py_bound (length xs) i) (take (py_bound (length xs) j) xs)"

definition py_to :: "'a list \<Rightarrow> int \<Rightarrow> 'a list" where
  "py_to xs j = take (py_bound (length xs) j) xs"

definition py_from :: "'a list \<Rightarrow> int \<Rightarrow> 'a list" where
  "py_from xs i = drop (py_bound (length xs) i) xs"

lemma py_bound_nonneg: "0 \<le> i \<Longrightarrow> py_bound n i = min (nat i) n"
  by (simp add: py_bound_def)

lemma py_to_nat [simp, slice_simps]: "py_to xs (int k) = take k xs"
  by (simp add: py_to_def py_bound_def min_def)

lemma py_from_nat [simp, slice_simps]: "py_from xs (int k) = drop k xs"
  by (simp add: py_from_def py_bound_def min_def)

lemma py_slice_nat [simp, slice_simps]: "py_slice xs (int i) (int j) = drop i (take j xs)"
  by (simp add: py_slice_def py_bound_def min_def)

lemma length_py_to: "0 \<le> j \<Longrightarrow> length (py_to xs j) = min (nat j) (length xs)"
  by (simp add: py_to_def py_bound_def)

section \<open>Arithmetic\<close>

text \<open>\<open>ceil_div a b\<close> is \<^verbatim>\<open>(a + b - 1) // b\<close>.\<close>

definition ceil_div :: "nat \<Rightarrow> nat \<Rightarrow> nat" where
  "ceil_div a b = (a + b - 1) div b"

lemma ceil_div_mult_ge: "0 < b \<Longrightarrow> a \<le> ceil_div a b * b"
proof -
  assume b: "0 < b"
  have "a + b - 1 = (a + b - 1) div b * b + (a + b - 1) mod b" by simp
  moreover have "(a + b - 1) mod b < b" using b by simp
  ultimately show ?thesis using b unfolding ceil_div_def by linarith
qed

lemma ceil_div_mult_less: "0 < b \<Longrightarrow> ceil_div a b * b < a + b"
proof -
  assume b: "0 < b"
  have "(a + b - 1) div b * b \<le> a + b - 1" by simp
  then show ?thesis using b unfolding ceil_div_def by linarith
qed

lemma ceil_div_mono: "a \<le> a' \<Longrightarrow> ceil_div a b \<le> ceil_div a' b"
  unfolding ceil_div_def by (intro div_le_mono) simp

lemma ceil_div_exact: "0 < b \<Longrightarrow> b dvd a \<Longrightarrow> ceil_div a b = a div b"
proof -
  assume b: "0 < b" and "b dvd a"
  then obtain k where k: "a = k * b" by (metis dvd_def mult.commute)
  have "k * b + b - 1 = (b - 1) + k * b" using b by simp
  then have "(k * b + b - 1) div b = k + (b - 1) div b"
    using b by (metis div_mult_self3 not_gr0 add.commute)
  then show ?thesis using b k by (simp add: ceil_div_def)
qed

section \<open>Lists, multisets and association lists\<close>

text \<open>\<^verbatim>\<open>torch.unique\<close> returns the distinct elements in increasing order.\<close>

definition torch_unique :: "int list \<Rightarrow> int list" where
  "torch_unique xs = sort (remdups xs)"

lemma set_torch_unique [simp]: "set (torch_unique xs) = set xs"
  by (simp add: torch_unique_def)

lemma distinct_torch_unique [simp]: "distinct (torch_unique xs)"
  by (simp add: torch_unique_def)

lemma sorted_torch_unique [simp]: "sorted (torch_unique xs)"
  by (simp add: torch_unique_def)

lemma mset_torch_unique: "mset (torch_unique xs) = mset_set (set xs)"
  by (simp add: torch_unique_def mset_set_set[symmetric])

lemma take_drop_mset: "mset xs = mset (take n xs) + mset (drop n xs)"
  by (metis append_take_drop_id mset_append)

lemma mset_take_drop_slice:
  "i \<le> j \<Longrightarrow> mset (drop i xs) = mset (drop i (take j xs)) + mset (drop j xs)"
proof -
  assume "i \<le> j"
  then have "drop i xs = drop i (take j xs) @ drop j xs"
    by (metis append_take_drop_id drop_drop drop_take le_add_diff_inverse2)
  then show ?thesis by (metis mset_append)
qed

text \<open>A list that is part of a set of finitely many elements, seen as a multiset.\<close>

lemma mset_set_part:
  assumes eq: "mset xs + M + N = mset_set A" and fin: "finite A"
  shows "distinct xs" and "set xs \<inter> set_mset N = {}" and "set xs \<subseteq> A"
proof -
  have le1: "count (mset xs) a + count N a \<le> 1" for a
  proof -
    have "count (mset xs) a + count M a + count N a = count (mset_set A) a"
      by (metis count_union eq)
    moreover have "count (mset_set A) a \<le> 1" using fin by (simp add: count_mset_set')
    ultimately show ?thesis by linarith
  qed
  have pos: "0 < count (mset xs) a" if "a \<in> set xs" for a
    using that by (simp only: count_greater_zero_iff set_mset_mset)
  show "distinct xs"
  proof (subst distinct_count_atmost_1, intro allI)
    fix a
    show "count (mset xs) a = (if a \<in> set xs then 1 else 0)"
    proof (cases "a \<in> set xs")
      case True
      from le1 [of a] pos [OF True] have "count (mset xs) a = 1" by linarith
      then show ?thesis by (simp only: True if_True)
    next
      case False
      then have "count (mset xs) a = 0" by (simp only: count_eq_zero_iff set_mset_mset) simp
      with False show ?thesis by simp
    qed
  qed
  show "set xs \<inter> set_mset N = {}"
  proof (rule ccontr)
    assume "set xs \<inter> set_mset N \<noteq> {}"
    then obtain a where a: "a \<in> set xs" "a \<in># N" by auto
    then have "0 < count N a" by (simp only: count_greater_zero_iff)
    with pos [OF a(1)] le1 [of a] show False by linarith
  qed
  have "set xs \<subseteq> set_mset (mset xs + M + N)" by auto
  then show "set xs \<subseteq> A" using fin by (simp only: eq finite_set_mset_mset_set)
qed

lemma map_of_update_iff:
  "map_of (AList.update k v al) k' = (if k' = k then Some v else map_of al k')"
  by (simp add: AList.update_conv')

end
