(* ===== verification/Radix_Key.thy ===== *)
theory Radix_Key
  imports Prelude
begin

text \<open>
  The keys of the radix cache (\<^verbatim>\<open>mem_cache/radix_cache.py\<close>): \<open>RadixKey\<close>, the key-matching and
  child-key functions in their per-token and paged versions, and the bigram keys of EAGLE. A token
  is an integer or, in a bigram key, a pair.
\<close>

section \<open>Keys\<close>

datatype token = TInt int | TPair token token

record radix_key =
  token_ids :: "token list"
  extra_key :: "string option"

abbreviation key_len :: "radix_key \<Rightarrow> nat" where
  "key_len k \<equiv> length (token_ids k)"

text \<open>\<^verbatim>\<open>key[:n]\<close> and \<^verbatim>\<open>key[n:]\<close>, the slices the cache takes; they keep the extra key.\<close>

definition key_take :: "nat \<Rightarrow> radix_key \<Rightarrow> radix_key" where
  "key_take n k = k\<lparr>token_ids := take n (token_ids k)\<rparr>"

definition key_drop :: "nat \<Rightarrow> radix_key \<Rightarrow> radix_key" where
  "key_drop n k = k\<lparr>token_ids := drop n (token_ids k)\<rparr>"

definition check_extra_key :: "radix_key \<Rightarrow> radix_key \<Rightarrow> unit result" where
  "check_extra_key key0 key1 = (if extra_key key0 \<noteq> extra_key key1 then Inl ValueError else Inr ())"

fun count_equal :: "(token \<times> token) list \<Rightarrow> nat \<Rightarrow> nat" where
  "count_equal [] i = i"
| "count_equal ((k0, k1) # ps) i = (if k0 \<noteq> k1 then i else count_equal ps (i + 1))"

definition key_match_page_size1 :: "radix_key \<Rightarrow> radix_key \<Rightarrow> nat result" where
  "key_match_page_size1 key0 key1 =
     bind_r (check_extra_key key0 key1) (\<lambda>_.
       Inr (count_equal (zip (token_ids key0) (token_ids key1)) 0))"

text \<open>The loop of \<open>_key_match_paged\<close> from index \<open>i\<close>; a page size of 0 would not terminate.\<close>

function match_pages :: "nat \<Rightarrow> token list \<Rightarrow> token list \<Rightarrow> nat \<Rightarrow> nat result" where
  "match_pages ps xs ys i =
     (if i < min (length xs) (length ys)
      then if take ps (drop i xs) \<noteq> take ps (drop i ys) then Inr i
           else if ps = 0 then Inl NonTermination else match_pages ps xs ys (i + ps)
      else Inr i)"
  by pat_completeness auto

termination
  by (relation "measure (\<lambda>(ps, xs, ys, i). min (length xs) (length ys) - i)") auto

declare match_pages.simps [simp del]

definition key_match_paged :: "radix_key \<Rightarrow> radix_key \<Rightarrow> nat \<Rightarrow> nat result" where
  "key_match_paged key0 key1 page_size =
     bind_r (check_extra_key key0 key1) (\<lambda>_.
       match_pages page_size (token_ids key0) (token_ids key1) 0)"

text \<open>
  The key of a node in its parent's dictionary: the first token or the tuple of the first page,
  tagged with the extra key when there is one. In Python the tagged key is a pair whose first
  component is a string; it differs from every token, bigram and page of tokens.
\<close>

datatype plain_key = PTok token | PPage "token list"

type_synonym child_key = "string option \<times> plain_key"

definition get_child_key :: "radix_key \<Rightarrow> nat \<Rightarrow> child_key result" where
  "get_child_key k page_size =
     (if page_size = 1
      then (case token_ids k of [] \<Rightarrow> Inl IndexError | t # _ \<Rightarrow> Inr (extra_key k, PTok t))
      else Inr (extra_key k, PPage (take page_size (token_ids k))))"

definition convert_to_bigram_key :: "token list \<Rightarrow> token list" where
  "convert_to_bigram_key tokens =
     (if length tokens < 2 then []
      else case tokens ! 0 of
        TPair _ _ \<Rightarrow> tokens
      | TInt _ \<Rightarrow> map (\<lambda>i. TPair (tokens ! i) (tokens ! (i + 1))) [0..<length tokens - 1])"

text \<open>The functions the constructor of the cache selects by page size.\<close>

definition key_match_fn :: "nat \<Rightarrow> radix_key \<Rightarrow> radix_key \<Rightarrow> nat result" where
  "key_match_fn page_size key0 key1 =
     (if page_size = 1 then key_match_page_size1 key0 key1 else key_match_paged key0 key1 page_size)"

section \<open>Slices\<close>

lemma key_take_simps [simp, radix_simps]:
  "token_ids (key_take n k) = take n (token_ids k)" "extra_key (key_take n k) = extra_key k"
  by (simp_all add: key_take_def)

lemma key_drop_simps [simp, radix_simps]:
  "token_ids (key_drop n k) = drop n (token_ids k)" "extra_key (key_drop n k) = extra_key k"
  by (simp_all add: key_drop_def)

section \<open>Matching\<close>

lemma count_equal_add: "count_equal ps i = i + count_equal ps 0"
proof (induction ps arbitrary: i)
  case (Cons p ps)
  obtain a b where "p = (a, b)" by (cases p)
  then show ?case using Cons [of "i + 1"] Cons [of 1] by simp
qed simp

lemma count_equal_spec:
  fixes xs ys :: "token list"
  defines "n \<equiv> count_equal (zip xs ys) 0"
  shows "n \<le> min (length xs) (length ys)" "take n xs = take n ys"
    "n < min (length xs) (length ys) \<Longrightarrow> xs ! n \<noteq> ys ! n"
  unfolding n_def
proof (induction xs ys rule: list_induct2')
  case (4 x xs y ys)
  {
    case 1
    show ?case using 4(1) count_equal_add [of "zip xs ys" 1] by auto
  next
    case 2
    show ?case using 4(2) count_equal_add [of "zip xs ys" 1] by auto
  next
    case 3
    then show ?case using 4(3) count_equal_add [of "zip xs ys" 1] by auto
  }
qed simp_all

lemma match_pages_spec:
  assumes "0 < ps" and "ps dvd length xs" and "ps dvd length ys" and "ps dvd i"
    and "i \<le> min (length xs) (length ys)" and "take i xs = take i ys"
  shows "\<exists>n. match_pages ps xs ys i = Inr n \<and> n \<le> min (length xs) (length ys) \<and> ps dvd n \<and>
    take n xs = take n ys \<and>
    (n < min (length xs) (length ys) \<longrightarrow> take ps (drop n xs) \<noteq> take ps (drop n ys))"
  using assms
proof (induction ps xs ys i rule: match_pages.induct)
  case (1 ps xs ys i)
  show ?case
  proof (cases "i < min (length xs) (length ys) \<and> take ps (drop i xs) = take ps (drop i ys)")
    case True
    have step: "i + ps \<le> length zs" if "i < length zs" "ps dvd length zs" for zs :: "token list"
    proof -
      have "ps dvd length zs - i" using that(2) "1.prems"(4) by (simp add: dvd_diff_nat)
      then have "ps \<le> length zs - i" using that(1) by (simp add: dvd_imp_le)
      then show ?thesis using that(1) by simp
    qed
    have "take (i + ps) xs = take (i + ps) ys" using True "1.prems"(6) by (simp add: take_add)
    moreover have "i + ps \<le> min (length xs) (length ys)" using True step "1.prems"(2,3) by simp
    ultimately show ?thesis
      using "1.IH" True "1.prems" by (subst match_pages.simps) simp
  next
    case False
    then show ?thesis using "1.prems" by (subst match_pages.simps) auto
  qed
qed

text \<open>What both matching functions compute on page-aligned keys with the same extra key.\<close>

lemma key_match_fn_spec:
  assumes "0 < ps" and "extra_key k0 = extra_key k1" and "ps dvd key_len k0" and "ps dvd key_len k1"
  shows "\<exists>n. key_match_fn ps k0 k1 = Inr n \<and> n \<le> min (key_len k0) (key_len k1) \<and> ps dvd n \<and>
    take n (token_ids k0) = take n (token_ids k1) \<and>
    (n < min (key_len k0) (key_len k1) \<longrightarrow>
       take ps (drop n (token_ids k0)) \<noteq> take ps (drop n (token_ids k1)))"
proof (cases "ps = 1")
  case True
  let ?n = "count_equal (zip (token_ids k0) (token_ids k1)) 0"
  have "take 1 (drop ?n (token_ids k0)) \<noteq> take 1 (drop ?n (token_ids k1))"
    if "?n < min (key_len k0) (key_len k1)"
    using that count_equal_spec(3) [of "token_ids k0" "token_ids k1"] by (simp add: take_Suc_conv_app_nth
        Cons_nth_drop_Suc [symmetric])
  with True count_equal_spec(1,2) [of "token_ids k0" "token_ids k1"] assms(2)
  show ?thesis by (simp add: key_match_fn_def key_match_page_size1_def check_extra_key_def)
next
  case False
  then show ?thesis
    using match_pages_spec [OF assms(1,3,4), of 0] assms(2)
    by (simp add: key_match_fn_def key_match_paged_def check_extra_key_def)
qed

lemma key_match_fn_extra: "extra_key k0 \<noteq> extra_key k1 \<Longrightarrow> key_match_fn ps k0 k1 = Inl ValueError"
  by (simp add: key_match_fn_def key_match_page_size1_def key_match_paged_def check_extra_key_def)

section \<open>Child keys\<close>

lemma get_child_key_ok:
  "token_ids k \<noteq> [] \<Longrightarrow> \<exists>p. get_child_key k ps = Inr (extra_key k, p)"
  by (cases "token_ids k") (auto simp: get_child_key_def)

lemma get_child_key_eq_iff:
  assumes "0 < ps" and "token_ids k0 \<noteq> []" and "token_ids k1 \<noteq> []"
  shows "get_child_key k0 ps = get_child_key k1 ps \<longleftrightarrow>
    extra_key k0 = extra_key k1 \<and> take ps (token_ids k0) = take ps (token_ids k1)"
  using assms by (cases "token_ids k0"; cases "token_ids k1") (auto simp: get_child_key_def)

lemma get_child_key_take:
  assumes "0 < ps" and "ps dvd n" and "0 < n"
  shows "get_child_key (key_take n k) ps = get_child_key k ps"
proof -
  have "ps \<le> n" using assms by (simp add: dvd_imp_le)
  then have m: "min ps n = ps" "min (ps - Suc 0) (n - Suc 0) = ps - Suc 0" by simp_all
  show ?thesis using assms by (cases "token_ids k") (auto simp: get_child_key_def m take_Cons')
qed

lemma aligned_page_le: "ps dvd n \<Longrightarrow> 0 < n \<Longrightarrow> ps \<le> (n::nat)"
  by (simp add: dvd_imp_le)

section \<open>Bigram keys\<close>

lemma length_convert_to_bigram_key:
  "tokens = [] \<or> (\<exists>i. tokens ! 0 = TInt i) \<Longrightarrow>
   length (convert_to_bigram_key tokens) = length tokens - 1"
  by (auto simp: convert_to_bigram_key_def)

lemma convert_to_bigram_key_idem:
  "convert_to_bigram_key (convert_to_bigram_key tokens) = (if length tokens = 2 \<and> (\<exists>i. tokens ! 0 = TInt i)
     then [] else convert_to_bigram_key tokens)"
proof (cases "length tokens < 2")
  case False
  show ?thesis
  proof (cases "tokens ! 0")
    case (TInt i)
    with False show ?thesis by (auto simp: convert_to_bigram_key_def)
  next
    case (TPair a b)
    with False show ?thesis by (simp add: convert_to_bigram_key_def)
  qed
qed (simp add: convert_to_bigram_key_def)

end
