(* ===== verification/Heapq.thy ===== *)
theory Heapq
  imports Prelude
begin

text \<open>
  The functions of Python's \<^verbatim>\<open>heapq\<close> that the caches use to order nodes for eviction, on a list.
  Elements are compared through a \<open>rank\<close>: \<^verbatim>\<open>x < y\<close> is \<open>rank x < rank y\<close>. The contract of a
  priority queue is the locale \<open>prio_queue\<close>, interpreted on these functions.
\<close>

section \<open>The functions of heapq\<close>

definition parent_pos :: "nat \<Rightarrow> nat" where
  "parent_pos i = (i - 1) div 2"

function siftdown_from :: "('a \<Rightarrow> 'k::linorder) \<Rightarrow> 'a \<Rightarrow> 'a list \<Rightarrow> nat \<Rightarrow> nat \<Rightarrow> 'a list" where
  "siftdown_from rank newitem heap startpos pos =
     (if pos > startpos \<and> rank newitem < rank (heap ! parent_pos pos)
      then siftdown_from rank newitem (heap[pos := heap ! parent_pos pos]) startpos (parent_pos pos)
      else heap[pos := newitem])"
  by pat_completeness auto

termination
  by (relation "measure (\<lambda>(_, _, _, _, pos). pos)") (auto simp: parent_pos_def)

definition siftdown :: "('a \<Rightarrow> 'k::linorder) \<Rightarrow> 'a list \<Rightarrow> nat \<Rightarrow> nat \<Rightarrow> 'a list" where
  "siftdown rank heap startpos pos = siftdown_from rank (heap ! pos) heap startpos pos"

definition small_child :: "('a \<Rightarrow> 'k::linorder) \<Rightarrow> 'a list \<Rightarrow> nat \<Rightarrow> nat" where
  "small_child rank heap pos =
     (if 2 * pos + 2 < length heap \<and> \<not> rank (heap ! (2 * pos + 1)) < rank (heap ! (2 * pos + 2))
      then 2 * pos + 2 else 2 * pos + 1)"

function sink_hole :: "('a \<Rightarrow> 'k::linorder) \<Rightarrow> 'a list \<Rightarrow> nat \<Rightarrow> 'a list \<times> nat" where
  "sink_hole rank heap pos =
     (if 2 * pos + 1 < length heap
      then sink_hole rank (heap[pos := heap ! small_child rank heap pos]) (small_child rank heap pos)
      else (heap, pos))"
  by pat_completeness auto

termination
  by (relation "measure (\<lambda>(_, heap, pos). length heap - pos)") (auto simp: small_child_def)

definition siftup :: "('a \<Rightarrow> 'k::linorder) \<Rightarrow> 'a list \<Rightarrow> nat \<Rightarrow> 'a list" where
  "siftup rank heap pos =
     (case sink_hole rank heap pos of (heap', pos') \<Rightarrow>
        siftdown rank (heap'[pos' := heap ! pos]) pos pos')"

definition heapify :: "('a \<Rightarrow> 'k::linorder) \<Rightarrow> 'a list \<Rightarrow> 'a list" where
  "heapify rank xs = fold (\<lambda>i heap. siftup rank heap i) (rev [0..<length xs div 2]) xs"

definition heappush :: "('a \<Rightarrow> 'k::linorder) \<Rightarrow> 'a list \<Rightarrow> 'a \<Rightarrow> 'a list" where
  "heappush rank heap item = siftdown rank (heap @ [item]) 0 (length heap)"

definition heappop :: "('a \<Rightarrow> 'k::linorder) \<Rightarrow> 'a list \<Rightarrow> ('a \<times> 'a list) result" where
  "heappop rank heap =
     (if heap = [] then Inl IndexError
      else let lastelt = last heap; heap1 = butlast heap
           in if heap1 \<noteq> [] then Inr (heap1 ! 0, siftup rank (heap1[0 := lastelt]) 0)
              else Inr (lastelt, heap1))"

declare siftdown_from.simps [simp del] sink_hole.simps [simp del]

section \<open>The heap invariant\<close>

text \<open>
  \<open>heap_ge s\<close>: every element whose parent is at \<open>s\<close> or later ranks no lower than its parent.
  \<open>hole_ok s pos\<close>: the same for a list with a hole at \<open>pos\<close>, whose children (if any) also rank no
  lower than the parent of the hole.
\<close>

definition heap_ge :: "('a \<Rightarrow> 'k::linorder) \<Rightarrow> nat \<Rightarrow> 'a list \<Rightarrow> bool" where
  "heap_ge rank s h \<longleftrightarrow> (\<forall>i < length h. 0 < i \<longrightarrow> s \<le> parent_pos i \<longrightarrow>
     rank (h ! parent_pos i) \<le> rank (h ! i))"

definition hole_ok :: "('a \<Rightarrow> 'k::linorder) \<Rightarrow> nat \<Rightarrow> nat \<Rightarrow> 'a list \<Rightarrow> bool" where
  "hole_ok rank s pos h \<longleftrightarrow> pos < length h \<and>
     (\<forall>i < length h. 0 < i \<longrightarrow> s \<le> parent_pos i \<longrightarrow> i \<noteq> pos \<longrightarrow> parent_pos i \<noteq> pos \<longrightarrow>
        rank (h ! parent_pos i) \<le> rank (h ! i)) \<and>
     (\<forall>i < length h. 0 < i \<longrightarrow> parent_pos i = pos \<longrightarrow> pos \<noteq> s \<longrightarrow>
        rank (h ! parent_pos pos) \<le> rank (h ! i))"

text \<open>The positions below \<open>s\<close> in the implicit binary tree.\<close>

inductive below :: "nat \<Rightarrow> nat \<Rightarrow> bool" for s where
  below_self: "below s s"
| below_child: "below s (parent_pos i) \<Longrightarrow> 0 < i \<Longrightarrow> below s i"

lemma parent_pos_less [simp]: "0 < i \<Longrightarrow> parent_pos i < i"
  by (simp add: parent_pos_def)

lemma parent_pos_neq [simp]: "0 < i \<Longrightarrow> parent_pos i \<noteq> i" "0 < i \<Longrightarrow> i \<noteq> parent_pos i"
  using parent_pos_less [of i] by linarith+

lemma below_ge: "below s i \<Longrightarrow> s \<le> i"
proof (induction rule: below.induct)
  case (below_child i)
  then show ?case using parent_pos_less [of i] by linarith
qed simp

lemma below_parent: "below s i \<Longrightarrow> i \<noteq> s \<Longrightarrow> below s (parent_pos i) \<and> 0 < i"
  by (auto elim: below.cases)

lemma below_parent_ge: "below s i \<Longrightarrow> i \<noteq> s \<Longrightarrow> s \<le> parent_pos i"
  using below_parent below_ge by blast

lemma parent_pos_children: "0 < i \<Longrightarrow> parent_pos i = p \<longleftrightarrow> i = 2 * p + 1 \<or> i = 2 * p + 2"
  by (auto simp: parent_pos_def)

lemma mset_swap_hole:
  assumes "i < length h" and "j < length h" and "i \<noteq> j"
  shows "mset ((h[i := h ! j])[j := x]) = mset (h[i := x])"
proof -
  have "mset ((h[i := x])[i := (h[i := x]) ! j, j := (h[i := x]) ! i]) = mset (h[i := x])"
    using assms by (intro mset_swap) simp_all
  then show ?thesis using assms by (simp add: list_update_swap)
qed

section \<open>Sifting\<close>

lemma length_siftdown_from [simp]: "length (siftdown_from rank x h s pos) = length h"
  by (induction rank x h s pos rule: siftdown_from.induct) (subst siftdown_from.simps, auto)

lemma siftdown_from_mset:
  "pos < length h \<Longrightarrow> mset (siftdown_from rank x h s pos) = mset (h[pos := x])"
proof (induction rank x h s pos rule: siftdown_from.induct)
  case (1 rank x h s pos)
  show ?case
  proof (cases "pos > s \<and> rank x < rank (h ! parent_pos pos)")
    case True
    then have "0 < pos" by simp
    then have p: "parent_pos pos < pos" by simp
    have "mset (siftdown_from rank x h s pos)
        = mset ((h[pos := h ! parent_pos pos])[parent_pos pos := x])"
      using True 1 p by (subst siftdown_from.simps) simp
    also have "\<dots> = mset (h[pos := x])"
      using p 1(2) by (intro mset_swap_hole) simp_all
    finally show ?thesis .
  next
    case False
    then show ?thesis by (subst siftdown_from.simps) auto
  qed
qed

text \<open>The condition under which filling the hole with \<open>x\<close> leaves at most the edge above it wrong.\<close>

definition fills :: "('a \<Rightarrow> 'k::linorder) \<Rightarrow> 'a \<Rightarrow> nat \<Rightarrow> 'a list \<Rightarrow> bool" where
  "fills rank x pos h \<longleftrightarrow> (\<forall>i < length h. 0 < i \<longrightarrow> parent_pos i = pos \<longrightarrow> rank x \<le> rank (h ! i))"

lemma fill_hole:
  assumes "hole_ok rank s pos h" and "fills rank x pos h"
    and "pos \<le> s \<or> rank (h ! parent_pos pos) \<le> rank x" and "below s pos"
  shows "heap_ge rank s (h[pos := x])"
proof -
  have "rank ((h[pos := x]) ! parent_pos i) \<le> rank ((h[pos := x]) ! i)"
    if i: "i < length h" "0 < i" "s \<le> parent_pos i" for i
  proof (cases "i = pos")
    case True
    moreover have "parent_pos i \<noteq> i" using parent_pos_less [OF i(2)] by simp
    moreover have "pos \<noteq> s" using True i parent_pos_less [OF i(2)] by simp
    ultimately show ?thesis using assms(3) i below_ge [OF assms(4)] by auto
  next
    case False
    then show ?thesis using assms(1,2) i by (cases "parent_pos i = pos") (auto simp: hole_ok_def fills_def)
  qed
  then show ?thesis by (simp add: heap_ge_def)
qed

lemma siftdown_from_heap:
  "hole_ok rank s pos h \<Longrightarrow> fills rank x pos h \<Longrightarrow> below s pos \<Longrightarrow>
   heap_ge rank s (siftdown_from rank x h s pos)"
proof (induction rank x h s pos rule: siftdown_from.induct)
  case (1 rank x h s pos)
  show ?case
  proof (cases "pos > s \<and> rank x < rank (h ! parent_pos pos)")
    case True
    then have pos: "0 < pos" "pos \<noteq> s" by auto
    let ?p = "parent_pos pos" and ?h = "h[pos := h ! parent_pos pos]"
    have p: "?p < pos" using pos by simp
    have len: "pos < length h" using "1.prems"(1) by (simp add: hole_ok_def)
    have bp: "below s ?p" "s \<le> ?p" using below_parent below_parent_ge "1.prems"(3) pos by blast+
    have up: "rank (h ! parent_pos ?p) \<le> rank (h ! ?p)" if "?p \<noteq> s"
      using "1.prems"(1) p len below_parent_ge [OF bp(1) that] below_parent [OF bp(1) that]
      by (auto simp: hole_ok_def dest: parent_pos_less)
    have "fills rank x ?p ?h"
    proof -
      have "rank x \<le> rank (?h ! i)" if i: "i < length h" "0 < i" "parent_pos i = ?p" for i
      proof (cases "i = pos")
        case True
        then show ?thesis using \<open>pos > s \<and> rank x < rank (h ! parent_pos pos)\<close> len by auto
      next
        case False
        have "parent_pos i \<noteq> pos" using i p by simp
        then have "rank (h ! ?p) \<le> rank (h ! i)"
          using "1.prems"(1) i bp(2) False by (auto simp: hole_ok_def)
        then show ?thesis using True False by auto
      qed
      then show ?thesis by (simp add: fills_def)
    qed
    moreover have "hole_ok rank s ?p ?h"
    proof -
      have "rank (?h ! parent_pos i) \<le> rank (?h ! i)"
        if i: "i < length h" "0 < i" "s \<le> parent_pos i" "i \<noteq> ?p" "parent_pos i \<noteq> ?p" for i
        using i "1.prems"(1) pos len by (cases "i = pos"; cases "parent_pos i = pos")
          (auto simp: hole_ok_def)
      moreover have "rank (?h ! parent_pos ?p) \<le> rank (?h ! i)"
        if i: "i < length h" "0 < i" "parent_pos i = ?p" "?p \<noteq> s" for i
      proof -
        have "0 < ?p" using below_parent [OF bp(1) i(4)] by simp
        then have q: "parent_pos ?p < pos" using p by (meson less_trans parent_pos_less)
        show ?thesis
        proof (cases "i = pos")
          case True
          then show ?thesis using up [OF i(4)] q len by simp
        next
          case False
          have "rank (h ! ?p) \<le> rank (h ! i)"
            using "1.prems"(1) i bp(2) False p by (auto simp: hole_ok_def)
          then show ?thesis using up [OF i(4)] q False by auto
        qed
      qed
      ultimately show ?thesis using p len by (simp add: hole_ok_def)
    qed
    ultimately have "heap_ge rank s (siftdown_from rank x ?h s ?p)"
      using "1.IH" [OF True] bp(1) by simp
    then show ?thesis using True by (subst siftdown_from.simps) simp
  next
    case False
    then have "pos \<le> s \<or> rank (h ! parent_pos pos) \<le> rank x" by auto
    from fill_hole [OF "1.prems"(1,2) this "1.prems"(3)] False show ?thesis
      by (subst siftdown_from.simps) auto
  qed
qed

lemma small_child_props:
  assumes "2 * pos + 1 < length h"
  shows "small_child rank h pos < length h" "pos < small_child rank h pos"
    "parent_pos (small_child rank h pos) = pos"
    "i < length h \<Longrightarrow> 0 < i \<Longrightarrow> parent_pos i = pos \<Longrightarrow>
      rank (h ! small_child rank h pos) \<le> rank (h ! i)"
proof -
  show "small_child rank h pos < length h" "pos < small_child rank h pos"
    "parent_pos (small_child rank h pos) = pos"
    using assms by (auto simp: small_child_def parent_pos_def)
  show "rank (h ! small_child rank h pos) \<le> rank (h ! i)"
    if "i < length h" "0 < i" "parent_pos i = pos"
    using that by (auto simp: small_child_def parent_pos_children not_less)
qed

lemma sink_hole_spec:
  assumes "pos < length h" and "hole_ok rank s pos h" and "below s pos"
    and "sink_hole rank h pos = (h', pos')"
  shows "length h' = length h \<and> pos' < length h' \<and> hole_ok rank s pos' h' \<and> below s pos'
    \<and> length h' \<le> 2 * pos' + 1 \<and> mset (h'[pos' := x]) = mset (h[pos := x])"
  using assms
proof (induction rank h pos rule: sink_hole.induct)
  case (1 rank h pos)
  show ?case
  proof (cases "2 * pos + 1 < length h")
    case True
    let ?c = "small_child rank h pos"
    let ?h = "h[pos := h ! ?c]"
    note c = small_child_props [OF True, where rank = rank]
    have "hole_ok rank s ?c ?h"
    proof -
      have "rank (?h ! parent_pos i) \<le> rank (?h ! i)"
        if i: "i < length h" "0 < i" "s \<le> parent_pos i" "i \<noteq> ?c" "parent_pos i \<noteq> ?c" for i
      proof (cases "i = pos")
        case i_pos: True
        then have "pos \<noteq> s" using i parent_pos_less [of i] by linarith
        then have "rank (h ! parent_pos pos) \<le> rank (h ! ?c)"
          using "1.prems"(2) c(1-3) by (auto simp: hole_ok_def)
        then show ?thesis using i_pos i parent_pos_less [of i] by simp
      next
        case False
        then show ?thesis using i "1.prems"(1,2) c(4) [of i]
          by (cases "parent_pos i = pos") (auto simp: hole_ok_def)
      qed
      moreover have "rank (?h ! parent_pos ?c) \<le> rank (?h ! i)"
        if i: "i < length h" "0 < i" "parent_pos i = ?c" for i
      proof -
        have "i \<noteq> pos" using i c(2) parent_pos_less [of i] by linarith
        moreover have "rank (h ! ?c) \<le> rank (h ! i)"
          using "1.prems"(2) i c(2) below_ge [OF "1.prems"(3)] \<open>i \<noteq> pos\<close>
          by (auto simp: hole_ok_def)
        ultimately show ?thesis using c "1.prems"(1) by simp
      qed
      ultimately show ?thesis using c(1) by (auto simp: hole_ok_def)
    qed
    moreover have "below s ?c" using below_child [of s ?c] c(2,3) "1.prems"(3) by simp
    moreover have "sink_hole rank ?h ?c = (h', pos')"
      using "1.prems"(4) True by (subst (asm) sink_hole.simps) simp
    moreover have "mset (?h[?c := x]) = mset (h[pos := x])"
      using c(1,2) "1.prems"(1) by (intro mset_swap_hole) auto
    ultimately show ?thesis using "1.IH" [OF True] c(1) by simp
  next
    case False
    then show ?thesis using 1 by (subst (asm) sink_hole.simps) auto
  qed
qed

lemma siftup_spec:
  assumes "heap_ge rank (Suc s) h" and "s < length h"
  shows "heap_ge rank s (siftup rank h s) \<and> mset (siftup rank h s) = mset h
    \<and> length (siftup rank h s) = length h"
proof -
  obtain h' pos' where sink: "sink_hole rank h s = (h', pos')" by fastforce
  have "hole_ok rank s s h"
    using assms by (auto simp: hole_ok_def heap_ge_def le_less)
  from sink_hole_spec [OF assms(2) this below_self sink, of "h ! s"]
  have len: "length h' = length h" "pos' < length h'" and ok: "hole_ok rank s pos' h'" "below s pos'"
    and leaf: "length h' \<le> 2 * pos' + 1" and ms: "mset (h'[pos' := h ! s]) = mset h" by simp_all
  let ?x = "h ! s" and ?g = "h'[pos' := h ! s]"
  have no: "parent_pos i \<noteq> pos'" if "i < length h'" "0 < i" for i
    using that leaf by (auto simp: parent_pos_children)
  then have "fills rank ?x pos' ?g" by (simp add: fills_def)
  moreover have "hole_ok rank s pos' ?g"
    using ok(1) no by (auto simp: hole_ok_def nth_list_update)
  ultimately have "heap_ge rank s (siftdown_from rank ?x ?g s pos')"
    using ok(2) by (intro siftdown_from_heap)
  moreover have "mset (siftdown_from rank ?x ?g s pos') = mset h"
    using siftdown_from_mset [of pos' ?g rank ?x s] len ms by simp
  ultimately show ?thesis using len sink by (simp add: siftup_def siftdown_def)
qed

section \<open>The queue operations\<close>

lemma heapify_spec:
  "heap_ge rank 0 (heapify rank xs) \<and> mset (heapify rank xs) = mset xs"
proof -
  have "heap_ge rank (k - n) (fold (\<lambda>i h. siftup rank h i) (take n (rev [0..<k])) xs) \<and>
      mset (fold (\<lambda>i h. siftup rank h i) (take n (rev [0..<k])) xs) = mset xs"
    if "n \<le> k" and k: "k = length xs div 2" for n k
    using that(1)
  proof (induction n)
    case 0
    have "\<not> k \<le> parent_pos i" if "i < length xs" "0 < i" for i
      using that k by (auto simp: parent_pos_def)
    then show ?case by (auto simp: heap_ge_def)
  next
    case (Suc n)
    let ?h = "fold (\<lambda>i h. siftup rank h i) (take n (rev [0..<k])) xs"
    have IH: "heap_ge rank (Suc (k - Suc n)) ?h" "mset ?h = mset xs" using Suc by (simp_all add: Suc_diff_Suc)
    have "length ?h = length xs" using IH(2) by (metis size_mset)
    then have "k - Suc n < length ?h" using k Suc.prems by linarith
    moreover have "take (Suc n) (rev [0..<k]) = take n (rev [0..<k]) @ [k - Suc n]"
      using Suc.prems by (simp add: take_Suc_conv_app_nth rev_nth)
    ultimately show ?case using siftup_spec [OF IH(1)] IH(2) by simp
  qed
  from this [of "length xs div 2" "length xs div 2"] show ?thesis by (simp add: heapify_def)
qed

lemma heappush_spec:
  assumes "heap_ge rank 0 h"
  shows "heap_ge rank 0 (heappush rank h x) \<and> mset (heappush rank h x) = add_mset x (mset h)"
proof -
  have below0: "below 0 i" for i
  proof (induction i rule: less_induct)
    case (less i)
    then show ?case by (cases "i = 0") (auto intro: below.intros)
  qed
  have no: "parent_pos i \<noteq> length h" if "i < Suc (length h)" "0 < i" for i
    using that by (auto simp: parent_pos_def)
  have pl: "parent_pos i < length h" if "i < length h" "0 < i" for i
    using that less_trans [OF parent_pos_less] by blast
  have "hole_ok rank 0 (length h) (h @ [x])"
    using assms no pl by (auto simp: hole_ok_def heap_ge_def nth_append less_Suc_eq)
  moreover have "fills rank x (length h) (h @ [x])" using no by (simp add: fills_def)
  ultimately have "heap_ge rank 0 (siftdown_from rank x (h @ [x]) 0 (length h))"
    using below0 by (intro siftdown_from_heap)
  then show ?thesis
    using siftdown_from_mset [of "length h" "h @ [x]" rank x 0]
    by (simp add: heappush_def siftdown_def)
qed

lemma heap_root_min:
  assumes "heap_ge rank 0 h" and "i < length h"
  shows "rank (h ! 0) \<le> rank (h ! i)"
  using assms(2)
proof (induction i rule: less_induct)
  case (less i)
  show ?case
  proof (cases "i = 0")
    case False
    then have "rank (h ! 0) \<le> rank (h ! parent_pos i)" using less by simp
    also have "\<dots> \<le> rank (h ! i)" using assms(1) less.prems False by (simp add: heap_ge_def)
    finally show ?thesis .
  qed simp
qed

lemma heappop_spec:
  assumes h: "heap_ge rank 0 h" and ne: "h \<noteq> []"
  shows "\<exists>x h'. heappop rank h = Inr (x, h') \<and> heap_ge rank 0 h' \<and> mset h = add_mset x (mset h')
    \<and> (\<forall>y \<in># mset h. rank x \<le> rank y)"
proof (cases "butlast h = []")
  case True
  with ne have "h = [last h]" by (metis append_Nil append_butlast_last_id)
  then obtain y where "h = [y]" by blast
  then show ?thesis by (simp add: heappop_def heap_ge_def)
next
  case False
  define t where "t = (butlast h)[0 := last h]"
  have h_eq: "h = h ! 0 # tl (butlast h) @ [last h]"
    using False ne by (metis append_Cons append_butlast_last_id hd_conv_nth list.collapse nth_butlast
        length_greater_0_conv)
  have t_eq: "t = last h # tl (butlast h)" using False by (simp add: t_def) (metis list.collapse list_update_code(2))
  have "heap_ge rank (Suc 0) t"
    using h by (auto simp: heap_ge_def t_def nth_butlast nth_list_update parent_pos_def)
  then have sp: "heap_ge rank 0 (siftup rank t 0)" "mset (siftup rank t 0) = mset t"
    using siftup_spec [of rank 0 t] t_eq by auto
  have "heappop rank h = Inr (h ! 0, siftup rank t 0)"
    using False ne nth_butlast [OF False [folded length_greater_0_conv]] by (simp add: heappop_def t_def Let_def)
  moreover have "mset h = add_mset (h ! 0) (mset t)" by (subst h_eq) (simp add: t_eq)
  moreover have "\<forall>y \<in># mset h. rank (h ! 0) \<le> rank y"
    using heap_root_min [OF h] by (auto simp: in_set_conv_nth)
  ultimately show ?thesis using sp by auto
qed

section \<open>The contract of a priority queue\<close>

locale prio_queue =
  fixes of_list :: "'a list \<Rightarrow> 'q" and push :: "'q \<Rightarrow> 'a \<Rightarrow> 'q" and pop :: "'q \<Rightarrow> ('a \<times> 'q) result"
    and elems :: "'q \<Rightarrow> 'a multiset" and invar :: "'q \<Rightarrow> bool" and rank :: "'a \<Rightarrow> 'k::linorder"
  assumes of_list: "invar (of_list xs) \<and> elems (of_list xs) = mset xs"
    and push: "invar q \<Longrightarrow> invar (push q x) \<and> elems (push q x) = add_mset x (elems q)"
    and pop: "invar q \<Longrightarrow> elems q \<noteq> {#} \<Longrightarrow> \<exists>x q'. pop q = Inr (x, q') \<and> invar q' \<and>
        elems q = add_mset x (elems q') \<and> (\<forall>y \<in># elems q. rank x \<le> rank y)"
begin

lemma popE:
  assumes "invar q" and "elems q \<noteq> {#}"
  obtains x q' where "pop q = Inr (x, q')" "invar q'" "elems q = add_mset x (elems q')"
    "\<And>y. y \<in># elems q \<Longrightarrow> rank x \<le> rank y"
  using pop [OF assms] by blast

end

interpretation hq: prio_queue "heapify rank" "heappush rank" "heappop rank" mset "heap_ge rank 0" rank
  for rank :: "'a \<Rightarrow> 'k::linorder"
  by unfold_locales (simp_all add: heapify_spec heappush_spec heappop_spec [simplified])

end
