(* ===== verification/Radix_Cache.thy ===== *)
theory Radix_Cache
  imports Radix_Key Heapq
begin

text \<open>
  \<open>TreeNode\<close> and \<open>RadixCache\<close> of \<^verbatim>\<open>mem_cache/radix_cache.py\<close>, with the eviction strategies of
  \<^verbatim>\<open>mem_cache/evict_policy.py\<close>. Nodes live in a store addressed by their \<^verbatim>\<open>id\<close>; \<open>counter\<close> is the
  next free id. The clock and \<^verbatim>\<open>hash\<close> are arguments of the constructor: the cache reads
  \<open>clock 0\<close>, \<open>clock 1\<close>, ... in turn. Page sizes are positive.

  A loop over the tree has fuel: the length of the key for the descents, the number of nodes ever
  created for walks to the root, traversals and evictions.
\<close>

section \<open>Nodes\<close>

record tree_node =
  children :: "(child_key \<times> nat) list"
  parent :: "nat option"
  key :: radix_key
  node_value :: "int list option"
  lock_ref :: int
  last_access_time :: int
  creation_time :: int
  hit_count :: int
  host_ref_counter :: int
  host_value :: "int list option"
  hash_value :: "string list option"

definition tree_node_init :: "int \<Rightarrow> int \<Rightarrow> tree_node" where
  "tree_node_init t0 t1 = \<lparr>children = [], parent = None, key = \<lparr>token_ids = [], extra_key = None\<rparr>,
     node_value = None, lock_ref = 0, last_access_time = t0, creation_time = t1, hit_count = 0,
     host_ref_counter = 0, host_value = None, hash_value = None\<rparr>"

definition evicted :: "tree_node \<Rightarrow> bool" where
  "evicted n \<longleftrightarrow> node_value n = None"

definition backuped :: "tree_node \<Rightarrow> bool" where
  "backuped n \<longleftrightarrow> host_value n \<noteq> None"

definition protect_host :: "tree_node \<Rightarrow> tree_node" where
  "protect_host n = n\<lparr>host_ref_counter := host_ref_counter n + 1\<rparr>"

definition release_host :: "tree_node \<Rightarrow> tree_node result" where
  "release_host n =
     (if host_ref_counter n > 0 then Inr (n\<lparr>host_ref_counter := host_ref_counter n - 1\<rparr>)
      else Inl RuntimeError)"

definition get_last_hash_value :: "tree_node \<Rightarrow> string option" where
  "get_last_hash_value n =
     (case hash_value n of None \<Rightarrow> None | Some hs \<Rightarrow> if hs = [] then None else Some (last hs))"

section \<open>Eviction strategies\<close>

text \<open>A priority is a float or a tuple; both are pairs here, a float with second component 0.\<close>

datatype eviction_strategy = LRUStrategy | LFUStrategy | FIFOStrategy | MRUStrategy | FILOStrategy

fun get_priority :: "eviction_strategy \<Rightarrow> tree_node \<Rightarrow> int \<times> int" where
  "get_priority LRUStrategy n = (last_access_time n, 0)"
| "get_priority LFUStrategy n = (hit_count n, last_access_time n)"
| "get_priority FIFOStrategy n = (creation_time n, 0)"
| "get_priority MRUStrategy n = (- last_access_time n, 0)"
| "get_priority FILOStrategy n = (- creation_time n, 0)"

section \<open>The cache\<close>

datatype kv_event =
    BlockStored (block_hashes: "int list") (parent_block_hash: "int option")
      (event_token_ids: "token list") (block_size: nat)
  | BlockRemoved (block_hashes: "int list")
  | AllBlocksCleared

record radix_cache =
  page_size :: nat
  disable :: bool
  enable_kv_cache_events :: bool
  kv_event_queue :: "kv_event list"
  is_eagle :: bool
  strategy :: eviction_strategy
  root_node :: nat
  evictable_size :: int
  protected_size :: int
  nodes :: "nat \<Rightarrow> tree_node"
  counter :: nat
  clock :: "nat \<Rightarrow> int"
  reads :: nat
  py_hash :: "token list \<Rightarrow> int"

abbreviation kids :: "radix_cache \<Rightarrow> nat \<Rightarrow> (child_key \<times> nat) list" where
  "kids c n \<equiv> children (nodes c n)"

abbreviation toks :: "radix_cache \<Rightarrow> nat \<Rightarrow> token list" where
  "toks c n \<equiv> token_ids (key (nodes c n))"

definition upd_node :: "radix_cache \<Rightarrow> nat \<Rightarrow> (tree_node \<Rightarrow> tree_node) \<Rightarrow> radix_cache" where
  "upd_node c n f = c\<lparr>nodes := (nodes c)(n := f (nodes c n))\<rparr>"

definition touch :: "radix_cache \<Rightarrow> nat \<Rightarrow> int \<Rightarrow> radix_cache" where
  "touch c n t = upd_node c n (\<lambda>x. x\<lparr>last_access_time := t\<rparr>)"

definition monotonic :: "radix_cache \<Rightarrow> int \<times> radix_cache" where
  "monotonic c = (clock c (reads c), c\<lparr>reads := reads c + 1\<rparr>)"

definition new_tree_node :: "radix_cache \<Rightarrow> nat \<times> radix_cache" where
  "new_tree_node c =
     (counter c,
      c\<lparr>nodes := (nodes c)(counter c := tree_node_init (clock c (reads c)) (clock c (reads c + 1))),
        reads := reads c + 2, counter := counter c + 1\<rparr>)"

definition get_value :: "radix_cache \<Rightarrow> nat \<Rightarrow> int list result" where
  "get_value c n = (case node_value (nodes c n) of None \<Rightarrow> Inl TypeError | Some v \<Rightarrow> Inr v)"

section \<open>Events\<close>

definition page_chunks :: "nat \<Rightarrow> token list \<Rightarrow> token list list" where
  "page_chunks ps ts = map (\<lambda>i. take ps (drop (i * ps) ts)) [0..<ceil_div (length ts) ps]"

fun store_events :: "(token list \<Rightarrow> int) \<Rightarrow> int option \<Rightarrow> token list list \<Rightarrow> kv_event list" where
  "store_events h parent_hash [] = []"
| "store_events h parent_hash (p # pages) =
     (if p = [] then store_events h parent_hash pages
      else BlockStored [h p] parent_hash p (length p) # store_events h (Some (h p)) pages)"

definition record_store_event :: "radix_cache \<Rightarrow> nat \<Rightarrow> radix_cache" where
  "record_store_event c n =
     (if enable_kv_cache_events c
      then let parent_hash =
             (case parent (nodes c n) of
                None \<Rightarrow> None
              | Some p \<Rightarrow>
                  if n \<noteq> root_node c then None
                  else let ps = int (page_size c);
                           last_page_start = (int (key_len (key (nodes c p))) - 1) div ps * ps
                       in Some (py_hash c (py_from (toks c p) last_page_start)))
           in c\<lparr>kv_event_queue := kv_event_queue c
                  @ store_events (py_hash c) parent_hash (page_chunks (page_size c) (toks c n))\<rparr>
      else c)"

definition record_remove_event :: "radix_cache \<Rightarrow> nat \<Rightarrow> radix_cache" where
  "record_remove_event c n =
     (if enable_kv_cache_events c
      then c\<lparr>kv_event_queue := kv_event_queue c
              @ map (\<lambda>p. BlockRemoved [py_hash c p])
                  (filter (\<lambda>p. p \<noteq> []) (page_chunks (page_size c) (toks c n)))\<rparr>
      else c)"

definition record_all_cleared_event :: "radix_cache \<Rightarrow> radix_cache" where
  "record_all_cleared_event c =
     (if enable_kv_cache_events c
      then c\<lparr>kv_event_queue := kv_event_queue c @ [AllBlocksCleared]\<rparr> else c)"

definition take_events :: "radix_cache \<Rightarrow> kv_event list \<times> radix_cache" where
  "take_events c =
     (if \<not> enable_kv_cache_events c then ([], c)
      else (kv_event_queue c, c\<lparr>kv_event_queue := []\<rparr>))"

section \<open>Construction\<close>

definition reset :: "radix_cache \<Rightarrow> radix_cache" where
  "reset c =
     (case new_tree_node c of (r, c1) \<Rightarrow>
        record_all_cleared_event
          ((upd_node c1 r (\<lambda>n. n\<lparr>key := \<lparr>token_ids = [], extra_key = None\<rparr>, node_value := Some [],
              host_value := Some [], lock_ref := 1\<rparr>))
            \<lparr>root_node := r, evictable_size := 0, protected_size := 0\<rparr>))"

definition lower_char :: "char \<Rightarrow> char" where
  "lower_char ch = (let n = of_char ch :: nat in if 65 \<le> n \<and> n \<le> 90 then char_of (n + 32) else ch)"

definition parse_policy :: "string \<Rightarrow> eviction_strategy result" where
  "parse_policy policy =
     (let p = map lower_char policy in
      if p = ''lru'' then Inr LRUStrategy
      else if p = ''lfu'' then Inr LFUStrategy
      else if p = ''fifo'' then Inr FIFOStrategy
      else if p = ''mru'' then Inr MRUStrategy
      else if p = ''filo'' then Inr FILOStrategy
      else Inl ValueError)"

definition radix_init ::
    "nat \<Rightarrow> bool \<Rightarrow> bool \<Rightarrow> string \<Rightarrow> bool \<Rightarrow> (nat \<Rightarrow> int) \<Rightarrow> (token list \<Rightarrow> int) \<Rightarrow>
     radix_cache result" where
  "radix_init ps dis events policy eagle clk h =
     bind_r (parse_policy policy) (\<lambda>st.
       Inr (reset \<lparr>page_size = ps, disable = dis, enable_kv_cache_events = events,
         kv_event_queue = [], is_eagle = eagle, strategy = st, root_node = 0,
         evictable_size = 0, protected_size = 0, nodes = (\<lambda>_. tree_node_init 0 0),
         counter = 0, clock = clk, reads = 0, py_hash = h\<rparr>))"

definition key_convert_fn :: "radix_cache \<Rightarrow> token list \<Rightarrow> token list" where
  "key_convert_fn c ts = (if is_eagle c then convert_to_bigram_key ts else ts)"

section \<open>Splitting, matching and inserting\<close>

definition split_node :: "radix_cache \<Rightarrow> radix_key \<Rightarrow> nat \<Rightarrow> nat \<Rightarrow> (nat \<times> radix_cache) result" where
  "split_node c k child split_len =
     (case new_tree_node (record_remove_event c child) of (new_node, c1) \<Rightarrow>
      bind_r (get_child_key (key_drop split_len k) (page_size c)) (\<lambda>ck_rest.
      bind_r (get_value c1 child) (\<lambda>v.
      bind_r (get_child_key k (page_size c)) (\<lambda>ck.
      let old = nodes c1 child;
          c2 = upd_node c1 new_node (\<lambda>n. n\<lparr>children := [(ck_rest, child)], parent := parent old,
                 lock_ref := lock_ref old, key := key_take split_len (key old),
                 node_value := Some (take split_len v)\<rparr>);
          c3 = upd_node c2 child (\<lambda>n. n\<lparr>parent := Some new_node,
                 key := key_drop split_len (key old), node_value := Some (drop split_len v)\<rparr>)
      in case parent old of
           None \<Rightarrow> Inl AttributeError
         | Some p \<Rightarrow>
             let c4 = upd_node c3 p (\<lambda>n. n\<lparr>children := AList.update ck new_node (children n)\<rparr>)
             in Inr (new_node,
                  record_store_event (record_store_event c4 new_node) child)))))"

fun match_loop ::
    "nat \<Rightarrow> radix_cache \<Rightarrow> int \<Rightarrow> nat \<Rightarrow> radix_key \<Rightarrow> child_key \<Rightarrow> int list \<Rightarrow>
     (int list \<times> nat \<times> radix_cache) result" where
  "match_loop fuel c access_time node k ck value =
     (case (if key_len k > 0 then map_of (kids c node) ck else None) of
        None \<Rightarrow> Inr (value, node, c)
      | Some child \<Rightarrow>
          (case fuel of
             0 \<Rightarrow> Inl NonTermination
           | Suc fuel' \<Rightarrow>
               let c1 = touch c child access_time
               in bind_r (key_match_fn (page_size c) (key (nodes c1 child)) k) (\<lambda>prefix_len.
                  if prefix_len < key_len (key (nodes c1 child))
                  then bind_r (split_node c1 (key (nodes c1 child)) child prefix_len) (\<lambda>(new_node, c2).
                       bind_r (get_value c2 new_node) (\<lambda>v. Inr (value @ v, new_node, c2)))
                  else bind_r (get_value c1 child) (\<lambda>v.
                       let k' = key_drop prefix_len k
                       in bind_r (if key_len k' > 0 then get_child_key k' (page_size c) else Inr ck)
                            (\<lambda>ck'. match_loop fuel' c1 access_time child k' ck' (value @ v))))))"

definition match_prefix_helper ::
    "radix_cache \<Rightarrow> nat \<Rightarrow> radix_key \<Rightarrow> (int list \<times> nat \<times> radix_cache) result" where
  "match_prefix_helper c node k =
     (case monotonic c of (access_time, c0) \<Rightarrow>
      let c1 = touch c0 node access_time
      in bind_r (get_child_key k (page_size c)) (\<lambda>ck.
           match_loop (Suc (key_len k)) c1 access_time node k ck []))"

text \<open>
  The result of a match: the KV indices of the matched prefix and the node it ends at (both the
  device and the host node of \<open>MatchResult\<close>, whose host hit length is 0 here).
\<close>

definition match_prefix :: "radix_cache \<Rightarrow> radix_key \<Rightarrow> (int list \<times> nat \<times> radix_cache) result" where
  "match_prefix c k0 =
     (let k = k0\<lparr>token_ids := key_convert_fn c (token_ids k0)\<rparr>
      in if disable c \<or> key_len k = 0 then Inr ([], root_node c, c)
         else let k1 = (if page_size c \<noteq> 1
                        then key_take (key_len k div page_size c * page_size c) k else k)
              in if key_len k1 = 0 then Inr ([], root_node c, c)
                 else match_prefix_helper c (root_node c) k1)"

fun insert_loop ::
    "nat \<Rightarrow> radix_cache \<Rightarrow> int \<Rightarrow> nat \<Rightarrow> radix_key \<Rightarrow> child_key \<Rightarrow> int list \<Rightarrow> nat \<Rightarrow>
     (nat \<times> radix_key \<times> child_key \<times> int list \<times> nat \<times> radix_cache) result" where
  "insert_loop fuel c access_time node k ck value tot =
     (case (if key_len k > 0 then map_of (kids c node) ck else None) of
        None \<Rightarrow> Inr (node, k, ck, value, tot, c)
      | Some child \<Rightarrow>
          (case fuel of
             0 \<Rightarrow> Inl NonTermination
           | Suc fuel' \<Rightarrow>
               let c1 = touch c child access_time
               in bind_r (key_match_fn (page_size c) (key (nodes c1 child)) k) (\<lambda>prefix_len.
                  let k' = key_drop prefix_len k; value' = drop prefix_len value
                  in bind_r (if prefix_len < key_len (key (nodes c1 child))
                             then split_node c1 (key (nodes c1 child)) child prefix_len
                             else Inr (child, c1)) (\<lambda>(node', c2).
                     bind_r (if key_len k' > 0 then get_child_key k' (page_size c) else Inr ck)
                       (\<lambda>ck'. insert_loop fuel' c2 access_time node' k' ck' value' (tot + prefix_len))))))"

definition insert_helper ::
    "radix_cache \<Rightarrow> nat \<Rightarrow> radix_key \<Rightarrow> int list \<Rightarrow> (nat \<times> radix_cache) result" where
  "insert_helper c node k value =
     (case monotonic c of (access_time, c0) \<Rightarrow>
      let c1 = touch c0 node access_time
      in if key_len k = 0 then Inr (0, c1)
         else bind_r (get_child_key k (page_size c)) (\<lambda>ck.
              bind_r (insert_loop (Suc (key_len k)) c1 access_time node k ck value 0)
                (\<lambda>(node', k', ck', value', tot, c2).
                   if key_len k' > 0
                   then (case new_tree_node c2 of (new_node, c3) \<Rightarrow>
                     let c4 = upd_node c3 new_node (\<lambda>n. n\<lparr>parent := Some node', key := k',
                                node_value := Some value'\<rparr>);
                         c5 = upd_node c4 node' (\<lambda>n. n\<lparr>children := AList.update ck' new_node (children n)\<rparr>);
                         c6 = c5\<lparr>evictable_size := evictable_size c5 + int (key_len k')\<rparr>
                     in Inr (tot, record_store_event c6 new_node))
                   else Inr (tot, c2))))"

text \<open>
  Without a value the tokens themselves are stored, as the tests do; this reading of the tokens as
  a tensor is modelled for plain tokens only (a bigram key would give a two-dimensional tensor).
\<close>

fun token_value :: "token \<Rightarrow> int result" where
  "token_value (TInt i) = Inr i"
| "token_value (TPair _ _) = Inl NotImplementedError"

fun tensor_of_tokens :: "token list \<Rightarrow> int list result" where
  "tensor_of_tokens [] = Inr []"
| "tensor_of_tokens (t # ts) =
     bind_r (token_value t) (\<lambda>i. bind_r (tensor_of_tokens ts) (\<lambda>is. Inr (i # is)))"

definition rc_insert :: "radix_cache \<Rightarrow> radix_key \<Rightarrow> int list option \<Rightarrow> (nat \<times> radix_cache) result" where
  "rc_insert c k0 value0 =
     (if disable c then Inr (0, c)
      else let k = k0\<lparr>token_ids := key_convert_fn c (token_ids k0)\<rparr>
           in bind_r (case value0 of None \<Rightarrow> tensor_of_tokens (token_ids k) | Some v \<Rightarrow> Inr v) (\<lambda>v.
              insert_helper c (root_node c) k (if is_eagle c then take (key_len k) v else v)))"

section \<open>Locks\<close>

fun inc_lock_loop :: "nat \<Rightarrow> radix_cache \<Rightarrow> nat option \<Rightarrow> int \<Rightarrow> (int \<times> radix_cache) result" where
  "inc_lock_loop fuel c node delta =
     (if node = Some (root_node c) then Inr (delta, c)
      else case node of
        None \<Rightarrow> Inl AttributeError
      | Some n \<Rightarrow>
          (case fuel of
             0 \<Rightarrow> Inl NonTermination
           | Suc fuel' \<Rightarrow>
               let len = int (key_len (key (nodes c n)));
                   c1 = (if lock_ref (nodes c n) = 0
                         then c\<lparr>evictable_size := evictable_size c - len,
                                protected_size := protected_size c + len\<rparr> else c);
                   delta1 = (if lock_ref (nodes c n) = 0 then delta - len else delta);
                   c2 = upd_node c1 n (\<lambda>x. x\<lparr>lock_ref := lock_ref x + 1\<rparr>)
               in inc_lock_loop fuel' c2 (parent (nodes c2 n)) delta1))"

definition inc_lock_ref :: "radix_cache \<Rightarrow> nat \<Rightarrow> (int \<times> radix_cache) result" where
  "inc_lock_ref c n = (if disable c then Inr (0, c) else inc_lock_loop (counter c) c (Some n) 0)"

fun dec_lock_loop :: "nat \<Rightarrow> radix_cache \<Rightarrow> nat \<Rightarrow> int \<Rightarrow> (int \<times> radix_cache) result" where
  "dec_lock_loop fuel c n delta =
     (if n = root_node c then Inr (delta, c)
      else case fuel of
             0 \<Rightarrow> Inl NonTermination
           | Suc fuel' \<Rightarrow>
               let len = int (key_len (key (nodes c n)));
                   c1 = (if lock_ref (nodes c n) = 1
                         then c\<lparr>evictable_size := evictable_size c + len,
                                protected_size := protected_size c - len\<rparr> else c);
                   delta1 = (if lock_ref (nodes c n) = 1 then delta + len else delta);
                   c2 = upd_node c1 n (\<lambda>x. x\<lparr>lock_ref := lock_ref x - 1\<rparr>)
               in case parent (nodes c2 n) of
                    None \<Rightarrow> Inl AssertionError
                  | Some p \<Rightarrow> dec_lock_loop fuel' c2 p delta1)"

definition dec_lock_ref :: "radix_cache \<Rightarrow> nat \<Rightarrow> (int \<times> radix_cache) result" where
  "dec_lock_ref c n = (if disable c then Inr (0, c) else dec_lock_loop (counter c) c n 0)"

section \<open>Traversals\<close>

fun total_size_loop :: "nat \<Rightarrow> radix_cache \<Rightarrow> nat list \<Rightarrow> nat \<Rightarrow> nat result" where
  "total_size_loop fuel c stack tot =
     (if stack = [] then Inr tot
      else case fuel of
             0 \<Rightarrow> Inl NonTermination
           | Suc fuel' \<Rightarrow>
               let n = last stack
               in bind_r (get_value c n) (\<lambda>v.
                  total_size_loop fuel' c
                    (butlast stack @ filter (\<lambda>m. \<not> evicted (nodes c m)) (map snd (kids c n)))
                    (tot + length v)))"

definition total_size :: "radix_cache \<Rightarrow> nat result" where
  "total_size c = total_size_loop (counter c) c [root_node c] 0"

fun dfs_values :: "nat \<Rightarrow> radix_cache \<Rightarrow> nat \<Rightarrow> int list list result" where
  "dfs_values fuel c n =
     (case fuel of
        0 \<Rightarrow> Inl NonTermination
      | Suc fuel' \<Rightarrow>
          fold (\<lambda>(_, m) acc. bind_r acc (\<lambda>vs. bind_r (get_value c m) (\<lambda>v.
                  bind_r (dfs_values fuel' c m) (\<lambda>ws. Inr (vs @ [v] @ ws)))))
            (kids c n) (Inr []))"

definition all_values_flatten :: "radix_cache \<Rightarrow> int list result" where
  "all_values_flatten c =
     bind_r (dfs_values (counter c) c (root_node c)) (\<lambda>vs.
       if vs = [] then Inl RuntimeError else Inr (concat vs))"

fun collect_loop :: "nat \<Rightarrow> radix_cache \<Rightarrow> nat list \<Rightarrow> nat list \<Rightarrow> nat list result" where
  "collect_loop fuel c stack ret =
     (if stack = [] then Inr ret
      else case fuel of
             0 \<Rightarrow> Inl NonTermination
           | Suc fuel' \<Rightarrow>
               let cur = last stack; rest = butlast stack
               in if kids c cur = []
                  then collect_loop fuel' c rest (if lock_ref (nodes c cur) = 0 then ret @ [cur] else ret)
                  else collect_loop fuel' c (rest @ map snd (kids c cur)) ret)"

definition collect_leaves :: "radix_cache \<Rightarrow> nat list result" where
  "collect_leaves c = collect_loop (counter c) c (map snd (kids c (root_node c))) []"

section \<open>Eviction\<close>

text \<open>
  \<^verbatim>\<open>for k, v in children.items(): if v == node: break\<close>, then \<^verbatim>\<open>del children[k]\<close>: when no entry
  is the node, \<open>k\<close> is the last key, and it is unbound when there is none.
\<close>

fun find_child :: "(child_key \<times> nat) list \<Rightarrow> nat \<Rightarrow> child_key result" where
  "find_child [] n = Inl NameError"
| "find_child ((k, v) # kvs) n = (if v = n \<or> kvs = [] then Inr k else find_child kvs n)"

definition delete_leaf :: "radix_cache \<Rightarrow> nat \<Rightarrow> radix_cache result" where
  "delete_leaf c n =
     (case parent (nodes c n) of
        None \<Rightarrow> Inl AttributeError
      | Some p \<Rightarrow>
          bind_r (find_child (kids c p) n) (\<lambda>k.
            let c1 = upd_node c p (\<lambda>x. x\<lparr>children := AList.delete k (children x)\<rparr>)
            in Inr (c1\<lparr>evictable_size := evictable_size c1 - int (key_len (key (nodes c1 n)))\<rparr>)))"

text \<open>
  A heap entry is a pair of a priority and a node. Python compares entries by priority, and nodes of
  equal priority by \<open>TreeNode.__lt__\<close>, i.e. by access time.
\<close>

definition entry_rank :: "radix_cache \<Rightarrow> (int \<times> int) \<times> nat \<Rightarrow> (int \<times> int) \<times> int" where
  "entry_rank c e = (fst e, last_access_time (nodes c (snd e)))"

definition heap_entry :: "radix_cache \<Rightarrow> nat \<Rightarrow> (int \<times> int) \<times> nat" where
  "heap_entry c n = (get_priority (strategy c) (nodes c n), n)"

text \<open>The allocator is the argument \<open>free\<close> and its state \<open>a\<close>.\<close>

fun evict_loop ::
    "nat \<Rightarrow> ('a \<Rightarrow> int list \<Rightarrow> 'a result) \<Rightarrow> int \<Rightarrow> radix_cache \<Rightarrow> 'a \<Rightarrow>
     ((int \<times> int) \<times> nat) list \<Rightarrow> int \<Rightarrow> (int \<times> radix_cache \<times> 'a) result" where
  "evict_loop fuel free num_tokens c a heap num_evicted =
     (if num_evicted < num_tokens \<and> length heap > 0
      then (case fuel of
              0 \<Rightarrow> Inl NonTermination
            | Suc fuel' \<Rightarrow>
                bind_r (heappop (entry_rank c) heap) (\<lambda>((_, x), heap1).
                bind_r (get_value c x) (\<lambda>v.
                bind_r (free a v) (\<lambda>a1.
                bind_r (delete_leaf c x) (\<lambda>c1.
                case parent (nodes c1 x) of
                  None \<Rightarrow> Inl AttributeError
                | Some p \<Rightarrow>
                    let heap2 = (if length (kids c1 p) = 0 \<and> lock_ref (nodes c1 p) = 0
                                 then heappush (entry_rank c1) heap1 (heap_entry c1 p) else heap1)
                    in evict_loop fuel' free num_tokens (record_remove_event c1 x) a1 heap2
                         (num_evicted + int (length v)))))))
      else Inr (num_evicted, c, a))"

definition evict ::
    "('a \<Rightarrow> int list \<Rightarrow> 'a result) \<Rightarrow> radix_cache \<Rightarrow> 'a \<Rightarrow> int \<Rightarrow> (radix_cache \<times> 'a) result" where
  "evict free c a num_tokens =
     (if disable c then Inr (c, a)
      else bind_r (collect_leaves c) (\<lambda>leaves.
           bind_r (evict_loop (counter c) free num_tokens c a
                     (heapify (entry_rank c) (map (heap_entry c) leaves)) 0) (\<lambda>(_, c', a').
             Inr (c', a'))))"

declare match_loop.simps [simp del] insert_loop.simps [simp del] inc_lock_loop.simps [simp del]
  dec_lock_loop.simps [simp del] total_size_loop.simps [simp del] dfs_values.simps [simp del]
  collect_loop.simps [simp del] evict_loop.simps [simp del]

end
