(* ===== verification/Radix_Shape.thy ===== *)
theory Radix_Shape
  imports Radix_Cache
begin

text \<open>
  The radix tree behind the node store: well-formedness, the paths from a node and the token
  sequences they spell, and the three changes of the tree that the operations make (splitting an
  edge, adding a leaf, removing a leaf), with what each keeps.
\<close>

section \<open>Definitions\<close>

text \<open>The part of a node that determines the tree; access times and counters are outside it.\<close>

definition shape_of ::
    "tree_node \<Rightarrow> (child_key \<times> nat) list \<times> nat option \<times> radix_key \<times> int list option \<times> int" where
  "shape_of n = (children n, parent n, key n, node_value n, lock_ref n)"

definition conf :: "radix_cache \<Rightarrow> nat \<times> bool \<times> bool \<times> bool \<times> eviction_strategy \<times> nat" where
  "conf c = (page_size c, disable c, enable_kv_cache_events c, is_eagle c, strategy c, root_node c)"

definition sizes :: "radix_cache \<Rightarrow> int \<times> int" where
  "sizes c = (evictable_size c, protected_size c)"

definition wf_edge :: "radix_cache \<Rightarrow> nat \<Rightarrow> child_key \<Rightarrow> nat \<Rightarrow> bool" where
  "wf_edge c n k m \<longleftrightarrow> n < counter c \<and> m < counter c \<and> m \<noteq> root_node c \<and>
     parent (nodes c m) = Some n \<and> get_child_key (key (nodes c m)) (page_size c) = Inr k \<and>
     toks c m \<noteq> [] \<and> page_size c dvd length (toks c m) \<and>
     (\<exists>v. node_value (nodes c m) = Some v \<and> length v = length (toks c m))"

definition rc_wf :: "radix_cache \<Rightarrow> bool" where
  "rc_wf c \<longleftrightarrow> 0 < page_size c \<and> root_node c < counter c \<and> parent (nodes c (root_node c)) = None \<and>
     node_value (nodes c (root_node c)) = Some [] \<and>
     (\<forall>n. distinct (map fst (kids c n)) \<and> (\<forall>(k, m) \<in> set (kids c n). wf_edge c n k m)) \<and>
     (\<exists>depth :: nat \<Rightarrow> nat. \<forall>n k m. (k, m) \<in> set (kids c n) \<longrightarrow> depth n < depth m)"

text \<open>
  \<open>path c x a b ts vs\<close>: the edges from node \<open>a\<close> down to \<open>b\<close>, all with extra key \<open>x\<close>, spell the
  tokens \<open>ts\<close> and carry the KV indices \<open>vs\<close>. \<open>stored_from c x a ts vs\<close>: some path from \<open>a\<close> starts
  with them; \<open>stored c x ts vs\<close>: a path from the root does. This is the content of the cache.
\<close>

inductive path :: "radix_cache \<Rightarrow> string option \<Rightarrow> nat \<Rightarrow> nat \<Rightarrow> token list \<Rightarrow> int list \<Rightarrow> bool"
  for c x where
  path_nil: "path c x a a [] []"
| path_cons: "(k, m) \<in> set (kids c a) \<Longrightarrow> extra_key (key (nodes c m)) = x \<Longrightarrow>
    node_value (nodes c m) = Some v \<Longrightarrow> path c x m b ts vs \<Longrightarrow>
    path c x a b (toks c m @ ts) (v @ vs)"

definition stored_from ::
    "radix_cache \<Rightarrow> string option \<Rightarrow> nat \<Rightarrow> token list \<Rightarrow> int list \<Rightarrow> bool" where
  "stored_from c x a ts vs \<longleftrightarrow> length vs = length ts \<and>
     (\<exists>b ts' vs'. path c x a b (ts @ ts') (vs @ vs'))"

abbreviation stored :: "radix_cache \<Rightarrow> string option \<Rightarrow> token list \<Rightarrow> int list \<Rightarrow> bool" where
  "stored c x ts vs \<equiv> stored_from c x (root_node c) ts vs"

text \<open>The changes of the tree.\<close>

definition touches :: "radix_cache \<Rightarrow> radix_cache \<Rightarrow> bool" where
  "touches c c' \<longleftrightarrow> conf c' = conf c \<and> sizes c' = sizes c \<and> counter c' = counter c \<and>
     (\<forall>n. shape_of (nodes c' n) = shape_of (nodes c n))"

definition splits :: "radix_cache \<Rightarrow> radix_cache \<Rightarrow> nat \<Rightarrow> child_key \<Rightarrow> nat \<Rightarrow> nat \<Rightarrow> bool" where
  "splits c c' p k ch len \<longleftrightarrow> conf c' = conf c \<and> sizes c' = sizes c \<and> counter c' = Suc (counter c) \<and>
     (k, ch) \<in> set (kids c p) \<and> 0 < len \<and> len < length (toks c ch) \<and> page_size c dvd len \<and>
     (\<exists>rk. get_child_key (key_drop len (key (nodes c ch))) (page_size c) = Inr rk \<and>
       shape_of (nodes c' (counter c)) = ([(rk, ch)], Some p, key_take len (key (nodes c ch)),
          Some (take len (the (node_value (nodes c ch)))), lock_ref (nodes c ch))) \<and>
     shape_of (nodes c' ch) = (kids c ch, Some (counter c), key_drop len (key (nodes c ch)),
        Some (drop len (the (node_value (nodes c ch)))), lock_ref (nodes c ch)) \<and>
     shape_of (nodes c' p) = (AList.update k (counter c) (kids c p), parent (nodes c p),
        key (nodes c p), node_value (nodes c p), lock_ref (nodes c p)) \<and>
     (\<forall>n. n \<notin> {counter c, ch, p} \<longrightarrow> shape_of (nodes c' n) = shape_of (nodes c n))"

definition adds_leaf ::
    "radix_cache \<Rightarrow> radix_cache \<Rightarrow> nat \<Rightarrow> radix_key \<Rightarrow> int list \<Rightarrow> bool" where
  "adds_leaf c c' p k v \<longleftrightarrow> conf c' = conf c \<and> counter c' = Suc (counter c) \<and>
     evictable_size c' = evictable_size c + int (key_len k) \<and> protected_size c' = protected_size c \<and>
     p < counter c \<and> token_ids k \<noteq> [] \<and> page_size c dvd key_len k \<and> length v = key_len k \<and>
     (\<exists>ck. get_child_key k (page_size c) = Inr ck \<and> map_of (kids c p) ck = None \<and>
       shape_of (nodes c' p) = (kids c p @ [(ck, counter c)], parent (nodes c p), key (nodes c p),
          node_value (nodes c p), lock_ref (nodes c p))) \<and>
     shape_of (nodes c' (counter c)) = ([], Some p, k, Some v, 0) \<and>
     (\<forall>n. n \<notin> {counter c, p} \<longrightarrow> shape_of (nodes c' n) = shape_of (nodes c n))"

definition removes_leaf :: "radix_cache \<Rightarrow> radix_cache \<Rightarrow> nat \<Rightarrow> child_key \<Rightarrow> nat \<Rightarrow> bool" where
  "removes_leaf c c' p k x \<longleftrightarrow> conf c' = conf c \<and> counter c' = counter c \<and>
     evictable_size c' = evictable_size c - int (length (toks c x)) \<and>
     protected_size c' = protected_size c \<and> (k, x) \<in> set (kids c p) \<and> kids c x = [] \<and>
     shape_of (nodes c' p) = (AList.delete k (kids c p), parent (nodes c p), key (nodes c p),
        node_value (nodes c p), lock_ref (nodes c p)) \<and>
     (\<forall>n. n \<noteq> p \<longrightarrow> shape_of (nodes c' n) = shape_of (nodes c n))"

text \<open>Matching and the first phase of inserting only touch and split.\<close>

inductive tree_step :: "radix_cache \<Rightarrow> radix_cache \<Rightarrow> bool" where
  step_touch: "touches c c' \<Longrightarrow> tree_step c c'"
| step_split: "splits c c' p k ch len \<Longrightarrow> tree_step c c'"

abbreviation reshapes :: "radix_cache \<Rightarrow> radix_cache \<Rightarrow> bool" where
  "reshapes \<equiv> tree_step\<^sup>*\<^sup>*"

section \<open>Projections\<close>

lemma shape_of_eq:
  "shape_of m = (cs, p, k, v, l) \<longleftrightarrow>
   children m = cs \<and> parent m = p \<and> key m = k \<and> node_value m = v \<and> lock_ref m = l"
  by (simp add: shape_of_def)

lemma shape_of_eqD:
  assumes "shape_of m = shape_of n"
  shows "children m = children n" "parent m = parent n" "key m = key n"
    "node_value m = node_value n" "lock_ref m = lock_ref n"
  using assms by (simp_all add: shape_of_def)

lemma conf_eqD:
  assumes "conf c' = conf c"
  shows "page_size c' = page_size c" "disable c' = disable c" "is_eagle c' = is_eagle c"
    "strategy c' = strategy c" "root_node c' = root_node c"
    "enable_kv_cache_events c' = enable_kv_cache_events c"
  using assms by (simp_all add: conf_def)

lemma rc_wfD:
  assumes "rc_wf c"
  shows "0 < page_size c" "root_node c < counter c" "parent (nodes c (root_node c)) = None"
    "node_value (nodes c (root_node c)) = Some []" "distinct (map fst (kids c n))"
  using assms by (simp_all add: rc_wf_def)

lemma rc_wfI:
  fixes depth :: "nat \<Rightarrow> nat"
  assumes "0 < page_size c" "root_node c < counter c" "parent (nodes c (root_node c)) = None"
    "node_value (nodes c (root_node c)) = Some []" "\<And>n. distinct (map fst (kids c n))"
    "\<And>n k m. (k, m) \<in> set (kids c n) \<Longrightarrow> wf_edge c n k m"
    "\<And>n k m. (k, m) \<in> set (kids c n) \<Longrightarrow> depth n < depth m"
  shows "rc_wf c"
proof -
  have "\<exists>depth :: nat \<Rightarrow> nat. \<forall>n k m. (k, m) \<in> set (kids c n) \<longrightarrow> depth n < depth m"
    using assms(7) by blast
  moreover have "\<forall>n. distinct (map fst (kids c n)) \<and> (\<forall>(k, m) \<in> set (kids c n). wf_edge c n k m)"
    using assms(5,6) by blast
  ultimately show ?thesis using assms(1-4) unfolding rc_wf_def by blast
qed

lemma rc_wf_depth:
  assumes "rc_wf c"
  obtains depth :: "nat \<Rightarrow> nat" where "\<And>n k m. (k, m) \<in> set (kids c n) \<Longrightarrow> depth n < depth m"
  using assms unfolding rc_wf_def by blast

lemma rc_wf_edge: "rc_wf c \<Longrightarrow> (k, m) \<in> set (kids c n) \<Longrightarrow> wf_edge c n k m"
  unfolding rc_wf_def by blast

lemma wf_edgeD:
  assumes "rc_wf c" and "(k, m) \<in> set (kids c n)"
  shows "n < counter c" "m < counter c" "m \<noteq> root_node c" "parent (nodes c m) = Some n"
    "get_child_key (key (nodes c m)) (page_size c) = Inr k" "toks c m \<noteq> []"
    "page_size c dvd length (toks c m)"
    "\<exists>v. node_value (nodes c m) = Some v \<and> length v = length (toks c m)"
  using rc_wf_edge [OF assms] by (simp_all add: wf_edge_def)

lemma wf_edge_unique:
  assumes "rc_wf c" and "(k, m) \<in> set (kids c n)" and "(k', m) \<in> set (kids c n')"
  shows "n' = n" "k' = k"
  using wf_edgeD(4,5) [OF assms(1,2)] wf_edgeD(4,5) [OF assms(1,3)] by simp_all

lemma map_of_kids: "rc_wf c \<Longrightarrow> map_of (kids c n) k = Some m \<longleftrightarrow> (k, m) \<in> set (kids c n)"
  using rc_wfD(5) by (simp add: map_of_eq_Some_iff)

lemma edge_irrefl: "rc_wf c \<Longrightarrow> (k, m) \<in> set (kids c n) \<Longrightarrow> m \<noteq> n"
  unfolding rc_wf_def by (metis less_irrefl)

lemma set_update_distinct:
  assumes "distinct (map fst al)"
  shows "(k', m) \<in> set (AList.update k v al) \<longleftrightarrow> (k' = k \<and> m = v) \<or> (k' \<noteq> k \<and> (k', m) \<in> set al)"
proof -
  have "distinct (map fst (AList.update k v al))" using assms by (rule AList.distinct_update)
  from map_of_eq_Some_iff [OF this, of k' m]
  have "(k', m) \<in> set (AList.update k v al) \<longleftrightarrow> (if k' = k then Some v else map_of al k') = Some m"
    by (simp only: map_of_update_iff)
  then show ?thesis using assms by auto
qed

lemma path_append:
  "path c x a b ts vs \<Longrightarrow> path c x b d ts' vs' \<Longrightarrow> path c x a d (ts @ ts') (vs @ vs')"
proof (induction rule: path.induct)
  case (path_cons k m a v b ts vs)
  then show ?case using path.path_cons [OF path_cons(1-3), of d "ts @ ts'" "vs @ vs'"] by simp
qed simp

lemma path_length: "path c x a b ts vs \<Longrightarrow> rc_wf c \<Longrightarrow> length vs = length ts"
proof (induction rule: path.induct)
  case (path_cons k m a v b ts vs)
  then show ?case using wf_edgeD(8) [OF path_cons.prems path_cons.hyps(1)] by auto
qed simp

lemma path_aligned: "path c x a b ts vs \<Longrightarrow> rc_wf c \<Longrightarrow> page_size c dvd length ts"
  by (induction rule: path.induct) (auto intro: dvd_add wf_edgeD(7))

lemma path_end: "path c x a b ts vs \<Longrightarrow> rc_wf c \<Longrightarrow> a < counter c \<Longrightarrow> b < counter c"
  by (induction rule: path.induct) (auto dest: wf_edgeD(2))

lemma kids_fresh: "rc_wf c \<Longrightarrow> counter c \<le> n \<Longrightarrow> kids c n = []"
  using wf_edgeD(1) by (metis leD list.set_intros(1) neq_Nil_conv surj_pair)

section \<open>Touching\<close>

lemma touches_refl [simp]: "touches c c"
  by (simp add: touches_def)

lemma touchesD:
  assumes "touches c c'"
  shows "kids c' n = kids c n" "parent (nodes c' n) = parent (nodes c n)"
    "key (nodes c' n) = key (nodes c n)" "node_value (nodes c' n) = node_value (nodes c n)"
    "lock_ref (nodes c' n) = lock_ref (nodes c n)" "counter c' = counter c"
    "page_size c' = page_size c" "root_node c' = root_node c"
  using assms shape_of_eqD [of "nodes c' n" "nodes c n"] conf_eqD [of c' c]
  by (simp_all add: touches_def)

lemma touches_wf: "touches c c' \<Longrightarrow> rc_wf c' = rc_wf c"
  by (simp add: rc_wf_def wf_edge_def touchesD)

lemma touches_path_imp: "path c x a b ts vs \<Longrightarrow> touches c c' \<Longrightarrow> path c' x a b ts vs"
proof (induction rule: path.induct)
  case (path_cons k m a v b ts vs)
  then show ?case using path.path_cons [of k m c' a x v b ts vs] by (simp add: touchesD)
qed (rule path_nil)

lemma touches_sym: "touches c c' \<Longrightarrow> touches c' c"
  by (simp add: touches_def)

lemma touches_path: "touches c c' \<Longrightarrow> path c' x a b ts vs = path c x a b ts vs"
  using touches_path_imp touches_sym by blast

section \<open>Splitting an edge\<close>

lemma splitsD:
  assumes "splits c c' p k ch len"
  shows "conf c' = conf c" "sizes c' = sizes c" "counter c' = Suc (counter c)"
    "(k, ch) \<in> set (kids c p)" "0 < len" "len < length (toks c ch)" "page_size c dvd len"
    "page_size c' = page_size c" "root_node c' = root_node c"
  using assms conf_eqD [of c' c] by (auto simp: splits_def)

lemma splits_nodes:
  assumes wf: "rc_wf c" and sp: "splits c c' p k ch len"
  shows "p \<noteq> ch" "p < counter c" "ch < counter c" "ch \<noteq> root_node c"
    "key (nodes c' n) = (if n = counter c then key_take len (key (nodes c ch))
       else if n = ch then key_drop len (key (nodes c ch)) else key (nodes c n))"
    "parent (nodes c' n) = (if n = counter c then Some p
       else if n = ch then Some (counter c) else parent (nodes c n))"
    "node_value (nodes c' n) = (if n = counter c then Some (take len (the (node_value (nodes c ch))))
       else if n = ch then Some (drop len (the (node_value (nodes c ch)))) else node_value (nodes c n))"
    "lock_ref (nodes c' n) = (if n = counter c then lock_ref (nodes c ch) else lock_ref (nodes c n))"
proof -
  note e = wf_edgeD [OF wf splitsD(4) [OF sp]]
  show p: "p \<noteq> ch" using edge_irrefl [OF wf splitsD(4) [OF sp]] by simp
  show "p < counter c" "ch < counter c" "ch \<noteq> root_node c" using e by simp_all
  then have "p \<noteq> counter c" "ch \<noteq> counter c" by simp_all
  with p sp shape_of_eqD [of "nodes c' n" "nodes c n"] show
    "key (nodes c' n) = (if n = counter c then key_take len (key (nodes c ch))
       else if n = ch then key_drop len (key (nodes c ch)) else key (nodes c n))"
    "parent (nodes c' n) = (if n = counter c then Some p
       else if n = ch then Some (counter c) else parent (nodes c n))"
    "node_value (nodes c' n) = (if n = counter c then Some (take len (the (node_value (nodes c ch))))
       else if n = ch then Some (drop len (the (node_value (nodes c ch)))) else node_value (nodes c n))"
    "lock_ref (nodes c' n) = (if n = counter c then lock_ref (nodes c ch) else lock_ref (nodes c n))"
    by (auto simp: splits_def shape_of_eq)
qed

lemma splits_kids:
  assumes wf: "rc_wf c" and sp: "splits c c' p k ch len"
  shows "(k0, m) \<in> set (kids c' n) \<longleftrightarrow>
    (n = counter c \<and> m = ch \<and> get_child_key (key_drop len (key (nodes c ch))) (page_size c) = Inr k0) \<or>
    (n = p \<and> k0 = k \<and> m = counter c) \<or> ((k0, m) \<in> set (kids c n) \<and> m \<noteq> ch)"
    and "distinct (map fst (kids c' n))"
proof -
  note sn = splits_nodes(1-4) [OF wf sp] and edge = splitsD(4) [OF sp]
  have new: "kids c (counter c) = []" using kids_fresh [OF wf] by simp
  have uni: "(k0, ch) \<in> set (kids c n) \<longleftrightarrow> n = p \<and> k0 = k" for k0 n
    using wf_edge_unique [OF wf edge] edge by blast
  have kp: "(k, m) \<in> set (kids c p) \<longleftrightarrow> m = ch" for m
    using edge map_of_eq_Some_iff [OF rc_wfD(5) [OF wf, of p], of k] by (metis option.inject)
  obtain rk where rk: "get_child_key (key_drop len (key (nodes c ch))) (page_size c) = Inr rk"
    and k1: "kids c' (counter c) = [(rk, ch)]" and k2: "kids c' ch = kids c ch"
    and k3: "kids c' p = AList.update k (counter c) (kids c p)"
    and k4: "n \<notin> {counter c, ch, p} \<Longrightarrow> kids c' n = kids c n" for n
    using sp by (auto simp: splits_def shape_of_eq intro: shape_of_eqD(1))
  consider "n = counter c" | "n = ch" | "n = p" | "n \<notin> {counter c, ch, p}" by blast
  then show "(k0, m) \<in> set (kids c' n) \<longleftrightarrow>
    (n = counter c \<and> m = ch \<and> get_child_key (key_drop len (key (nodes c ch))) (page_size c) = Inr k0) \<or>
    (n = p \<and> k0 = k \<and> m = counter c) \<or> ((k0, m) \<in> set (kids c n) \<and> m \<noteq> ch)"
  proof cases
    case 3
    then show ?thesis
      using sn uni [of k0 p] kp [of m] by (auto simp: k3 set_update_distinct [OF rc_wfD(5) [OF wf]])
  qed (use sn uni [of k0 n] new rk in \<open>auto simp: k1 k2 k4\<close>)
  have "distinct (map fst (AList.update k (counter c) (kids c p)))"
    using rc_wfD(5) [OF wf] by (rule AList.distinct_update)
  then show "distinct (map fst (kids c' n))"
    using k1 k2 k3 k4 [of n] rc_wfD(5) [OF wf, of n]
    by (cases "n = counter c"; cases "n = ch"; cases "n = p") simp_all
qed

lemma splits_wf:
  assumes wf: "rc_wf c" and sp: "splits c c' p k ch len"
  shows "rc_wf c'"
proof -
  note sn = splits_nodes [OF wf sp] and sk = splits_kids [OF wf sp] and d = splitsD [OF sp]
  note e = wf_edgeD [OF wf d(4)]
  obtain v where v: "node_value (nodes c ch) = Some v" "length v = length (toks c ch)" using e(8) by blast
  have edges: "wf_edge c' n k0 m" if "(k0, m) \<in> set (kids c' n)" for n k0 m
    using that unfolding sk(1)
  proof (elim disjE conjE)
    assume "n = counter c" "m = ch" "get_child_key (key_drop len (key (nodes c ch))) (page_size c) = Inr k0"
    then show ?thesis using d e sn v by (simp add: wf_edge_def dvd_diff_nat)
  next
    assume "n = p" "k0 = k" "m = counter c"
    moreover have "get_child_key (key_take len (key (nodes c ch))) (page_size c) = Inr k"
      using get_child_key_take [OF rc_wfD(1) [OF wf] d(7,5)] e(5) by simp
    ultimately show ?thesis using d e sn v rc_wfD(2) [OF wf] by (simp add: wf_edge_def)
  next
    assume m: "(k0, m) \<in> set (kids c n)" "m \<noteq> ch"
    note em = wf_edgeD [OF wf m(1)]
    then have "m \<noteq> counter c" "n \<noteq> counter c" by simp_all
    with em m(2) d sn show ?thesis by (simp add: wf_edge_def)
  qed
  obtain depth :: "nat \<Rightarrow> nat" where depth: "\<And>n k m. (k, m) \<in> set (kids c n) \<Longrightarrow> depth n < depth m"
    using rc_wf_depth [OF wf] by blast
  define depth' where "depth' = (\<lambda>n. if n = counter c then 2 * depth ch - 1 else 2 * depth n)"
  have dep: "depth' n < depth' m" if "(k0, m) \<in> set (kids c' n)" for n k0 m
    using that unfolding sk(1)
  proof (elim disjE conjE)
    assume m: "(k0, m) \<in> set (kids c n)" "m \<noteq> ch"
    then show ?thesis using depth [OF m(1)] wf_edgeD(1,2) [OF wf m(1)] by (auto simp: depth'_def)
  qed (use depth [OF d(4)] sn(2,3) in \<open>auto simp: depth'_def\<close>)
  show ?thesis
    by (rule rc_wfI [OF _ _ _ _ sk(2) edges dep]) (use d rc_wfD(1-4) [OF wf] sn in simp_all)
qed

lemma splits_path:
  assumes wf: "rc_wf c" and sp: "splits c c' p k ch len"
  shows "path c x a b ts vs \<Longrightarrow> path c' x a b ts vs"
proof (induction rule: path.induct)
  case (path_cons k0 m a v b ts vs)
  note sn = splits_nodes [OF wf sp] and sk = splits_kids(1) [OF wf sp] and d = splitsD [OF sp]
  have m: "m < counter c" using wf_edgeD(2) [OF wf path_cons.hyps(1)] .
  show ?case
  proof (cases "m = ch")
    case True
    with wf_edge_unique [OF wf d(4)] path_cons.hyps(1) have a: "a = p" "k0 = k" by blast+
    obtain rk where rk: "(rk, ch) \<in> set (kids c' (counter c))"
      using sp sk by (auto simp: splits_def)
    from path.path_cons [OF rk _ _ path_cons.IH [unfolded True]] path_cons.hyps(2,3) True sn m
    have "path c' x (counter c) b (drop len (toks c ch) @ ts) (drop len v @ vs)" by simp
    moreover have "(k, counter c) \<in> set (kids c' p)" using sk by blast
    ultimately have "path c' x p b (toks c' (counter c) @ drop len (toks c ch) @ ts)
        (take len v @ drop len v @ vs)"
      using path_cons.hyps(2,3) True sn by (intro path.path_cons) simp_all
    then show ?thesis using a True sn by (simp flip: append_assoc)
  next
    case False
    with sk path_cons.hyps(1) have "(k0, m) \<in> set (kids c' a)" by blast
    from path.path_cons [OF this _ _ path_cons.IH] path_cons.hyps(2,3) False sn m
    show ?thesis by simp
  qed
qed (rule path_nil)

text \<open>
  Backwards, a path of the split tree is a prefix of a path of the old one: it may end at the new
  node, in the middle of the old edge.
\<close>

lemma splits_path_back:
  assumes wf: "rc_wf c" and sp: "splits c c' p k ch len"
    and v: "node_value (nodes c ch) = Some v" and pt: "path c' x a b ts vs"
  shows "if a = counter c
    then (ts = [] \<and> vs = []) \<or> (extra_key (key (nodes c ch)) = x \<and> (\<exists>d ts1 vs1 ts2 vs2.
      ts = drop len (toks c ch) @ ts1 \<and> vs = drop len v @ vs1 \<and> path c x ch d (ts1 @ ts2) (vs1 @ vs2)))
    else \<exists>d ts2 vs2. path c x a d (ts @ ts2) (vs @ vs2)"
  using pt
proof (induction rule: path.induct)
  case (path_nil a)
  then show ?case using path.path_nil [of c x a] by auto
next
  case (path_cons k0 m a w b ts vs)
  note sn = splits_nodes [OF wf sp] and d = splitsD [OF sp]
  from path_cons.hyps(1) consider
      (new) "a = counter c" "m = ch" | (up) "a = p" "m = counter c"
    | (old) "(k0, m) \<in> set (kids c a)" "m \<noteq> ch"
    unfolding splits_kids(1) [OF wf sp] by blast
  then show ?case
  proof cases
    case new
    then show ?thesis using path_cons sn(3,5,7) v by (auto split: if_splits)
  next
    case up
    have w: "w = take len v" "toks c' m = take len (toks c ch)" "extra_key (key (nodes c ch)) = x"
      using path_cons.hyps(2,3) up sn(5,7) v by auto
    have ap: "a \<noteq> counter c" using up sn(2) by simp
    from path_cons.IH up(2) consider "ts = []" "vs = []" | d ts1 vs1 ts2 vs2 where
        "ts = drop len (toks c ch) @ ts1" "vs = drop len v @ vs1" "path c x ch d (ts1 @ ts2) (vs1 @ vs2)"
      by auto
    then obtain e ts1 vs1 ts2 vs2 where e: "path c x ch e ts1 vs1"
      "drop len (toks c ch) @ ts1 = ts @ ts2" "drop len v @ vs1 = vs @ vs2"
      by cases (use path.path_nil [of c x ch] in \<open>fastforce+\<close>)
    have "path c x p e (toks c ch @ ts1) (v @ vs1)"
      using path.path_cons [OF d(4) w(3) v e(1)] .
    also have "toks c ch @ ts1 = take len (toks c ch) @ ts @ ts2"
      unfolding e(2) [symmetric] by simp
    also have "v @ vs1 = take len v @ vs @ vs2" unfolding e(3) [symmetric] by simp
    finally show ?thesis using ap up w by auto
  next
    case old
    then have "a \<noteq> counter c" "m \<noteq> counter c" using wf_edgeD(1,2) [OF wf old(1)] by auto
    moreover from path_cons.IH this obtain e ts2 vs2 where "path c x m e (ts @ ts2) (vs @ vs2)"
      by (auto split: if_splits)
    ultimately show ?thesis
      using path.path_cons [OF old(1), of x w e "ts @ ts2" "vs @ vs2"] path_cons.hyps(2,3) old(2) sn
      by auto
  qed
qed

lemma splits_stored_from:
  assumes "rc_wf c" and "splits c c' p k ch len" and "a < counter c"
  shows "stored_from c' x a ts vs \<longleftrightarrow> stored_from c x a ts vs"
proof
  obtain v where v: "node_value (nodes c ch) = Some v"
    using wf_edgeD(8) [OF assms(1) splitsD(4) [OF assms(2)]] by blast
  assume "stored_from c' x a ts vs"
  then obtain b ts' vs' where "length vs = length ts" "path c' x a b (ts @ ts') (vs @ vs')"
    by (auto simp: stored_from_def)
  with splits_path_back [OF assms(1,2) v] assms(3) show "stored_from c x a ts vs"
    by (auto simp: stored_from_def split: if_splits) (metis append_assoc less_irrefl)
next
  assume "stored_from c x a ts vs"
  then show "stored_from c' x a ts vs"
    using splits_path [OF assms(1,2)] unfolding stored_from_def by blast
qed

section \<open>Touching and splitting in sequence\<close>

lemma tree_step_wf: "tree_step c c' \<Longrightarrow> rc_wf c \<Longrightarrow> rc_wf c'"
  by (induction rule: tree_step.induct) (auto simp: touches_wf splits_wf)

lemma tree_step_conf: "tree_step c c' \<Longrightarrow> conf c' = conf c \<and> sizes c' = sizes c"
  by (induction rule: tree_step.induct) (auto simp: touches_def splitsD)

lemma tree_step_counter: "tree_step c c' \<Longrightarrow> counter c \<le> counter c'"
  by (induction rule: tree_step.induct) (auto simp: touches_def splitsD)

lemma tree_step_path: "tree_step c c' \<Longrightarrow> rc_wf c \<Longrightarrow> path c x a b ts vs \<Longrightarrow> path c' x a b ts vs"
  by (induction rule: tree_step.induct) (auto simp: touches_path splits_path)

lemma tree_step_stored_from:
  "tree_step c c' \<Longrightarrow> rc_wf c \<Longrightarrow> a < counter c \<Longrightarrow> stored_from c' x a ts vs \<longleftrightarrow> stored_from c x a ts vs"
proof (induction rule: tree_step.induct)
  case (step_touch c c')
  then show ?case by (simp add: stored_from_def touches_path)
next
  case (step_split c c' p k ch len)
  then show ?case using splits_stored_from by blast
qed

lemma reshapes_conf: "reshapes c c' \<Longrightarrow> conf c' = conf c \<and> sizes c' = sizes c"
  by (induction rule: rtranclp_induct) (auto simp: tree_step_conf)

lemma reshapes_wf: "reshapes c c' \<Longrightarrow> rc_wf c \<Longrightarrow> rc_wf c'"
  by (induction rule: rtranclp_induct) (auto intro: tree_step_wf)

lemma reshapes_counter: "reshapes c c' \<Longrightarrow> counter c \<le> counter c'"
  by (induction rule: rtranclp_induct) (auto dest: tree_step_counter)

lemma reshapes_path: "reshapes c c' \<Longrightarrow> rc_wf c \<Longrightarrow> path c x a b ts vs \<Longrightarrow> path c' x a b ts vs"
proof (induction rule: rtranclp_induct)
  case (step c1 c2)
  then show ?case using tree_step_path [OF step.hyps(2) reshapes_wf [OF step.hyps(1)]] by simp
qed simp

lemma reshapes_stored_from:
  "reshapes c c' \<Longrightarrow> rc_wf c \<Longrightarrow> a < counter c \<Longrightarrow> stored_from c' x a ts vs \<longleftrightarrow> stored_from c x a ts vs"
proof (induction rule: rtranclp_induct)
  case (step c1 c2)
  have "a < counter c1" using step.prems(2) reshapes_counter [OF step.hyps(1)] by simp
  then show ?case
    using tree_step_stored_from [OF step.hyps(2) reshapes_wf [OF step.hyps(1) step.prems(1)]] step by simp
qed simp

section \<open>Adding a leaf\<close>

lemma adds_leafD:
  assumes "adds_leaf c c' p k v"
  shows "conf c' = conf c" "counter c' = Suc (counter c)" "p < counter c" "token_ids k \<noteq> []"
    "page_size c dvd key_len k" "length v = key_len k" "page_size c' = page_size c"
    "root_node c' = root_node c" "protected_size c' = protected_size c"
    "evictable_size c' = evictable_size c + int (key_len k)"
  using assms conf_eqD [of c' c] by (auto simp: adds_leaf_def)

lemma adds_leaf_nodes:
  assumes ad: "adds_leaf c c' p k v"
  shows "key (nodes c' n) = (if n = counter c then k else key (nodes c n))"
    "parent (nodes c' n) = (if n = counter c then Some p else parent (nodes c n))"
    "node_value (nodes c' n) = (if n = counter c then Some v else node_value (nodes c n))"
    "lock_ref (nodes c' n) = (if n = counter c then 0 else lock_ref (nodes c n))"
  using ad shape_of_eqD [of "nodes c' n" "nodes c n"]
  by (cases "n = counter c"; cases "n = p"; auto simp: adds_leaf_def shape_of_eq)+

lemma adds_leaf_kids:
  assumes wf: "rc_wf c" and ad: "adds_leaf c c' p k v"
  shows "(k0, m) \<in> set (kids c' n) \<longleftrightarrow> (k0, m) \<in> set (kids c n) \<or>
      (n = p \<and> m = counter c \<and> get_child_key k (page_size c) = Inr k0)"
    and "distinct (map fst (kids c' n))"
proof -
  obtain ck where ck: "get_child_key k (page_size c) = Inr ck" "map_of (kids c p) ck = None"
    and kp: "kids c' p = kids c p @ [(ck, counter c)]" and kn: "kids c' (counter c) = []"
    and ko: "n \<notin> {counter c, p} \<Longrightarrow> kids c' n = kids c n" for n
    using ad by (auto simp: adds_leaf_def shape_of_eq intro: shape_of_eqD(1))
  have new: "kids c (counter c) = []" using kids_fresh [OF wf] by simp
  have np: "p \<noteq> counter c" using adds_leafD(3) [OF ad] by simp
  consider "n = counter c" | "n = p" | "n \<notin> {counter c, p}" by blast
  then show "(k0, m) \<in> set (kids c' n) \<longleftrightarrow> (k0, m) \<in> set (kids c n) \<or>
      (n = p \<and> m = counter c \<and> get_child_key k (page_size c) = Inr k0)"
    by cases (use kp kn ko new ck np in auto)
  show "distinct (map fst (kids c' n))"
    using kp kn ko [of n] rc_wfD(5) [OF wf, of n] ck(2)
    by (cases "n = counter c"; cases "n = p") (auto simp: map_of_eq_None_iff)
qed

lemma adds_leaf_wf:
  assumes wf: "rc_wf c" and ad: "adds_leaf c c' p k v"
  shows "rc_wf c'"
proof -
  note an = adds_leaf_nodes [OF ad] and ak = adds_leaf_kids [OF wf ad] and d = adds_leafD [OF ad]
  have edges: "wf_edge c' n k0 m" if "(k0, m) \<in> set (kids c' n)" for n k0 m
    using that unfolding ak(1)
  proof (elim disjE conjE)
    assume m: "(k0, m) \<in> set (kids c n)"
    then show ?thesis using wf_edgeD [OF wf m] d an by (simp add: wf_edge_def)
  next
    assume "n = p" "m = counter c" "get_child_key k (page_size c) = Inr k0"
    then show ?thesis using d an rc_wfD(2) [OF wf] by (simp add: wf_edge_def)
  qed
  obtain depth :: "nat \<Rightarrow> nat" where depth: "\<And>n k m. (k, m) \<in> set (kids c n) \<Longrightarrow> depth n < depth m"
    using rc_wf_depth [OF wf] by blast
  define depth' where "depth' = depth(counter c := Suc (depth p))"
  have dep: "depth' n < depth' m" if "(k0, m) \<in> set (kids c' n)" for n k0 m
    using that unfolding ak(1)
  proof (elim disjE conjE)
    assume m: "(k0, m) \<in> set (kids c n)"
    then show ?thesis using depth [OF m] wf_edgeD(1,2) [OF wf m] by (auto simp: depth'_def)
  qed (use d(3) in \<open>auto simp: depth'_def\<close>)
  show ?thesis
    by (rule rc_wfI [OF _ _ _ _ ak(2) edges dep]) (use d rc_wfD(1-4) [OF wf] an in simp_all)
qed

lemma adds_leaf_path:
  assumes wf: "rc_wf c" and ad: "adds_leaf c c' p k v"
  shows "path c x a b ts vs \<Longrightarrow> path c' x a b ts vs"
proof (induction rule: path.induct)
  case (path_cons k0 m a w b ts vs)
  have "m < counter c" using wf_edgeD(2) [OF wf path_cons.hyps(1)] .
  with path.path_cons [of k0 m c' a x w b ts vs] path_cons adds_leaf_kids(1) [OF wf ad]
    adds_leaf_nodes [OF ad]
  show ?case by simp
qed (rule path_nil)

lemma adds_leaf_path_back:
  assumes wf: "rc_wf c" and ad: "adds_leaf c c' p k v"
  shows "path c' x a b ts vs \<Longrightarrow> if a = counter c then ts = [] \<and> vs = []
    else path c x a b ts vs \<or> (extra_key k = x \<and>
      (\<exists>ts1 vs1. path c x a p ts1 vs1 \<and> ts = ts1 @ token_ids k \<and> vs = vs1 @ v))"
proof (induction rule: path.induct)
  case (path_nil a)
  then show ?case by (simp add: path.path_nil)
next
  case (path_cons k0 m a w b ts vs)
  note an = adds_leaf_nodes [OF ad]
  from path_cons.hyps(1) consider (old) "(k0, m) \<in> set (kids c a)" | (new) "a = p" "m = counter c"
    unfolding adds_leaf_kids(1) [OF wf ad] by blast
  then show ?case
  proof cases
    case old
    then have am: "a \<noteq> counter c" "m \<noteq> counter c" using wf_edgeD(1,2) [OF wf old] by auto
    then have km: "extra_key (key (nodes c m)) = x" "node_value (nodes c m) = Some w"
      "toks c' m = toks c m" using path_cons.hyps(2,3) an by auto
    note step = path.path_cons [OF old km(1,2)]
    from path_cons.IH am(2) consider "path c x m b ts vs"
      | ts1 vs1 where "extra_key k = x" "path c x m p ts1 vs1" "ts = ts1 @ token_ids k" "vs = vs1 @ v"
      by auto
    then show ?thesis
    proof cases
      case 1
      then show ?thesis using step [OF 1] am(1) km(3) by simp
    next
      case 2
      from step [OF 2(2)] 2 am(1) km(3) show ?thesis by (metis append_assoc)
    qed
  next
    case new
    then have "a \<noteq> counter c" using adds_leafD(3) [OF ad] by simp
    moreover have "ts = []" "vs = []" using path_cons.IH new(2) by auto
    moreover have "extra_key k = x" "w = v" using path_cons.hyps(2,3) new an by auto
    ultimately show ?thesis using new an path.path_nil [of c x p] by force
  qed
qed

section \<open>Removing a leaf\<close>

lemma removes_leafD:
  assumes "removes_leaf c c' p k x"
  shows "conf c' = conf c" "counter c' = counter c" "(k, x) \<in> set (kids c p)" "kids c x = []"
    "page_size c' = page_size c" "root_node c' = root_node c" "protected_size c' = protected_size c"
    "evictable_size c' = evictable_size c - int (length (toks c x))"
  using assms conf_eqD [of c' c] by (auto simp: removes_leaf_def)

lemma removes_leaf_nodes:
  assumes rl: "removes_leaf c c' p k x"
  shows "key (nodes c' n) = key (nodes c n)" "parent (nodes c' n) = parent (nodes c n)"
    "node_value (nodes c' n) = node_value (nodes c n)" "lock_ref (nodes c' n) = lock_ref (nodes c n)"
  using rl shape_of_eqD [of "nodes c' n" "nodes c n"]
  by (cases "n = p"; auto simp: removes_leaf_def shape_of_eq)+

lemma removes_leaf_kids:
  assumes wf: "rc_wf c" and rl: "removes_leaf c c' p k x"
  shows "(k0, m) \<in> set (kids c' n) \<longleftrightarrow> (k0, m) \<in> set (kids c n) \<and> m \<noteq> x"
    and "distinct (map fst (kids c' n))"
proof -
  note edge = removes_leafD(3) [OF rl]
  have uni: "(k0, x) \<in> set (kids c n) \<longleftrightarrow> n = p \<and> k0 = k" for k0 n
    using wf_edge_unique [OF wf edge] edge by blast
  have kp: "(k, m) \<in> set (kids c p) \<longleftrightarrow> m = x" for m
    using edge map_of_eq_Some_iff [OF rc_wfD(5) [OF wf, of p], of k] by (metis option.inject)
  have k1: "kids c' p = AList.delete k (kids c p)" and k2: "n \<noteq> p \<Longrightarrow> kids c' n = kids c n" for n
    using rl by (auto simp: removes_leaf_def shape_of_eq intro: shape_of_eqD(1))
  show "(k0, m) \<in> set (kids c' n) \<longleftrightarrow> (k0, m) \<in> set (kids c n) \<and> m \<noteq> x"
    using uni [of k0 n] kp [of m] k2 [of n]
    by (cases "n = p") (auto simp: k1 AList.delete_eq)
  show "distinct (map fst (kids c' n))"
    using rc_wfD(5) [OF wf, of n] k2 [of n] by (cases "n = p") (simp_all add: k1 AList.distinct_delete)
qed

lemma removes_leaf_wf:
  assumes wf: "rc_wf c" and rl: "removes_leaf c c' p k x"
  shows "rc_wf c'"
proof -
  note rn = removes_leaf_nodes [OF rl] and rk = removes_leaf_kids [OF wf rl] and d = removes_leafD [OF rl]
  have edges: "wf_edge c' n k0 m" if "(k0, m) \<in> set (kids c' n)" for n k0 m
    using that wf_edgeD [OF wf, of k0 m n] d rn unfolding rk(1) by (simp add: wf_edge_def)
  obtain depth :: "nat \<Rightarrow> nat" where depth: "\<And>n k m. (k, m) \<in> set (kids c n) \<Longrightarrow> depth n < depth m"
    using rc_wf_depth [OF wf] by blast
  have dep: "depth n < depth m" if "(k0, m) \<in> set (kids c' n)" for n k0 m
    using that depth [of k0 m n] unfolding rk(1) by simp
  show ?thesis
    by (rule rc_wfI [OF _ _ _ _ rk(2) edges dep]) (use d rc_wfD(1-4) [OF wf] rn in simp_all)
qed

lemma removes_leaf_path:
  assumes wf: "rc_wf c" and rl: "removes_leaf c c' p k n"
  shows "path c' x a b ts vs \<Longrightarrow> path c x a b ts vs"
    and "path c x a b ts vs \<Longrightarrow> b \<noteq> n \<Longrightarrow> path c' x a b ts vs"
proof -
  note rk = removes_leaf_kids(1) [OF wf rl] and rn = removes_leaf_nodes [OF rl]
  show "path c' x a b ts vs \<Longrightarrow> path c x a b ts vs"
  proof (induction rule: path.induct)
    case (path_cons k0 m a w b ts vs)
    then show ?case using path.path_cons [of k0 m c a x w b ts vs] rk rn by simp
  qed (rule path_nil)
  show "path c x a b ts vs \<Longrightarrow> b \<noteq> n \<Longrightarrow> path c' x a b ts vs"
  proof (induction rule: path.induct)
    case (path_cons k0 m a w b ts vs)
    have "m \<noteq> n"
    proof
      assume "m = n"
      with path_cons.hyps(4) removes_leafD(4) [OF rl] path_cons.prems show False
        by (auto elim: path.cases)
    qed
    then show ?case using path.path_cons [of k0 m c' a x w b ts vs] path_cons rk rn by simp
  qed (rule path_nil)
qed

end
