(* ===== verification/Radix_Match.thy ===== *)
theory Radix_Match
  imports Radix_Shape
begin

text \<open>
  Matching and inserting in the radix cache: \<open>match_prefix\<close> returns the KV indices of the longest
  cached page-aligned prefix and leaves the content unchanged; \<open>insert\<close> adds exactly the inserted
  sequence; a later match finds what was inserted.
\<close>

section \<open>The longest match\<close>

text \<open>The tokens of a key as the cache sees them: converted to bigrams for EAGLE, whole pages only.\<close>

definition cache_tokens :: "radix_cache \<Rightarrow> radix_key \<Rightarrow> token list" where
  "cache_tokens c k = (let ts = key_convert_fn c (token_ids k)
     in take (length ts div page_size c * page_size c) ts)"

definition longest_match ::
    "radix_cache \<Rightarrow> string option \<Rightarrow> nat \<Rightarrow> token list \<Rightarrow> int list \<Rightarrow> bool" where
  "longest_match c x a ts vs \<longleftrightarrow> length vs \<le> length ts \<and> page_size c dvd length vs \<and>
     stored_from c x a (take (length vs) ts) vs \<and>
     (\<forall>m us. m \<le> length ts \<longrightarrow> page_size c dvd m \<longrightarrow> stored_from c x a (take m ts) us \<longrightarrow> m \<le> length vs)"

section \<open>The operations change the tree as described\<close>

lemma record_events_simps [simp, radix_simps]:
  "nodes (record_store_event c n) = nodes c" "counter (record_store_event c n) = counter c"
  "conf (record_store_event c n) = conf c" "sizes (record_store_event c n) = sizes c"
  "nodes (record_remove_event c n) = nodes c" "counter (record_remove_event c n) = counter c"
  "conf (record_remove_event c n) = conf c" "sizes (record_remove_event c n) = sizes c"
  "page_size (record_remove_event c n) = page_size c"
  "evictable_size (record_store_event c n) = evictable_size c"
  "protected_size (record_store_event c n) = protected_size c"
  by (simp_all add: record_store_event_def record_remove_event_def conf_def sizes_def Let_def)

lemma upd_node_simps [simp, radix_simps]:
  "nodes (upd_node c n f) = (nodes c)(n := f (nodes c n))" "counter (upd_node c n f) = counter c"
  "conf (upd_node c n f) = conf c" "sizes (upd_node c n f) = sizes c"
  "page_size (upd_node c n f) = page_size c" "root_node (upd_node c n f) = root_node c"
  "evictable_size (upd_node c n f) = evictable_size c" "disable (upd_node c n f) = disable c"
  "protected_size (upd_node c n f) = protected_size c" "strategy (upd_node c n f) = strategy c"
  by (simp_all add: upd_node_def conf_def sizes_def)

lemma conf_sizes_update [simp, radix_simps]:
  "conf (c\<lparr>evictable_size := e\<rparr>) = conf c" "conf (c\<lparr>protected_size := p\<rparr>) = conf c"
  by (simp_all add: conf_def)

lemma touches_access: "touches c (touch c n t)"
  by (simp add: touch_def touches_def shape_of_def)

lemma touches_reads: "touches c (c\<lparr>reads := r\<rparr>)"
  by (simp add: touches_def conf_def sizes_def)

lemma touches_trans: "touches c c1 \<Longrightarrow> touches c1 c2 \<Longrightarrow> touches c c2"
  by (simp add: touches_def)

lemma split_node_splits:
  assumes wf: "rc_wf c" and edge: "(k, ch) \<in> set (kids c p)"
    and len: "0 < len" "len < length (toks c ch)" "page_size c dvd len"
  shows "\<exists>c'. split_node c (key (nodes c ch)) ch len = Inr (counter c, c') \<and> splits c c' p k ch len"
proof -
  note e = wf_edgeD [OF wf edge]
  obtain v where v: "node_value (nodes c ch) = Some v" using e(8) by blast
  obtain rk where rk: "get_child_key (key_drop len (key (nodes c ch))) (page_size c) = Inr rk"
    using get_child_key_ok [of "key_drop len (key (nodes c ch))" "page_size c"] len(2) by auto
  have ne: "ch \<noteq> counter c" "p \<noteq> counter c" "ch \<noteq> p" using e(1,2) edge_irrefl [OF wf edge] by auto
  obtain c1 where c1: "new_tree_node (record_remove_event c ch) = (counter c, c1)"
    and n1: "\<And>n. n \<noteq> counter c \<Longrightarrow> nodes c1 n = nodes c n" and k1: "counter c1 = Suc (counter c)"
    "conf c1 = conf c" "sizes c1 = sizes c"
    using ne by (simp add: new_tree_node_def conf_def sizes_def record_remove_event_def)
  show ?thesis
    using rk v e(4,5) ne edge len n1 k1
    by (simp add: split_node_def c1 get_value_def splits_def shape_of_def Let_def)
qed

section \<open>Descending one edge\<close>

lemma stored_from_nil [simp]: "stored_from c x a [] vs \<longleftrightarrow> vs = []"
  unfolding stored_from_def using path.path_nil [of c x a] by fastforce

lemma path_head:
  assumes wf: "rc_wf c" and pt: "path c x a b (take m K @ ts') (us @ vs')"
    and m: "page_size c dvd m" "0 < m" "m \<le> length K" "length us = m"
    and ck: "get_child_key \<lparr>token_ids = K, extra_key = x\<rparr> (page_size c) = Inr ck"
  obtains ch v ts1 vs1 where "map_of (kids c a) ck = Some ch" "extra_key (key (nodes c ch)) = x"
    "node_value (nodes c ch) = Some v" "length v = length (toks c ch)" "path c x ch b ts1 vs1"
    "toks c ch @ ts1 = take m K @ ts'" "v @ vs1 = us @ vs'"
  using pt
proof (cases rule: path.cases)
  case path_nil
  then show thesis using m by auto
next
  case (path_cons k0 ch v ts1 vs1)
  note e = wf_edgeD [OF wf path_cons(3)]
  have ps: "0 < page_size c" using rc_wfD(1) [OF wf] .
  have "K \<noteq> []" using m by auto
  have pm: "page_size c \<le> m" "page_size c \<le> length (toks c ch)"
    using aligned_page_le m e(6,7) by auto
  have "take (page_size c) (toks c ch) = take (page_size c) (toks c ch @ ts1)" using pm(2) by simp
  also have "\<dots> = take (page_size c) (take m K @ ts')" using path_cons(1) by simp
  also have "\<dots> = take (page_size c) K" using pm(1) m(3) by simp
  finally have "get_child_key (key (nodes c ch)) (page_size c)
      = get_child_key \<lparr>token_ids = K, extra_key = x\<rparr> (page_size c)"
    using get_child_key_eq_iff [OF ps, of "key (nodes c ch)" "\<lparr>token_ids = K, extra_key = x\<rparr>"]
      e(6) path_cons(4) \<open>K \<noteq> []\<close> by auto
  then have "k0 = ck" using e(5) ck by simp
  then have "map_of (kids c a) ck = Some ch" using path_cons(3) map_of_kids [OF wf] by blast
  moreover have "length v = length (toks c ch)" using e(8) path_cons(5) by auto
  ultimately show thesis using that path_cons by metis
qed

lemma longest_match_none:
  assumes "rc_wf c" and "K = [] \<or> (\<exists>ck. get_child_key \<lparr>token_ids = K, extra_key = x\<rparr> (page_size c) = Inr ck
      \<and> map_of (kids c a) ck = None)"
  shows "longest_match c x a K []"
proof -
  have "m \<le> 0" if m: "m \<le> length K" "page_size c dvd m" "stored_from c x a (take m K) us" for m us
  proof (rule ccontr)
    assume "\<not> m \<le> 0"
    then have m0: "0 < m" "K \<noteq> []" using m(1) by auto
    with assms(2) obtain ck where ck: "get_child_key \<lparr>token_ids = K, extra_key = x\<rparr> (page_size c) = Inr ck"
      "map_of (kids c a) ck = None" by blast
    obtain b ts' vs' where us: "length us = m" "path c x a b (take m K @ ts') (us @ vs')"
      using m(1,3) by (auto simp: stored_from_def)
    from path_head [OF assms(1) us(2) m(2) m0(1) m(1) us(1) ck(1)] ck(2) show False
      by (metis option.distinct(1))
  qed
  then show ?thesis by (auto simp: longest_match_def)
qed

lemma longest_match_partial:
  assumes wf: "rc_wf c" and edge: "(ck, ch) \<in> set (kids c a)"
    and ck: "get_child_key \<lparr>token_ids = K, extra_key = x\<rparr> (page_size c) = Inr ck"
    and ch: "extra_key (key (nodes c ch)) = x" "node_value (nodes c ch) = Some v"
    and n: "n < length (toks c ch)" "n \<le> length K" "page_size c dvd n" "page_size c dvd length K"
      "take n (toks c ch) = take n K"
    and max: "n < length K \<Longrightarrow> take (page_size c) (drop n (toks c ch)) \<noteq> take (page_size c) (drop n K)"
  shows "longest_match c x a K (take n v)"
proof -
  note e = wf_edgeD [OF wf edge]
  have lv: "length v = length (toks c ch)" using e(8) ch(2) by auto
  have "path c x a ch (toks c ch @ []) (v @ [])" by (rule path.path_cons [OF edge ch path.path_nil])
  then have "path c x a ch (take n K @ drop n (toks c ch)) (take n v @ drop n v)"
    using n(5) by (metis append.right_neutral append_take_drop_id)
  moreover have "length (take n v) = length (take n K)" using n lv by simp
  ultimately have st: "stored_from c x a (take n K) (take n v)"
    unfolding stored_from_def by blast
  have "m \<le> n" if m: "m \<le> length K" "page_size c dvd m" "stored_from c x a (take m K) us" for m us
  proof (rule ccontr)
    assume "\<not> m \<le> n"
    then have nm: "n < m" "0 < m" by auto
    obtain b ts' vs' where "length us = m" "path c x a b (take m K @ ts') (us @ vs')"
      using m(1,3) by (auto simp: stored_from_def)
    from path_head [OF wf this(2) m(2) nm(2) m(1) this(1) ck] obtain ts1 where
      eq: "toks c ch @ ts1 = take m K @ ts'"
      using edge map_of_kids [OF wf] by (metis option.inject)
    have step: "n + page_size c \<le> l" if "n < l" "page_size c dvd l" for l
      using that n(3) aligned_page_le [of "page_size c" "l - n"] by (simp add: dvd_diff_nat)
    have "n + page_size c \<le> length (toks c ch)" "n + page_size c \<le> m"
      using step nm(1) m(2) n(1) e(7) by auto
    then have "take (page_size c) (drop n (toks c ch)) = take (page_size c) (drop n (toks c ch @ ts1))"
      by simp
    also have "\<dots> = take (page_size c) (drop n K)"
      unfolding eq using \<open>n + page_size c \<le> m\<close> m(1) by (simp add: take_drop min_absorb1)
    finally show False using max nm m(1) by simp
  qed
  then show ?thesis using st n lv by (auto simp: longest_match_def)
qed

lemma longest_match_full:
  assumes wf: "rc_wf c" and edge: "(ck, ch) \<in> set (kids c a)"
    and ck: "get_child_key \<lparr>token_ids = K, extra_key = x\<rparr> (page_size c) = Inr ck"
    and ch: "extra_key (key (nodes c ch)) = x" "node_value (nodes c ch) = Some v"
    and n: "n = length (toks c ch)" "n \<le> length K" "take n K = toks c ch"
    and rest: "longest_match c x ch (drop n K) vs"
  shows "longest_match c x a K (v @ vs)"
proof -
  note e = wf_edgeD [OF wf edge]
  have lv: "length v = n" using e(8) ch(2) n(1) by auto
  have al: "page_size c dvd n" using e(7) n(1) by simp
  obtain b ts' vs' where pt: "path c x ch b (take (length vs) (drop n K) @ ts') (vs @ vs')"
    using rest by (auto simp: longest_match_def stored_from_def)
  have tk: "take (n + length vs) K = toks c ch @ take (length vs) (drop n K)"
    using n(3) by (simp add: take_add)
  have len: "length vs \<le> length K - n" using rest by (simp add: longest_match_def)
  have "path c x a b (take (n + length vs) K @ ts') ((v @ vs) @ vs')"
    using path.path_cons [OF edge ch pt] by (simp add: tk)
  then have st: "stored_from c x a (take (n + length vs) K) (v @ vs)"
    using lv len n(2) by (auto simp: stored_from_def)
  have "m \<le> n + length vs" if m: "m \<le> length K" "page_size c dvd m" "stored_from c x a (take m K) us" for m us
  proof (rule ccontr)
    assume "\<not> m \<le> n + length vs"
    then have nm: "n < m" "0 < m" "length vs < m - n" by auto
    obtain b ts' vs' where us: "length us = m" "path c x a b (take m K @ ts') (us @ vs')"
      using m(1,3) by (auto simp: stored_from_def)
    from path_head [OF wf us(2) m(2) nm(2) m(1) us(1) ck] obtain ts1 vs1 where
      eq: "path c x ch b ts1 vs1" "toks c ch @ ts1 = take m K @ ts'" "v @ vs1 = us @ vs'"
      using edge map_of_kids [OF wf] ch(2) by (metis option.inject)
    have "ts1 = drop n (toks c ch @ ts1)" using n(1) by simp
    also have "\<dots> = take (m - n) (drop n K) @ ts'" unfolding eq(2) using nm m(1) by (simp add: drop_take)
    finally have t1: "ts1 = take (m - n) (drop n K) @ ts'" .
    have "vs1 = drop n (v @ vs1)" using lv by simp
    also have "\<dots> = drop n us @ vs'" unfolding eq(3) using nm us(1) by simp
    finally have "stored_from c x ch (take (m - n) (drop n K)) (drop n us)"
      using eq(1) t1 us(1) m(1) nm by (auto simp: stored_from_def)
    moreover have "page_size c dvd m - n" "m - n \<le> length (drop n K)"
      using al m(1,2) by (auto simp: dvd_diff_nat)
    ultimately show False using rest nm(3) unfolding longest_match_def by (meson leD)
  qed
  moreover have "page_size c dvd length vs" using rest by (simp add: longest_match_def)
  ultimately show ?thesis using st lv al len n(2) by (auto simp: longest_match_def)
qed

section \<open>One iteration of the descent\<close>

text \<open>
  Both loops look up the child for the rest of the key, touch it and compare keys. When the child's
  key is longer than the match, the edge is split and the match ends at the new node; otherwise the
  descent goes on below the child.
\<close>

lemma descend:
  fixes k :: radix_key
  defines "K \<equiv> token_ids k" and "x \<equiv> extra_key k"
  assumes wf: "rc_wf c" and K: "page_size c dvd length K" "K \<noteq> []"
    and ck: "get_child_key k (page_size c) = Inr ck" and edge: "map_of (kids c a) ck = Some ch"
    and t: "touches c c1"
  obtains n v where "key_match_fn (page_size c) (key (nodes c1 ch)) k = Inr n" "0 < n" "n \<le> length K"
    "n \<le> length (toks c ch)" "page_size c dvd n" "take n (toks c ch) = take n K"
    "node_value (nodes c ch) = Some v" "length v = length (toks c ch)"
    "extra_key (key (nodes c ch)) = x"
    "n < min (length (toks c ch)) (length K) \<longrightarrow>
       take (page_size c) (drop n (toks c ch)) \<noteq> take (page_size c) (drop n K)"
proof -
  have e': "(ck, ch) \<in> set (kids c a)" using edge map_of_kids [OF wf] by blast
  note e = wf_edgeD [OF wf e'] and ps = rc_wfD(1) [OF wf]
  have "get_child_key (key (nodes c ch)) (page_size c) = get_child_key k (page_size c)" using e(5) ck by simp
  then have same: "extra_key (key (nodes c ch)) = x" "take (page_size c) (toks c ch) = take (page_size c) K"
    using get_child_key_eq_iff [OF ps e(6), of k] K(2) by (simp_all add: K_def x_def)
  from key_match_fn_spec [OF ps same(1) [unfolded x_def] e(7) K(1) [unfolded K_def], folded K_def]
  obtain n where n: "key_match_fn (page_size c) (key (nodes c ch)) k = Inr n"
    "n \<le> min (length (toks c ch)) (length K)" "page_size c dvd n" "take n (toks c ch) = take n K"
    "n < min (length (toks c ch)) (length K) \<longrightarrow>
       take (page_size c) (drop n (toks c ch)) \<noteq> take (page_size c) (drop n K)" by blast
  have "0 < n"
  proof (rule ccontr)
    assume "\<not> 0 < n"
    with n(5) same(2) e(6) K(2) show False by auto
  qed
  moreover obtain v where "node_value (nodes c ch) = Some v" "length v = length (toks c ch)"
    using e(8) by blast
  ultimately show thesis using that [of n v] n same touchesD(3) [OF t, of ch] by auto
qed

lemma split_result:
  fixes k :: radix_key
  defines "K \<equiv> token_ids k" and "x \<equiv> extra_key k"
  assumes wf: "rc_wf c" and t: "touches c c1" and edge: "(ck, ch) \<in> set (kids c a)"
    and n: "0 < n" "n < length (toks c ch)" "page_size c dvd n" "take n (toks c ch) = take n K"
    and ch: "node_value (nodes c ch) = Some v" "extra_key (key (nodes c ch)) = x"
  obtains c2 where "split_node c1 (key (nodes c1 ch)) ch n = Inr (counter c, c2)" "reshapes c c2"
    "node_value (nodes c2 (counter c)) = Some (take n v)"
    "path c2 x a (counter c) (take n K) (take n v)"
    "take (page_size c) (drop n (toks c ch)) \<noteq> take (page_size c) (drop n K) \<and> n < length K \<longrightarrow>
       (\<forall>ck'. get_child_key (key_drop n k) (page_size c) = Inr ck' \<longrightarrow> map_of (kids c2 (counter c)) ck' = None)"
proof -
  have wf1: "rc_wf c1" using wf touches_wf [OF t] by simp
  have e1: "(ck, ch) \<in> set (kids c1 a)" "n < length (toks c1 ch)" "page_size c1 dvd n"
    using edge n touchesD [OF t] by auto
  from split_node_splits [OF wf1 e1(1) n(1) e1(2,3)] obtain c2 where
    sp: "split_node c1 (key (nodes c1 ch)) ch n = Inr (counter c1, c2)" "splits c1 c2 a ck ch n" by blast
  note sn = splits_nodes [OF wf1 sp(2)] and sk = splits_kids [OF wf1 sp(2)]
  have cc: "counter c1 = counter c" using touchesD(6) [OF t] .
  have r: "reshapes c c2" using t sp(2) by (meson converse_rtranclp_into_rtranclp r_into_rtranclp
        step_touch step_split)
  have val: "node_value (nodes c2 (counter c)) = Some (take n v)"
    using sn(7) [of "counter c"] ch(1) touchesD(4) [OF t] cc by simp
  have "path c2 x a (counter c) (toks c2 (counter c) @ []) (take n v @ [])"
    by (rule path.path_cons [of ck])
      (use sk(1) [of ck "counter c" a] cc val ch(2) sn(5) [of "counter c"] touchesD(3) [OF t] path.path_nil in auto)
  then have pt: "path c2 x a (counter c) (take n K) (take n v)"
    using sn(5) [of "counter c"] cc touchesD(3) [OF t] n(4) by simp
  have "map_of (kids c2 (counter c)) ck' = None"
    if ne: "take (page_size c) (drop n (toks c ch)) \<noteq> take (page_size c) (drop n K)" "n < length K"
      and ck': "get_child_key (key_drop n k) (page_size c) = Inr ck'" for ck'
  proof (rule ccontr)
    assume "map_of (kids c2 (counter c)) ck' \<noteq> None"
    then obtain m where "(ck', m) \<in> set (kids c2 (counter c))" by (auto dest: map_of_SomeD)
    then have "get_child_key (key_drop n (key (nodes c ch))) (page_size c) = Inr ck'"
      using sk(1) [of ck' m "counter c"] cc touchesD [OF t] kids_fresh [OF wf1, of "counter c"] sn(2) by auto
    then show False
      using ne ck' get_child_key_eq_iff [OF rc_wfD(1) [OF wf], of "key_drop n k" "key_drop n (key (nodes c ch))"]
        n(2) by (auto simp: K_def)
  qed
  with that [of c2] sp(1) r val pt cc show thesis by presburger
qed

lemma next_child_key:
  obtains ck' where "(if 0 < key_len k then get_child_key k ps else Inr ck) = Inr ck'"
    "token_ids k \<noteq> [] \<Longrightarrow> get_child_key k ps = Inr ck'"
proof (cases "token_ids k = []")
  case False
  then obtain p where "get_child_key k ps = Inr (extra_key k, p)" using get_child_key_ok by blast
  then show thesis using that False by simp
qed (use that in simp)

lemma longest_match_touches: "touches c c1 \<Longrightarrow> longest_match c1 x a K vs = longest_match c x a K vs"
  by (simp add: longest_match_def stored_from_def touches_path touchesD)

section \<open>Matching\<close>

lemma match_loop_spec:
  fixes k :: radix_key
  assumes "rc_wf c" and "page_size c dvd key_len k"
    and "token_ids k \<noteq> [] \<Longrightarrow> get_child_key k (page_size c) = Inr ck" and "key_len k < fuel"
  shows "\<exists>vs n c'. match_loop fuel c t a k ck acc = Inr (acc @ vs, n, c') \<and> reshapes c c' \<and>
    longest_match c (extra_key k) a (token_ids k) vs \<and>
    path c' (extra_key k) a n (take (length vs) (token_ids k)) vs"
  using assms
proof (induction fuel arbitrary: c a k ck acc)
  case (Suc fuel)
  let ?K = "token_ids k" and ?x = "extra_key k"
  have kk: "\<lparr>token_ids = ?K, extra_key = ?x\<rparr> = k" by simp
  show ?case
  proof (cases "?K \<noteq> [] \<and> map_of (kids c a) ck \<noteq> None")
    case False
    then have "longest_match c ?x a ?K []"
      using Suc.prems(3) longest_match_none [OF Suc.prems(1), of ?K ?x a, unfolded kk] by metis
    with False show ?thesis by (auto simp: match_loop.simps [of "Suc fuel"] intro: path.path_nil split: option.splits)
  next
    case True
    then obtain ch where ch: "map_of (kids c a) ck = Some ch" by auto
    note edge = ch [unfolded map_of_kids [OF Suc.prems(1)]]
    let ?c1 = "touch c ch t"
    have t: "touches c ?c1" by (rule touches_access)
    note ck = Suc.prems(3) [OF True [THEN conjunct1]]
    have ckr: "get_child_key \<lparr>token_ids = ?K, extra_key = ?x\<rparr> (page_size c) = Inr ck"
      unfolding kk by (rule ck)
    obtain n v where n: "key_match_fn (page_size c) (key (nodes ?c1 ch)) k = Inr n" "0 < n" "n \<le> length ?K"
      "n \<le> length (toks c ch)" "page_size c dvd n" "take n (toks c ch) = take n ?K"
      and v: "node_value (nodes c ch) = Some v" "length v = length (toks c ch)"
      and x: "extra_key (key (nodes c ch)) = ?x"
      and max: "n < min (length (toks c ch)) (length ?K) \<longrightarrow>
         take (page_size c) (drop n (toks c ch)) \<noteq> take (page_size c) (drop n ?K)"
      by (rule descend [OF Suc.prems(1,2) True [THEN conjunct1] ck ch t])
    note unf = match_loop.simps [of "Suc fuel" c t a k ck acc, unfolded ch Let_def]
    have tc1: "toks ?c1 ch = toks c ch" using touchesD(3) [OF t] by simp
    show ?thesis
    proof (cases "n < length (toks c ch)")
      case short: True
      obtain c2 where c2: "split_node ?c1 (key (nodes ?c1 ch)) ch n = Inr (counter c, c2)" "reshapes c c2"
        "node_value (nodes c2 (counter c)) = Some (take n v)"
        "path c2 ?x a (counter c) (take n ?K) (take n v)"
        by (rule split_result [OF Suc.prems(1) t edge n(2) short n(5,6) v(1) x])
      have "longest_match c ?x a ?K (take n v)"
        by (rule longest_match_partial [OF Suc.prems(1) edge ckr x v(1) short n(3,5)])
          (use Suc.prems(2) n(6) max short in auto)
      moreover have "length (take n v) = n" using v(2) n(4) by simp
      ultimately show ?thesis using unf n(1) c2 True short tc1 by (simp add: get_value_def)
    next
      case False
      then have nl: "n = length (toks c ch)" using n(4) by simp
      have tk: "take n ?K = toks c ch" using n(6) nl by simp
      have wf1: "rc_wf ?c1" using touches_wf [OF t] Suc.prems(1) by simp
      have ps: "page_size ?c1 = page_size c" using touchesD(7) [OF t] .
      obtain ck' where ck': "(if 0 < key_len (key_drop n k) then get_child_key (key_drop n k) (page_size c)
          else Inr ck) = Inr ck'"
        "token_ids (key_drop n k) \<noteq> [] \<Longrightarrow> get_child_key (key_drop n k) (page_size ?c1) = Inr ck'"
        using next_child_key [of "key_drop n k" "page_size c" ck] unfolding ps by metis
      have "0 < key_len k" using True by simp
      then have "page_size ?c1 dvd key_len (key_drop n k)" "key_len (key_drop n k) < fuel"
        using Suc.prems(2,4) n(2,5) ps by (simp_all add: dvd_diff_nat del: length_greater_0_conv)
      from Suc.IH [OF wf1 this(1) ck'(2) this(2), of ch "acc @ v"] obtain vs m c' where
        IH: "match_loop fuel ?c1 t ch (key_drop n k) ck' (acc @ v) = Inr ((acc @ v) @ vs, m, c')" "reshapes ?c1 c'"
        "longest_match ?c1 ?x ch (drop n ?K) vs" "path c' ?x ch m (take (length vs) (drop n ?K)) vs"
        by auto
      have "longest_match c ?x a ?K (v @ vs)"
        by (rule longest_match_full [OF Suc.prems(1) edge ckr x v(1) nl n(3) tk])
          (use IH(3) longest_match_touches [OF t] in auto)
      moreover have "path c ?x a ch (take n ?K) v"
        using path.path_cons [OF edge x v(1) path.path_nil] tk by simp
      then have "path c' ?x a ch (take n ?K) v"
        using reshapes_path [OF IH(2) wf1] touches_path [OF t] by simp
      from path_append [OF this IH(4)] have "path c' ?x a m (take (length (v @ vs)) ?K) (v @ vs)"
        using v(2) nl by (simp add: take_add)
      moreover have "reshapes c c'" using IH(2) step_touch [OF t] by (rule converse_rtranclp_into_rtranclp [rotated])
      moreover have "match_loop (Suc fuel) c t a k ck acc = Inr (acc @ (v @ vs), m, c')"
        using unf n(1) True nl tc1 v(1) ck'(1) IH(1) touchesD(4) [OF t, of ch]
        by (auto simp: get_value_def split: if_splits)
      ultimately show ?thesis by blast
    qed
  qed
qed simp

section \<open>Inserting\<close>

lemma insert_loop_spec:
  fixes k :: radix_key
  assumes "rc_wf c" and "page_size c dvd key_len k"
    and "token_ids k \<noteq> [] \<Longrightarrow> get_child_key k (page_size c) = Inr ck" and "key_len k < fuel"
  shows "\<exists>vs n ck' c'. insert_loop fuel c t a k ck V tot
      = Inr (n, key_drop (length vs) k, ck', drop (length vs) V, tot + length vs, c') \<and>
    reshapes c c' \<and> longest_match c (extra_key k) a (token_ids k) vs \<and>
    path c' (extra_key k) a n (take (length vs) (token_ids k)) vs \<and>
    (length vs < key_len k \<longrightarrow> get_child_key (key_drop (length vs) k) (page_size c) = Inr ck' \<and>
       map_of (kids c' n) ck' = None)"
  using assms
proof (induction fuel arbitrary: c a k ck V tot)
  case (Suc fuel)
  let ?K = "token_ids k" and ?x = "extra_key k"
  have kk: "\<lparr>token_ids = ?K, extra_key = ?x\<rparr> = k" by simp
  show ?case
  proof (cases "?K \<noteq> [] \<and> map_of (kids c a) ck \<noteq> None")
    case False
    then have "longest_match c ?x a ?K []"
      using Suc.prems(3) longest_match_none [OF Suc.prems(1), of ?K ?x a, unfolded kk] by metis
    moreover have "insert_loop (Suc fuel) c t a k ck V tot
        = Inr (a, key_drop (length ([] :: int list)) k, ck, drop (length ([] :: int list)) V,
            tot + length ([] :: int list), c)"
      using False by (auto simp: insert_loop.simps [of "Suc fuel"] key_drop_def split: option.splits)
    ultimately show ?thesis
      using False Suc.prems(3) path.path_nil [of c ?x a] by (intro exI [of _ "[]"] exI) (auto simp: key_drop_def)
  next
    case True
    then obtain ch where ch: "map_of (kids c a) ck = Some ch" by auto
    note edge = ch [unfolded map_of_kids [OF Suc.prems(1)]]
    let ?c1 = "touch c ch t"
    have t: "touches c ?c1" by (rule touches_access)
    note ck = Suc.prems(3) [OF True [THEN conjunct1]]
    have ckr: "get_child_key \<lparr>token_ids = ?K, extra_key = ?x\<rparr> (page_size c) = Inr ck"
      unfolding kk by (rule ck)
    obtain n v where n: "key_match_fn (page_size c) (key (nodes ?c1 ch)) k = Inr n" "0 < n" "n \<le> length ?K"
      "n \<le> length (toks c ch)" "page_size c dvd n" "take n (toks c ch) = take n ?K"
      and v: "node_value (nodes c ch) = Some v" "length v = length (toks c ch)"
      and x: "extra_key (key (nodes c ch)) = ?x"
      and max: "n < min (length (toks c ch)) (length ?K) \<longrightarrow>
         take (page_size c) (drop n (toks c ch)) \<noteq> take (page_size c) (drop n ?K)"
      by (rule descend [OF Suc.prems(1,2) True [THEN conjunct1] ck ch t])
    have ps: "page_size ?c1 = page_size c" using touchesD(7) [OF t] .
    obtain ck' where ck': "(if 0 < key_len (key_drop n k) then get_child_key (key_drop n k) (page_size c)
          else Inr ck) = Inr ck'"
        "token_ids (key_drop n k) \<noteq> [] \<Longrightarrow> get_child_key (key_drop n k) (page_size ?c1) = Inr ck'"
        using next_child_key [of "key_drop n k" "page_size c" ck] unfolding ps by metis
    have tc1: "toks ?c1 ch = toks c ch" using touchesD(3) [OF t] by simp
    note unf = insert_loop.simps [of "Suc fuel" c t a k ck V tot, unfolded ch Let_def]
    show ?thesis
    proof (cases "n < length (toks c ch)")
      case short: True
      obtain c2 where c2: "split_node ?c1 (key (nodes ?c1 ch)) ch n = Inr (counter c, c2)" "reshapes c c2"
        "path c2 ?x a (counter c) (take n ?K) (take n v)"
        "take (page_size c) (drop n (toks c ch)) \<noteq> take (page_size c) (drop n ?K) \<and> n < length ?K \<longrightarrow>
          (\<forall>ck'. get_child_key (key_drop n k) (page_size c) = Inr ck' \<longrightarrow> map_of (kids c2 (counter c)) ck' = None)"
        by (rule split_result [OF Suc.prems(1) t edge n(2) short n(5,6) v(1) x])
      have lm: "longest_match c ?x a ?K (take n v)"
        by (rule longest_match_partial [OF Suc.prems(1) edge ckr x v(1) short n(3,5)])
          (use Suc.prems(2) n(6) max short in auto)
      have lv: "length (take n v) = n" using v(2) n(4) by simp
      have stop: "n < key_len k \<Longrightarrow> get_child_key (key_drop n k) (page_size c) = Inr ck' \<and>
          map_of (kids c2 (counter c)) ck' = None"
        using ck'(1) c2(4) max short by (auto split: if_splits)
      have "insert_loop (Suc fuel) c t a k ck V tot
          = insert_loop fuel c2 t (counter c) (key_drop n k) ck' (drop n V) (tot + n)"
        using unf n(1) c2(1) True short tc1 ck'(1) by simp
      also have "\<dots> = Inr (counter c, key_drop n k, ck', drop n V, tot + n, c2)"
        using stop by (subst insert_loop.simps) (auto split: option.splits)
      finally show ?thesis using lm lv c2(2,3) stop by (intro exI [of _ "take n v"] exI) auto
    next
      case False
      then have nl: "n = length (toks c ch)" using n(4) by simp
      have tk: "take n ?K = toks c ch" using n(6) nl by simp
      have wf1: "rc_wf ?c1" using touches_wf [OF t] Suc.prems(1) by simp
      have "0 < key_len k" using True by simp
      then have "page_size ?c1 dvd key_len (key_drop n k)" "key_len (key_drop n k) < fuel"
        using Suc.prems(2,4) n(2,5) ps by (simp_all add: dvd_diff_nat del: length_greater_0_conv)
      from Suc.IH [OF wf1 this(1) ck'(2) this(2), of ch "drop n V" "tot + n"] obtain vs m ck'' c' where
        IH: "insert_loop fuel ?c1 t ch (key_drop n k) ck' (drop n V) (tot + n)
            = Inr (m, key_drop (length vs) (key_drop n k), ck'', drop (length vs) (drop n V),
                tot + n + length vs, c')" "reshapes ?c1 c'"
        "longest_match ?c1 ?x ch (drop n ?K) vs" "path c' ?x ch m (take (length vs) (drop n ?K)) vs"
        "length vs < key_len (key_drop n k) \<longrightarrow>
          get_child_key (key_drop (length vs) (key_drop n k)) (page_size ?c1) = Inr ck'' \<and>
          map_of (kids c' m) ck'' = None" by auto
      have lm: "longest_match c ?x a ?K (v @ vs)"
        by (rule longest_match_full [OF Suc.prems(1) edge ckr x v(1) nl n(3) tk])
          (use IH(3) longest_match_touches [OF t] in auto)
      have "path c ?x a ch (take n ?K) v"
        using path.path_cons [OF edge x v(1) path.path_nil] tk by simp
      then have "path c' ?x a ch (take n ?K) v"
        using reshapes_path [OF IH(2) wf1] touches_path [OF t] by simp
      from path_append [OF this IH(4)] have pt: "path c' ?x a m (take (length (v @ vs)) ?K) (v @ vs)"
        using v(2) nl by (simp add: take_add)
      have r: "reshapes c c'" using IH(2) step_touch [OF t] by (rule converse_rtranclp_into_rtranclp [rotated])
      have dd: "key_drop (length vs) (key_drop n k) = key_drop (length (v @ vs)) k"
        using v(2) nl by (simp add: key_drop_def add.commute)
      have "insert_loop (Suc fuel) c t a k ck V tot
          = insert_loop fuel ?c1 t ch (key_drop n k) ck' (drop n V) (tot + n)"
        using unf n(1) True False tc1 ck'(1) by simp
      then have "insert_loop (Suc fuel) c t a k ck V tot
          = Inr (m, key_drop (length (v @ vs)) k, ck'', drop (length (v @ vs)) V, tot + length (v @ vs), c')"
        using IH(1) v(2) nl by (simp add: dd add.commute add.left_commute)
      then show ?thesis using lm pt r IH(5) dd ps v(2) nl by (intro exI [of _ "v @ vs"] exI) auto
    qed
  qed
qed simp

section \<open>Paths are unique\<close>

lemma path_snoc:
  "path c x a b ts vs \<Longrightarrow> (a = b \<and> ts = [] \<and> vs = []) \<or> (\<exists>q k ts1 vs1 v. path c x a q ts1 vs1 \<and>
    (k, b) \<in> set (kids c q) \<and> node_value (nodes c b) = Some v \<and> ts = ts1 @ toks c b \<and> vs = vs1 @ v)"
proof (induction rule: path.induct)
  case (path_cons k m a v b ts vs)
  from path_cons.IH show ?case
  proof (elim disjE exE conjE)
    assume "m = b" "ts = []" "vs = []"
    then show ?thesis using path_cons.hyps path.path_nil [of c x a] by fastforce
  next
    fix q k' ts1 vs1 w
    assume q: "path c x m q ts1 vs1" "(k', b) \<in> set (kids c q)" "node_value (nodes c b) = Some w"
      "ts = ts1 @ toks c b" "vs = vs1 @ w"
    from path.path_cons [OF path_cons.hyps(1-3) q(1)] q(2-5) show ?thesis by (metis append_assoc)
  qed
qed simp

lemma path_depth:
  fixes depth :: "nat \<Rightarrow> nat"
  assumes "\<And>n k m. (k, m) \<in> set (kids c n) \<Longrightarrow> depth n < depth m"
  shows "path c x a b ts vs \<Longrightarrow> (a = b \<and> ts = [] \<and> vs = []) \<or> depth a < depth b"
proof (induction rule: path.induct)
  case (path_cons k m a v b ts vs)
  then show ?case using assms [OF path_cons.hyps(1)] by auto
qed simp

lemma path_unique:
  assumes wf: "rc_wf c" and "path c x a b ts vs" and "path c x a b ts' vs'"
  shows "ts' = ts \<and> vs' = vs"
proof -
  obtain depth :: "nat \<Rightarrow> nat" where depth: "\<And>n k m. (k, m) \<in> set (kids c n) \<Longrightarrow> depth n < depth m"
    using rc_wf_depth [OF wf] by blast
  show ?thesis using assms(2,3)
  proof (induction "depth b" arbitrary: b ts vs ts' vs' rule: less_induct)
    case less
    show ?case
    proof (cases "a = b")
      case True
      then show ?thesis using path_depth [OF depth less.prems(1)] path_depth [OF depth less.prems(2)] by auto
    next
      case False
      from path_snoc [OF less.prems(1)] False obtain q k ts1 vs1 v where
        q: "path c x a q ts1 vs1" "(k, b) \<in> set (kids c q)" "node_value (nodes c b) = Some v"
          "ts = ts1 @ toks c b" "vs = vs1 @ v" by blast
      from path_snoc [OF less.prems(2)] False obtain q' k' ts2 vs2 v' where
        q': "path c x a q' ts2 vs2" "(k', b) \<in> set (kids c q')" "node_value (nodes c b) = Some v'"
          "ts' = ts2 @ toks c b" "vs' = vs2 @ v'" by blast
      have "q' = q" using wf_edge_unique(1) [OF wf q(2) q'(2)] .
      with less.hyps [OF depth [OF q(2)] q(1)] q' q show ?thesis by simp
    qed
  qed
qed

lemma append_prefix_split:
  assumes "v @ vs = us @ w" and "length v \<le> length us"
  shows "us = v @ drop (length v) us" "vs = drop (length v) us @ w"
proof -
  have "v = take (length v) us" using arg_cong [OF assms(1), of "take (length v)"] assms(2) by simp
  then show "us = v @ drop (length v) us" by (metis append_take_drop_id)
  show "vs = drop (length v) us @ w"
    using arg_cong [OF assms(1), of "drop (length v)"] assms(2) by simp
qed

lemma stored_from_unique:
  assumes wf: "rc_wf c" and "page_size c dvd length ts"
    and "stored_from c x a ts us" and "stored_from c x a ts us'"
  shows "us' = us"
  using assms(2-)
proof (induction "length ts" arbitrary: a ts us us' rule: less_induct)
  case less
  show ?case
  proof (cases "ts = []")
    case True
    then show ?thesis using less.prems by simp
  next
    case False
    let ?k = "\<lparr>token_ids = ts, extra_key = x\<rparr>"
    obtain ck where ck: "get_child_key ?k (page_size c) = Inr ck"
      using get_child_key_ok [of ?k "page_size c"] False by auto
    have al: "page_size c dvd length ts" "0 < length ts" "length ts \<le> length ts" using less.prems False by auto
    obtain b t1 w where p: "length us = length ts" "path c x a b (take (length ts) ts @ t1) (us @ w)"
      using less.prems(2) by (auto simp: stored_from_def)
    obtain b' t1' w' where p': "length us' = length ts" "path c x a b' (take (length ts) ts @ t1') (us' @ w')"
      using less.prems(3) by (auto simp: stored_from_def)
    obtain ch v ts1 vs1 where q: "map_of (kids c a) ck = Some ch" "node_value (nodes c ch) = Some v"
      "length v = length (toks c ch)" "path c x ch b ts1 vs1"
      "toks c ch @ ts1 = take (length ts) ts @ t1" "v @ vs1 = us @ w"
      by (rule path_head [OF wf p(2) al p(1) ck])
    obtain ts2 vs2 where q': "path c x ch b' ts2 vs2"
      "toks c ch @ ts2 = take (length ts) ts @ t1'" "v @ vs2 = us' @ w'"
      by (rule path_head [OF wf p'(2) al p'(1) ck]) (use q(1,2) in auto)
    let ?n = "length (toks c ch)"
    note e = wf_edgeD [OF wf q(1) [unfolded map_of_kids [OF wf]]]
    show ?thesis
    proof (cases "length ts \<le> ?n")
      case True
      have "us = take (length ts) (v @ vs1)" "us' = take (length ts) (v @ vs2)"
        using q(6) q'(3) p(1) p'(1) by simp_all
      then show ?thesis using True q(3) by simp
    next
      case False
      then have ts1: "ts1 = drop ?n ts @ t1" and ts2: "ts2 = drop ?n ts @ t1'"
        using q(5) q'(2) by (simp_all add: append_eq_append_conv_if)
      have us: "us = v @ drop ?n us" "vs1 = drop ?n us @ w" and us': "us' = v @ drop ?n us'" "vs2 = drop ?n us' @ w'"
        using append_prefix_split [OF q(6)] append_prefix_split [OF q'(3)] q(3) p(1) p'(1) False by simp_all
      have "stored_from c x ch (drop ?n ts) (drop ?n us)" "stored_from c x ch (drop ?n ts) (drop ?n us')"
        using q(4) q'(1) ts1 ts2 us(2) us'(2) p(1) p'(1) by (auto simp: stored_from_def)
      moreover have "length (drop ?n ts) < length ts"
        using e(6) False by (cases "toks c ch") auto
      moreover have "page_size c dvd length (drop ?n ts)" using e(7) al(1) by (simp add: dvd_diff_nat)
      ultimately have "drop ?n us' = drop ?n us" using less.hyps by blast
      then show ?thesis using us(1) us'(1) by simp
    qed
  qed
qed

section \<open>The operations\<close>

lemma cache_tokens_aligned: "rc_wf c \<Longrightarrow> page_size c dvd length (cache_tokens c k)"
  by (simp add: cache_tokens_def Let_def min_absorb2)

lemma touches_monotonic: "monotonic c = (t, c0) \<Longrightarrow> touches c (touch c0 n t')"
  using touches_trans [OF touches_reads touches_access] by (auto simp: monotonic_def)

lemma match_prefix_spec:
  assumes wf: "rc_wf c"
  shows "\<exists>vs n c'. match_prefix c k0 = Inr (vs, n, c') \<and> reshapes c c' \<and>
    (if disable c then vs = [] \<and> n = root_node c \<and> c' = c
     else longest_match c (extra_key k0) (root_node c) (cache_tokens c k0) vs \<and>
       path c' (extra_key k0) (root_node c) n (take (length vs) (cache_tokens c k0)) vs)"
proof -
  define k where "k = k0\<lparr>token_ids := cache_tokens c k0\<rparr>"
  have k: "token_ids k = cache_tokens c k0" "extra_key k = extra_key k0" by (simp_all add: k_def)
  show ?thesis
  proof (cases "disable c \<or> token_ids k = []")
    case True
    have "match_prefix c k0 = Inr ([], root_node c, c)"
      using True by (auto simp: match_prefix_def k cache_tokens_def Let_def)
    moreover have "longest_match c x a [] []" for x a using longest_match_none [OF wf, of "[]"] by simp
    ultimately show ?thesis
      using True path.path_nil [of c "extra_key k0" "root_node c"] by (intro exI [of _ "[]"] exI) (auto simp: k)
  next
    case False
    obtain t c0 where mono: "monotonic c = (t, c0)" by fastforce
    let ?c1 = "touch c0 (root_node c) t"
    have t: "touches c ?c1" by (rule touches_monotonic [OF mono])
    have wf1: "rc_wf ?c1" using touches_wf [OF t] wf by simp
    obtain ck where ck: "get_child_key k (page_size c) = Inr ck"
      using get_child_key_ok [of k "page_size c"] False by auto
    have "match_prefix c k0 = match_prefix_helper c (root_node c) k"
      using False by (auto simp: match_prefix_def k_def cache_tokens_def Let_def key_take_def)
    also have "\<dots> = match_loop (Suc (key_len k)) ?c1 t (root_node c) k ck []"
      by (simp add: match_prefix_helper_def mono ck)
    finally have eq: "match_prefix c k0 = \<dots>" .
    have "page_size ?c1 dvd key_len k"
      using cache_tokens_aligned [OF wf] touchesD(7) [OF t] by (simp add: k)
    from match_loop_spec [OF wf1 this, of ck "Suc (key_len k)" t "root_node c" "[]"] eq ck touchesD(7) [OF t]
    obtain vs n c' where r: "match_prefix c k0 = Inr (vs, n, c')" "reshapes ?c1 c'"
      "longest_match ?c1 (extra_key k) (root_node c) (token_ids k) vs"
      "path c' (extra_key k) (root_node c) n (take (length vs) (token_ids k)) vs" by auto
    have "reshapes c c'" using r(2) step_touch [OF t] by (rule converse_rtranclp_into_rtranclp [rotated])
    with r False longest_match_touches [OF t] show ?thesis by (auto simp: k)
  qed
qed

text \<open>The value stored for a key: EAGLE drops the index without a bigram.\<close>

definition insert_value :: "radix_cache \<Rightarrow> radix_key \<Rightarrow> int list \<Rightarrow> int list" where
  "insert_value c k v =
     (if is_eagle c then take (length (key_convert_fn c (token_ids k))) v else v)"

lemma update_absent: "map_of al k = None \<Longrightarrow> AList.update k v al = al @ [(k, v)]"
  by (induction al) (auto split: if_splits)

lemma new_leaf_adds:
  assumes wf: "rc_wf c" and p: "p < counter c" and k: "token_ids k \<noteq> []" "page_size c dvd key_len k"
    and v: "length v = key_len k" and ck: "get_child_key k (page_size c) = Inr ck" "map_of (kids c p) ck = None"
    and c3: "new_tree_node c = (new_node, c3)"
  defines "c5 \<equiv> upd_node (upd_node c3 new_node (\<lambda>n. n\<lparr>parent := Some p, key := k, node_value := Some v\<rparr>))
      p (\<lambda>n. n\<lparr>children := AList.update ck new_node (children n)\<rparr>)"
  shows "adds_leaf c (record_store_event (c5\<lparr>evictable_size := evictable_size c5 + int (key_len k)\<rparr>) new_node)
    p k v"
proof -
  have new: "new_node = counter c" and "counter c3 = Suc (counter c)" "conf c3 = conf c"
    "evictable_size c3 = evictable_size c" "protected_size c3 = protected_size c"
    and n3: "nodes c3 = (nodes c)(counter c := tree_node_init (clock c (reads c)) (clock c (reads c + 1)))"
    using c3 by (auto simp: new_tree_node_def conf_def)
  moreover have "AList.update ck (counter c) (kids c p) = kids c p @ [(ck, counter c)]"
    by (rule update_absent [OF ck(2)])
  moreover have "p \<noteq> counter c" using p by simp
  ultimately show ?thesis
    using p k v ck by (simp add: adds_leaf_def c5_def shape_of_def tree_node_init_def)
qed

lemma insert_spec:
  fixes c :: radix_cache and k0 :: radix_key and V :: "int list"
  defines "K \<equiv> key_convert_fn c (token_ids k0)" and "x \<equiv> extra_key k0" and "W \<equiv> insert_value c k0 V"
  assumes wf: "rc_wf c" and en: "\<not> disable c" and K: "page_size c dvd length K" and W: "length W = length K"
  shows "\<exists>vs c1 c' n. rc_insert c k0 (Some V) = Inr (length vs, c') \<and> reshapes c c1 \<and>
    longest_match c x (root_node c) K vs \<and> path c1 x (root_node c) n (take (length vs) K) vs \<and>
    (if length vs = length K then c' = c1
     else adds_leaf c1 c' n \<lparr>token_ids = drop (length vs) K, extra_key = x\<rparr> (drop (length vs) W))"
proof -
  define k where "k = k0\<lparr>token_ids := K\<rparr>"
  have k: "token_ids k = K" "extra_key k = x" "\<And>n. key_drop n k = \<lparr>token_ids = drop n K, extra_key = x\<rparr>"
    by (simp_all add: k_def x_def key_drop_def)
  obtain t c0 where mono: "monotonic c = (t, c0)" by fastforce
  let ?c1 = "touch c0 (root_node c) t"
  have t: "touches c ?c1" by (rule touches_monotonic [OF mono])
  have eq: "rc_insert c k0 (Some V) = insert_helper c (root_node c) k W"
    using en by (simp add: rc_insert_def Let_def k_def K_def W_def insert_value_def)
  show ?thesis
  proof (cases "K = []")
    case True
    have "rc_insert c k0 (Some V) = Inr (length ([] :: int list), ?c1)"
      using True eq by (simp add: insert_helper_def mono k)
    then show ?thesis
      using True step_touch [OF t] longest_match_none [OF wf, of "[]"] path.path_nil [of ?c1 x "root_node c"]
      by (intro exI [of _ "[]"] exI [of _ ?c1] exI [of _ "root_node c"]) auto
  next
    case False
    have wf1: "rc_wf ?c1" using touches_wf [OF t] wf by simp
    obtain ck where ck: "get_child_key k (page_size c) = Inr ck"
      using get_child_key_ok [of k "page_size c"] False k(1) by auto
    note ps = touchesD(7) [OF t]
    have al: "page_size ?c1 dvd key_len k" and ck1: "get_child_key k (page_size ?c1) = Inr ck"
      using K ck ps k(1) by simp_all
    from insert_loop_spec [OF wf1 al ck1 lessI, of t "root_node c" W 0] obtain vs n ck' c1 where
      "insert_loop (Suc (key_len k)) ?c1 t (root_node c) k ck W 0
        = Inr (n, key_drop (length vs) k, ck', drop (length vs) W, 0 + length vs, c1)"
      "reshapes ?c1 c1" "longest_match ?c1 (extra_key k) (root_node c) (token_ids k) vs"
      "path c1 (extra_key k) (root_node c) n (take (length vs) (token_ids k)) vs"
      "length vs < key_len k \<longrightarrow> get_child_key (key_drop (length vs) k) (page_size ?c1) = Inr ck' \<and>
        map_of (kids c1 n) ck' = None" by blast
    note r = this [unfolded k(1,2) ps add_0]
    have lm: "longest_match c x (root_node c) K vs" using r(3) longest_match_touches [OF t] by simp
    then have le: "length vs \<le> length K" "page_size c dvd length vs" by (simp_all add: longest_match_def)
    have rs: "reshapes c c1" using r(2) step_touch [OF t] by (rule converse_rtranclp_into_rtranclp [rotated])
    show ?thesis
    proof (cases "length vs = length K")
      case True
      then have "rc_insert c k0 (Some V) = Inr (length vs, c1)"
        using eq False r(1) ck by (simp add: insert_helper_def mono k)
      with True rs lm r(4) show ?thesis by (intro exI [of _ vs] exI [of _ c1] exI [of _ n]) simp
    next
      case short: False
      have wf1': "rc_wf c1" using reshapes_wf [OF rs wf] .
      have "n < counter c1"
        using path_end [OF r(4) wf1'] rc_wfD(2) [OF wf1'] reshapes_conf [OF rs] conf_eqD(5) [of c1 c] by simp
      moreover obtain new c3 where new: "new_tree_node c1 = (new, c3)" by fastforce
      moreover have "page_size c1 = page_size c" using reshapes_conf [OF rs] conf_eqD(1) by blast
      ultimately have "adds_leaf c1 (record_store_event ((upd_node (upd_node c3 new
          (\<lambda>m. m\<lparr>parent := Some n, key := key_drop (length vs) k, node_value := Some (drop (length vs) W)\<rparr>))
          n (\<lambda>m. m\<lparr>children := AList.update ck' new (children m)\<rparr>))
          \<lparr>evictable_size := evictable_size c3 + int (key_len (key_drop (length vs) k))\<rparr>) new)
        n (key_drop (length vs) k) (drop (length vs) W)"
        using new_leaf_adds [OF wf1' _ _ _ _ _ _ new, of n "key_drop (length vs) k" "drop (length vs) W" ck']
          short le K W r(5) by (simp add: k(1) dvd_diff_nat)
      then obtain c' where "adds_leaf c1 c' n (key_drop (length vs) k) (drop (length vs) W)"
        "rc_insert c k0 (Some V) = Inr (length vs, c')"
        using eq False short le r(1) ck new by (simp add: insert_helper_def mono k Let_def)
      with short rs lm r(4) show ?thesis
        by (intro exI [of _ vs] exI [of _ c1] exI [of _ c'] exI [of _ n]) (simp add: k(3))
    qed
  qed
qed

section \<open>Content\<close>

lemma stored_from_prefix:
  assumes "stored_from c x a ts us" shows "stored_from c x a (take m ts) (take m us)"
proof -
  from assms obtain b ts' vs' where "length us = length ts" "path c x a b (ts @ ts') (us @ vs')"
    by (auto simp: stored_from_def)
  moreover have "ts @ ts' = take m ts @ drop m ts @ ts'" "us @ vs' = take m us @ drop m us @ vs'" by simp_all
  ultimately show ?thesis unfolding stored_from_def by (metis length_take)
qed

lemma adds_leaf_stored:
  assumes wf: "rc_wf c" and ad: "adds_leaf c c' p k v" and pt: "path c (extra_key k) a p ts vs"
    and a: "a < counter c"
  shows "stored_from c' x a us ws \<longleftrightarrow> stored_from c x a us ws \<or> (x = extra_key k \<and>
    (\<exists>m \<le> length (ts @ token_ids k). us = take m (ts @ token_ids k) \<and> ws = take m (vs @ v)))"
    (is "?L \<longleftrightarrow> ?R")
proof
  assume ?L
  then obtain b us' ws' where len: "length ws = length us" and pb: "path c' x a b (us @ us') (ws @ ws')"
    by (auto simp: stored_from_def)
  from adds_leaf_path_back [OF wf ad pb] a
  consider "path c x a b (us @ us') (ws @ ws')"
    | ts1 vs1 where "extra_key k = x" "path c x a p ts1 vs1" "us @ us' = ts1 @ token_ids k" "ws @ ws' = vs1 @ v"
    by auto
  then show ?R
  proof cases
    case 1
    then show ?thesis using len by (auto simp: stored_from_def)
  next
    case 2
    have "ts1 = ts \<and> vs1 = vs" using path_unique [OF wf pt, of ts1 vs1] 2(1,2) by simp
    then have "us = take (length us) (ts @ token_ids k)" "ws = take (length us) (vs @ v)"
      "length us \<le> length (ts @ token_ids k)"
      using 2(3,4) len by (metis append_eq_conv_conj, metis append_eq_conv_conj, metis le_add1 length_append)
    then show ?thesis using 2(1) by blast
  qed
next
  assume ?R
  then show ?L
  proof (elim disjE conjE exE)
    assume "stored_from c x a us ws"
    then show ?thesis using adds_leaf_path [OF wf ad] unfolding stored_from_def by blast
  next
    fix m assume x: "x = extra_key k" and m: "m \<le> length (ts @ token_ids k)"
      and us: "us = take m (ts @ token_ids k)" "ws = take m (vs @ v)"
    obtain k0 where "get_child_key k (page_size c) = Inr k0" using ad unfolding adds_leaf_def by blast
    then have "(k0, counter c) \<in> set (kids c' p)" using adds_leaf_kids(1) [OF wf ad] by blast
    then have "path c' x p (counter c) (toks c' (counter c) @ []) (v @ [])"
      by (rule path.path_cons) (use adds_leaf_nodes [OF ad] x path.path_nil in auto)
    from path_append [OF adds_leaf_path [OF wf ad pt] this [unfolded x]]
    have full: "path c' x a (counter c) (ts @ token_ids k) (vs @ v)"
      using adds_leaf_nodes(1) [OF ad] x by simp
    have "stored_from c' x a (ts @ token_ids k) (vs @ v)"
      unfolding stored_from_def using full path_length [OF full adds_leaf_wf [OF wf ad]]
      by (metis append.right_neutral)
    then show ?thesis unfolding us by (rule stored_from_prefix)
  qed
qed

lemma longest_match_stored:
  "longest_match c x a K vs \<Longrightarrow> stored_from c x a (take (length vs) K) vs"
  by (simp add: longest_match_def)

lemma insert_content:
  fixes c :: radix_cache and k0 :: radix_key and V :: "int list"
  defines "K \<equiv> key_convert_fn c (token_ids k0)" and "W \<equiv> insert_value c k0 V"
  assumes wf: "rc_wf c" and en: "\<not> disable c" and K: "page_size c dvd length K" and W: "length W = length K"
  obtains vs c' where "rc_insert c k0 (Some V) = Inr (length vs, c')" "rc_wf c'" "conf c' = conf c"
    "longest_match c (extra_key k0) (root_node c) K vs"
    "\<And>y ts us. stored c' y ts us \<longleftrightarrow> stored c y ts us \<or> (y = extra_key k0 \<and>
       (\<exists>m \<le> length K. ts = take m K \<and> us = take m (vs @ drop (length vs) W)))"
proof -
  let ?x = "extra_key k0" and ?r = "root_node c"
  from insert_spec [OF wf en K [unfolded K_def] W [unfolded K_def W_def], folded K_def W_def]
  obtain vs c1 c' n where r: "rc_insert c k0 (Some V) = Inr (length vs, c')" "reshapes c c1"
    "longest_match c ?x ?r K vs" "path c1 ?x ?r n (take (length vs) K) vs"
    "if length vs = length K then c' = c1
     else adds_leaf c1 c' n \<lparr>token_ids = drop (length vs) K, extra_key = ?x\<rparr> (drop (length vs) W)" by blast
  have wf1: "rc_wf c1" and cf: "conf c1 = conf c" using reshapes_wf [OF r(2) wf] reshapes_conf [OF r(2)] by auto
  have root: "root_node c1 = ?r" "?r < counter c1"
    using conf_eqD(5) [OF cf] rc_wfD(2) [OF wf1] by simp_all
  have st1: "stored_from c1 y ?r ts us \<longleftrightarrow> stored c y ts us" for y ts us
    by (rule reshapes_stored_from [OF r(2) wf rc_wfD(2) [OF wf]])
  show thesis
  proof (cases "length vs = length K")
    case True
    then have c': "c' = c1" and st: "stored c ?x K vs"
      using r(5) longest_match_stored [OF r(3)] by simp_all
    have "stored c ?x (take m K) (take m (vs @ drop (length vs) W))" for m
      using stored_from_prefix [OF st, of m] True W by simp
    then show thesis using that [of vs c'] r(1,3) wf1 cf st1 root(1) c' by auto
  next
    case False
    with r(5) have ad: "adds_leaf c1 c' n \<lparr>token_ids = drop (length vs) K, extra_key = ?x\<rparr> (drop (length vs) W)"
      by simp
    have "root_node c' = ?r" "conf c' = conf c" using adds_leafD(1,8) [OF ad] root(1) cf by simp_all
    then show thesis
      using that [of vs c'] r(1,3) adds_leaf_wf [OF wf1 ad] adds_leaf_stored [OF wf1 ad _ root(2)] r(4) st1 by simp
  qed
qed

section \<open>Construction\<close>

lemma radix_init_spec:
  assumes "radix_init ps dis events policy eagle clk h = Inr c" and "0 < ps"
  shows "rc_wf c" "kids c (root_node c) = []" "page_size c = ps" "disable c = dis" "is_eagle c = eagle"
    "evictable_size c = 0" "protected_size c = 0" "counter c = 1" "root_node c = 0"
proof -
  from assms(1) have c: "page_size c = ps" "disable c = dis" "is_eagle c = eagle" "root_node c = 0"
    "counter c = 1" "evictable_size c = 0" "protected_size c = 0" "\<And>n. kids c n = []"
    "parent (nodes c 0) = None" "node_value (nodes c 0) = Some []"
    by (cases events; auto simp: radix_init_def bind_r_eq_Inr reset_def new_tree_node_def
        record_all_cleared_event_def tree_node_init_def upd_node_def)+
  then show "rc_wf c" using assms(2) by (intro rc_wfI [of _ "\<lambda>_. 0"]) auto
  show "kids c (root_node c) = []" "page_size c = ps" "disable c = dis" "is_eagle c = eagle"
    "evictable_size c = 0" "protected_size c = 0" "counter c = 1" "root_node c = 0" using c by simp_all
qed

end
