(* ===== verification/Radix_Lock.thy ===== *)
theory Radix_Lock
  imports Radix_Match
begin

text \<open>
  Reference counts and sizes of the radix cache. The lock counter of a node is the number of locks
  held at or below it; the evictable and protected sizes are the tokens of the unlocked and of the
  locked nodes; the slots of the tree are those of its nodes. Matching, inserting, locking and
  unlocking keep these equations.
\<close>

section \<open>Definitions\<close>

inductive reach :: "radix_cache \<Rightarrow> nat \<Rightarrow> nat \<Rightarrow> bool" for c a where
  reach_self: "reach c a a"
| reach_step: "reach c a n \<Longrightarrow> (k, m) \<in> set (kids c n) \<Longrightarrow> reach c a m"

definition live :: "radix_cache \<Rightarrow> nat set" where
  "live c = {n. reach c (root_node c) n \<and> n \<noteq> root_node c}"

text \<open>The nodes from \<open>n\<close> up to, but without, the root.\<close>

inductive chain :: "radix_cache \<Rightarrow> nat \<Rightarrow> nat list \<Rightarrow> bool" for c where
  chain_root: "chain c (root_node c) []"
| chain_step: "chain c p ns \<Longrightarrow> (k, m) \<in> set (kids c p) \<Longrightarrow> chain c m (m # ns)"

definition lock_inv :: "radix_cache \<Rightarrow> nat multiset \<Rightarrow> bool" where
  "lock_inv c L \<longleftrightarrow> set_mset L \<subseteq> Set.insert (root_node c) (live c) \<and> (\<forall>n \<in> live c. lock_ref (nodes c n) = int (size {#m \<in># L. reach c n m#}))"

definition live_sum :: "radix_cache \<Rightarrow> (tree_node \<Rightarrow> 'a::comm_monoid_add) \<Rightarrow> 'a" where
  "live_sum c f = (\<Sum>n \<in> live c. f (nodes c n))"

definition node_len :: "tree_node \<Rightarrow> int" where
  "node_len n = int (key_len (key n))"

definition unlocked_len :: "tree_node \<Rightarrow> int" where
  "unlocked_len n = (if lock_ref n = 0 then node_len n else 0)"

definition locked_len :: "tree_node \<Rightarrow> int" where
  "locked_len n = (if lock_ref n = 0 then 0 else node_len n)"

definition node_slots :: "tree_node \<Rightarrow> int multiset" where
  "node_slots n = (case node_value n of None \<Rightarrow> {#} | Some v \<Rightarrow> mset v)"

definition size_inv :: "radix_cache \<Rightarrow> bool" where
  "size_inv c \<longleftrightarrow> evictable_size c = live_sum c unlocked_len \<and> protected_size c = live_sum c locked_len"

abbreviation tree_slots :: "radix_cache \<Rightarrow> int multiset" where
  "tree_slots c \<equiv> live_sum c node_slots"

text \<open>The invariant of the cache with the locks \<open>L\<close> held by its clients.\<close>

definition rc_inv :: "radix_cache \<Rightarrow> nat multiset \<Rightarrow> bool" where
  "rc_inv c L \<longleftrightarrow> rc_wf c \<and> lock_inv c L \<and> size_inv c \<and> lock_ref (nodes c (root_node c)) = 1"

text \<open>A change of the lock counters only.\<close>

definition relocks :: "radix_cache \<Rightarrow> radix_cache \<Rightarrow> (nat \<Rightarrow> int) \<Rightarrow> bool" where
  "relocks c c' lk \<longleftrightarrow> conf c' = conf c \<and> counter c' = counter c \<and>
     (\<forall>n. shape_of (nodes c' n) = shape_of (nodes c n\<lparr>lock_ref := lk n\<rparr>))"

definition touched_locks :: "radix_cache \<Rightarrow> radix_cache \<Rightarrow> bool" where
  "touched_locks c c' \<longleftrightarrow> (\<exists>lk. relocks c c' lk)"

section \<open>Reachability\<close>

lemma reach_trans: "reach c b d \<Longrightarrow> reach c a b \<Longrightarrow> reach c a d"
  by (induction rule: reach.induct) (auto intro: reach_step)

lemma reach_head: "reach c a b \<Longrightarrow> a = b \<or> (\<exists>k m. (k, m) \<in> set (kids c a) \<and> reach c m b)"
  by (induction rule: reach.induct) (auto intro: reach_step reach_self)

lemma path_reach: "path c x a b ts vs \<Longrightarrow> reach c a b"
proof (induction rule: path.induct)
  case (path_cons k m a v b ts vs)
  then show ?case using reach_trans reach_step [OF reach_self] by blast
qed (rule reach_self)

lemma reach_counter: "reach c a b \<Longrightarrow> rc_wf c \<Longrightarrow> a < counter c \<Longrightarrow> b < counter c"
  by (induction rule: reach.induct) (auto dest: wf_edgeD(2))

lemma live_bound: "rc_wf c \<Longrightarrow> live c \<subseteq> {..<counter c}"
  using reach_counter rc_wfD(2) by (auto simp: live_def)

lemma finite_live [simp]: "rc_wf c \<Longrightarrow> finite (live c)"
  using live_bound finite_subset by blast

lemma live_edge:
  assumes "rc_wf c" and "reach c (root_node c) n" and "(k, m) \<in> set (kids c n)"
  shows "m \<in> live c"
  using assms wf_edgeD(3) by (auto simp: live_def intro: reach_step)

lemma live_parent:
  assumes "rc_wf c" and "m \<in> live c"
  obtains p k where "reach c (root_node c) p" "(k, m) \<in> set (kids c p)" "parent (nodes c m) = Some p"
proof -
  from assms(2) have "reach c (root_node c) m" "m \<noteq> root_node c" by (auto simp: live_def)
  then obtain p k where "reach c (root_node c) p" "(k, m) \<in> set (kids c p)"
    by (auto elim: reach.cases)
  then show thesis using that wf_edgeD(4) [OF assms(1)] by blast
qed

lemma reach_kids_cong: "reach c a b \<Longrightarrow> (\<And>n. kids c' n = kids c n) \<Longrightarrow> reach c' a b"
proof (induction rule: reach.induct)
  case (reach_step n k m)
  then show ?case using reach.reach_step [of c' a n k m] by simp
qed (rule reach_self)

lemma reach_depth:
  fixes depth :: "nat \<Rightarrow> nat"
  assumes "\<And>n k m. (k, m) \<in> set (kids c n) \<Longrightarrow> depth n < depth m"
  shows "reach c a b \<Longrightarrow> a = b \<or> depth a < depth b"
proof (induction rule: reach.induct)
  case (reach_step n k m)
  then show ?case using assms [OF reach_step.hyps(2)] by auto
qed simp

lemma reach_antisym: "rc_wf c \<Longrightarrow> reach c a b \<Longrightarrow> reach c b a \<Longrightarrow> a = b"
proof -
  assume "rc_wf c" and ab: "reach c a b" and ba: "reach c b a"
  then obtain depth :: "nat \<Rightarrow> nat" where depth: "\<And>n k m. (k, m) \<in> set (kids c n) \<Longrightarrow> depth n < depth m"
    using rc_wf_depth by blast
  have "a = b \<or> depth a < depth b" by (rule reach_depth [OF depth ab])
  moreover have "b = a \<or> depth b < depth a" by (rule reach_depth [OF depth ba])
  ultimately show "a = b" by auto
qed

section \<open>Chains\<close>

lemma chain_reach: "chain c n ns \<Longrightarrow> reach c (root_node c) n"
  by (induction rule: chain.induct) (auto intro: reach.intros)

lemma reach_chain: "reach c (root_node c) n \<Longrightarrow> \<exists>ns. chain c n ns"
  by (induction rule: reach.induct) (auto intro: chain.intros)

lemma chain_set:
  assumes wf: "rc_wf c" shows "chain c n ns \<Longrightarrow> set ns = {a \<in> live c. reach c a n}"
proof (induction rule: chain.induct)
  case chain_root
  have False if "a \<in> live c" "reach c a (root_node c)" for a
    using reach_antisym [OF wf, of a "root_node c"] that by (auto simp: live_def)
  then show ?case by auto
next
  case (chain_step p ns k m)
  have "m \<in> live c" using live_edge [OF wf chain_reach] chain_step.hyps by blast
  moreover have "reach c a m \<longleftrightarrow> a = m \<or> reach c a p" for a
  proof
    assume "reach c a m"
    then show "a = m \<or> reach c a p"
    proof cases
      case (reach_step n k')
      then show ?thesis using wf_edge_unique(1) [OF wf chain_step.hyps(2)] by blast
    qed simp
  qed (use chain_step.hyps(2) in \<open>auto intro: reach.intros\<close>)
  ultimately show ?case using chain_step.IH by auto
qed

lemma chain_distinct:
  assumes wf: "rc_wf c" shows "chain c n ns \<Longrightarrow> distinct ns"
proof (induction rule: chain.induct)
  case (chain_step p ns k m)
  have "m \<notin> set ns"
  proof
    assume "m \<in> set ns"
    then have "reach c m p" using chain_set [OF wf chain_step.hyps(1)] by auto
    then have "m = p" using reach_antisym [OF wf] reach_step [OF reach_self chain_step.hyps(2)] by blast
    then show False using edge_irrefl [OF wf chain_step.hyps(2)] by simp
  qed
  then show ?case using chain_step.IH by simp
qed simp

lemma chain_length:
  assumes wf: "rc_wf c" and "chain c n ns" shows "length ns < counter c"
proof -
  have "set ns \<subseteq> {..<counter c} - {root_node c}"
    using chain_set [OF assms] live_bound [OF wf] by (auto simp: live_def)
  then have "card (set ns) \<le> card ({..<counter c} - {root_node c})" by (intro card_mono) auto
  then show ?thesis using chain_distinct [OF assms] rc_wfD(2) [OF wf] by (simp add: distinct_card)
qed

lemma chain_parent:
  assumes "rc_wf c" and "chain c n ns" and "n \<noteq> root_node c"
  obtains p ns' where "ns = n # ns'" "chain c p ns'" "parent (nodes c n) = Some p"
  using assms(2,3)
proof cases
  case (chain_step p ns' k)
  then show thesis using that wf_edgeD(4) [OF assms(1)] by blast
qed simp

section \<open>Sums over the tree\<close>

lemma touches_live: "touches c c' \<Longrightarrow> live c' = live c"
proof -
  assume t: "touches c c'"
  have "reach c' a b \<longleftrightarrow> reach c a b" for a b
    using reach_kids_cong [of c a b c'] reach_kids_cong [of c' a b c] touchesD(1) [OF t] by auto
  then show ?thesis by (simp add: live_def touchesD(8) [OF t])
qed

lemma splits_reach:
  assumes wf: "rc_wf c" and sp: "splits c c' p k ch len"
  shows "reach c a b \<Longrightarrow> reach c' a b"
    and "reach c' a b \<Longrightarrow> (if a = counter c then b = counter c \<or> reach c ch b
      else if b = counter c then reach c a p else reach c a b)"
proof -
  note sk = splits_kids(1) [OF wf sp] and e = splitsD(4) [OF sp]
  have down: "reach c' p ch"
  proof -
    obtain rk where "(rk, ch) \<in> set (kids c' (counter c))" using sk sp by (auto simp: splits_def)
    moreover have "(k, counter c) \<in> set (kids c' p)" using sk by blast
    ultimately show ?thesis using reach.intros by blast
  qed
  show "reach c a b \<Longrightarrow> reach c' a b"
  proof (induction rule: reach.induct)
    case (reach_step n k0 m)
    show ?case
    proof (cases "m = ch")
      case True
      then have "n = p" using wf_edge_unique(1) [OF wf e] reach_step.hyps(2) by blast
      then show ?thesis using reach_trans [OF down] reach_step.IH True by simp
    next
      case False
      then show ?thesis using reach.reach_step [OF reach_step.IH] sk reach_step.hyps(2) by blast
    qed
  qed (rule reach_self)
  show "reach c' a b \<Longrightarrow> (if a = counter c then b = counter c \<or> reach c ch b
      else if b = counter c then reach c a p else reach c a b)"
  proof (induction rule: reach.induct)
    case reach_self
    then show ?case by (simp add: reach.reach_self)
  next
    case (reach_step n k0 m)
    from reach_step.hyps(2) consider "n = counter c" "m = ch" | "n = p" "m = counter c"
      | "(k0, m) \<in> set (kids c n)" "m \<noteq> ch" unfolding sk by blast
    then show ?case
    proof cases
      case 1
      then show ?thesis using reach_step.IH splits_nodes(3) [OF wf sp] reach.intros e
        by (auto split: if_splits)
    next
      case 2
      then show ?thesis using reach_step.IH splits_nodes(2) [OF wf sp] by (auto split: if_splits)
    next
      case 3
      have nm: "n \<noteq> counter c" "m \<noteq> counter c" using wf_edgeD(1,2) [OF wf 3(1)] by auto
      then have "if a = counter c then reach c ch n else reach c a n"
        using reach_step.IH by (simp split: if_splits)
      then show ?thesis using reach.reach_step [OF _ 3(1)] nm by (simp split: if_splits)
    qed
  qed
qed

lemma splits_reach_iff:
  assumes wf: "rc_wf c" and sp: "splits c c' p k ch len" and b: "b \<noteq> counter c"
  shows "reach c' a b \<longleftrightarrow> (if a = counter c then reach c ch b else reach c a b)"
proof -
  obtain rk where "(rk, ch) \<in> set (kids c' (counter c))"
    using splits_kids(1) [OF wf sp] sp by (auto simp: splits_def)
  then have "reach c' (counter c) ch" using reach.intros by blast
  then have "reach c ch b \<Longrightarrow> reach c' (counter c) b" using splits_reach(1) [OF wf sp] reach_trans by blast
  moreover have "reach c' a b \<Longrightarrow> if a = counter c then reach c ch b else reach c a b"
    using splits_reach(2) [OF wf sp, of a b] b by (simp split: if_splits)
  moreover have "reach c a b \<Longrightarrow> reach c' a b" by (rule splits_reach(1) [OF wf sp])
  ultimately show ?thesis by (cases "a = counter c") auto
qed

lemma splits_live:
  assumes wf: "rc_wf c" and sp: "splits c c' p k ch len"
  shows "live c' = (if ch \<in> live c then Set.insert (counter c) (live c) else live c)"
    and "counter c \<notin> live c"
proof -
  show new: "counter c \<notin> live c" using live_bound [OF wf] by auto
  have r: "root_node c' = root_node c" "root_node c \<noteq> counter c"
    using splitsD(9) [OF sp] rc_wfD(2) [OF wf] by auto
  have old: "n \<in> live c' \<longleftrightarrow> n \<in> live c" if "n \<noteq> counter c" for n
    using splits_reach_iff [OF wf sp that] r by (auto simp: live_def)
  have "reach c (root_node c) ch \<longleftrightarrow> reach c (root_node c) p"
  proof
    assume "reach c (root_node c) ch"
    then show "reach c (root_node c) p"
    proof cases
      case reach_self
      then show ?thesis using splits_nodes(4) [OF wf sp] by simp
    next
      case (reach_step n k0)
      then show ?thesis using wf_edge_unique(1) [OF wf splitsD(4) [OF sp]] by blast
    qed
  qed (use splitsD(4) [OF sp] in \<open>blast intro: reach_step\<close>)
  moreover have "(k, counter c) \<in> set (kids c' p)" using splits_kids(1) [OF wf sp] by blast
  ultimately have "counter c \<in> live c' \<longleftrightarrow> ch \<in> live c"
    using splits_reach [OF wf sp, of "root_node c"] r splits_nodes(4) [OF wf sp]
    by (auto simp: live_def split: if_splits intro: reach_step)
  then have "n \<in> live c' \<longleftrightarrow> n \<in> (if ch \<in> live c then Set.insert (counter c) (live c) else live c)" for n
    using old [of n] new by (cases "n = counter c") auto
  then show "live c' = (if ch \<in> live c then Set.insert (counter c) (live c) else live c)" by blast
qed

lemma splits_live_sum:
  assumes wf: "rc_wf c" and sp: "splits c c' p k ch len"
    and add: "f (nodes c' (counter c)) + f (nodes c' ch) = f (nodes c ch)"
    and same: "\<And>n. n \<notin> {counter c, ch} \<Longrightarrow> f (nodes c' n) = f (nodes c n)"
  shows "live_sum c' f = live_sum c f"
proof (cases "ch \<in> live c")
  case True
  note new = splits_live(2) [OF wf sp] and fin = finite_live [OF wf]
  have "live_sum c' f = f (nodes c' (counter c)) + (\<Sum>n \<in> live c. f (nodes c' n))"
    using True new fin by (simp add: live_sum_def splits_live(1) [OF wf sp])
  also have "(\<Sum>n \<in> live c. f (nodes c' n)) = f (nodes c' ch) + (\<Sum>n \<in> live c - {ch}. f (nodes c' n))"
    using True fin by (simp add: sum.remove)
  also have "(\<Sum>n \<in> live c - {ch}. f (nodes c' n)) = (\<Sum>n \<in> live c - {ch}. f (nodes c n))"
    using same new by (intro sum.cong refl) (metis DiffE empty_iff insert_iff)
  also have "f (nodes c' (counter c)) + (f (nodes c' ch) + (\<Sum>n \<in> live c - {ch}. f (nodes c n)))
      = f (nodes c ch) + (\<Sum>n \<in> live c - {ch}. f (nodes c n))"
    by (simp only: add add.assoc [symmetric])
  also have "\<dots> = live_sum c f" unfolding live_sum_def by (rule sum.remove [OF fin True, symmetric])
  finally show ?thesis .
next
  case False
  then show ?thesis
    unfolding live_sum_def splits_live(1) [OF wf sp] using same splits_live(2) [OF wf sp]
    by (simp only: if_False) (intro sum.cong refl, metis empty_iff insert_iff)
qed

lemma live_sum_cong:
  "live c' = live c \<Longrightarrow> (\<And>n. n \<in> live c \<Longrightarrow> f (nodes c' n) = f (nodes c n)) \<Longrightarrow> live_sum c' f = live_sum c f"
  by (simp add: live_sum_def)

lemma shape_fun_cong:
  assumes "shape_of m = shape_of n"
  shows "unlocked_len m = unlocked_len n" "locked_len m = locked_len n" "node_slots m = node_slots n"
  using shape_of_eqD [OF assms] by (simp_all add: unlocked_len_def locked_len_def node_len_def node_slots_def)

lemma tree_step_live_sums:
  assumes "tree_step c c'" and wf: "rc_wf c"
  shows "live_sum c' unlocked_len = live_sum c unlocked_len"
    "live_sum c' locked_len = live_sum c locked_len" "tree_slots c' = tree_slots c"
  using assms(1)
proof (atomize (full), cases)
  case step_touch
  then have "shape_of (nodes c' n) = shape_of (nodes c n)" for n by (simp add: touches_def)
  then show "live_sum c' unlocked_len = live_sum c unlocked_len \<and>
    live_sum c' locked_len = live_sum c locked_len \<and> tree_slots c' = tree_slots c"
    by (intro conjI live_sum_cong [OF touches_live [OF step_touch]] shape_fun_cong)
next
  case (step_split p k ch len)
  note sn = splits_nodes [OF wf step_split] and d = splitsD [OF step_split]
  obtain v where v: "node_value (nodes c ch) = Some v" "length v = length (toks c ch)"
    using wf_edgeD(8) [OF wf d(4)] by blast
  have "unlocked_len (nodes c' n) = unlocked_len (nodes c n)" "locked_len (nodes c' n) = locked_len (nodes c n)"
    "node_slots (nodes c' n) = node_slots (nodes c n)" if "n \<notin> {counter c, ch}" for n
    using that sn by (simp_all add: unlocked_len_def locked_len_def node_len_def node_slots_def)
  moreover have
    "unlocked_len (nodes c' (counter c)) + unlocked_len (nodes c' ch) = unlocked_len (nodes c ch)"
    "locked_len (nodes c' (counter c)) + locked_len (nodes c' ch) = locked_len (nodes c ch)"
    "node_slots (nodes c' (counter c)) + node_slots (nodes c' ch) = node_slots (nodes c ch)"
    using sn(3,5,7,8) d(6) v
    by (simp_all add: unlocked_len_def locked_len_def node_len_def node_slots_def flip: mset_append)
  ultimately show "live_sum c' unlocked_len = live_sum c unlocked_len \<and>
    live_sum c' locked_len = live_sum c locked_len \<and> tree_slots c' = tree_slots c"
    by (intro conjI splits_live_sum [OF wf step_split]) simp_all
qed

lemma lock_invD:
  assumes "lock_inv c L"
  shows "m \<in># L \<Longrightarrow> m = root_node c \<or> m \<in> live c"
    "n \<in> live c \<Longrightarrow> lock_ref (nodes c n) = int (size {#m \<in># L. reach c n m#})"
  using assms by (auto simp: lock_inv_def)

lemma lock_invI:
  assumes "\<And>m. m \<in># L \<Longrightarrow> m = root_node c \<or> m \<in> live c"
    "\<And>n. n \<in> live c \<Longrightarrow> lock_ref (nodes c n) = int (size {#m \<in># L. reach c n m#})"
  shows "lock_inv c L"
  using assms by (auto simp: lock_inv_def)

lemma touches_reach: "touches c c' \<Longrightarrow> reach c' a b \<longleftrightarrow> reach c a b"
  using reach_kids_cong [of c a b c'] reach_kids_cong [of c' a b c] touchesD(1) by metis

lemma tree_step_lock_inv:
  assumes "tree_step c c'" and wf: "rc_wf c" and inv: "lock_inv c L"
  shows "lock_inv c' L"
  using assms(1)
proof cases
  case step_touch
  then show ?thesis
    using inv by (simp add: lock_inv_def touches_live touches_reach touchesD)
next
  case (step_split p k ch len)
  note sn = splits_nodes [OF wf step_split] and ri = splits_reach_iff [OF wf step_split]
    and lv = splits_live [OF wf step_split]
  have root: "root_node c' = root_node c" using splitsD(9) [OF step_split] .
  have L: "m \<noteq> counter c" if "m \<in># L" for m
    using lock_invD(1) [OF inv that] rc_wfD(2) [OF wf] lv(2) by auto
  have cong: "{#m \<in># L. reach c' n m#} = {#m \<in># L. reach c (if n = counter c then ch else n) m#}" for n
    using L ri by (intro filter_mset_cong refl) auto
  show ?thesis
  proof (rule lock_invI)
    fix m assume "m \<in># L"
    then show "m = root_node c' \<or> m \<in> live c'" using lock_invD(1) [OF inv] root lv(1) by auto
  next
    fix n assume n: "n \<in> live c'"
    then have "(if n = counter c then ch else n) \<in> live c" using lv by (auto split: if_splits)
    from lock_invD(2) [OF inv this] show "lock_ref (nodes c' n) = int (size {#m \<in># L. reach c' n m#})"
      using sn(8) [of n] cong by (auto split: if_splits)
  qed
qed

lemma tree_step_root_lock:
  assumes "tree_step c c'" and wf: "rc_wf c"
  shows "lock_ref (nodes c' (root_node c')) = lock_ref (nodes c (root_node c))"
  using assms(1)
proof cases
  case step_touch
  then show ?thesis by (simp add: touchesD)
next
  case (step_split p k ch len)
  then show ?thesis
    using splitsD(9) [OF step_split] splits_nodes(8) [OF wf step_split, of "root_node c"] rc_wfD(2) [OF wf] by simp
qed

lemma reshapes_inv: "reshapes c c' \<Longrightarrow> rc_inv c L \<Longrightarrow> rc_inv c' L \<and> tree_slots c' = tree_slots c"
proof (induction rule: rtranclp_induct)
  case (step c1 c2)
  then have inv: "rc_inv c1 L" by simp
  then have wf: "rc_wf c1" by (simp add: rc_inv_def)
  note sums = tree_step_live_sums [OF step.hyps(2) wf]
  have "sizes c2 = sizes c1" using tree_step_conf [OF step.hyps(2)] by simp
  then have "size_inv c2" using inv sums by (simp add: size_inv_def rc_inv_def sizes_def)
  with inv show ?case
    using tree_step_lock_inv [OF step.hyps(2) wf] tree_step_wf [OF step.hyps(2) wf] sums(3)
      tree_step_root_lock [OF step.hyps(2) wf] step by (simp add: rc_inv_def)
qed simp

section \<open>Adding a leaf\<close>

lemma adds_leaf_reach:
  assumes wf: "rc_wf c" and ad: "adds_leaf c c' p k v"
  shows "reach c' a b \<longleftrightarrow> reach c a b \<or> (b = counter c \<and> reach c a p)"
proof
  assume "reach c' a b"
  then show "reach c a b \<or> (b = counter c \<and> reach c a p)"
  proof (induction rule: reach.induct)
    case (reach_step n k0 m)
    from reach_step.hyps(2) consider "(k0, m) \<in> set (kids c n)" | "n = p" "m = counter c"
      unfolding adds_leaf_kids(1) [OF wf ad] by blast
    then show ?case
    proof cases
      case 1
      then have "n \<noteq> counter c" using wf_edgeD(1) [OF wf 1] by simp
      then show ?thesis using reach_step.IH reach.reach_step [OF _ 1] by blast
    next
      case 2
      then have "n \<noteq> counter c" using adds_leafD(3) [OF ad] by simp
      then show ?thesis using reach_step.IH 2 by blast
    qed
  qed (simp add: reach_self)
next
  have old: "reach c a b \<Longrightarrow> reach c' a b" for b
  proof (induction rule: reach.induct)
    case (reach_step n k0 m)
    then show ?case using reach.reach_step [of c' a n k0 m] adds_leaf_kids(1) [OF wf ad] by blast
  qed (rule reach_self)
  assume "reach c a b \<or> (b = counter c \<and> reach c a p)"
  moreover obtain k0 where "get_child_key k (page_size c) = Inr k0" using ad unfolding adds_leaf_def by blast
  then have "(k0, counter c) \<in> set (kids c' p)" using adds_leaf_kids(1) [OF wf ad] by blast
  ultimately show "reach c' a b" using old reach_step by blast
qed

lemma adds_leaf_inv:
  assumes inv: "rc_inv c L" and ad: "adds_leaf c c' p k v" and p: "reach c (root_node c) p"
  shows "rc_inv c' L" "tree_slots c' = tree_slots c + mset v" "live c' = Set.insert (counter c) (live c)"
proof -
  have wf: "rc_wf c" and li: "lock_inv c L" and si: "size_inv c" using inv by (simp_all add: rc_inv_def)
  note ar = adds_leaf_reach [OF wf ad] and an = adds_leaf_nodes [OF ad] and d = adds_leafD [OF ad]
  have new: "counter c \<notin> live c" "root_node c \<noteq> counter c" using live_bound [OF wf] rc_wfD(2) [OF wf] by auto
  show lv: "live c' = Set.insert (counter c) (live c)"
    using ar p new d(8) by (auto simp: live_def)
  have sum: "live_sum c' f = f (nodes c' (counter c)) + live_sum c f"
    if "\<And>n. n \<noteq> counter c \<Longrightarrow> f (nodes c' n) = f (nodes c n)" for f :: "tree_node \<Rightarrow> 'b::comm_monoid_add"
  proof -
    have "(\<Sum>n \<in> live c. f (nodes c' n)) = (\<Sum>n \<in> live c. f (nodes c n))"
      using that new(1) by (intro sum.cong refl) metis
    then show ?thesis using new(1) finite_live [OF wf] by (simp add: live_sum_def lv)
  qed
  have "tree_slots c' = node_slots (nodes c' (counter c)) + tree_slots c"
    by (rule sum) (use an in \<open>simp add: node_slots_def\<close>)
  then show "tree_slots c' = tree_slots c + mset v" using an(3) by (simp add: node_slots_def)
  have "live_sum c' unlocked_len = unlocked_len (nodes c' (counter c)) + live_sum c unlocked_len"
    "live_sum c' locked_len = locked_len (nodes c' (counter c)) + live_sum c locked_len"
    by (rule sum, use an in \<open>simp add: unlocked_len_def locked_len_def node_len_def\<close>)+
  then have "size_inv c'"
    using si an d(9,10) by (simp add: size_inv_def unlocked_len_def locked_len_def node_len_def)
  moreover have "lock_inv c' L"
  proof (rule lock_invI)
    fix m assume "m \<in># L"
    then show "m = root_node c' \<or> m \<in> live c'" using lock_invD(1) [OF li] d(8) lv by auto
  next
    fix n assume n: "n \<in> live c'"
    have L: "m \<noteq> counter c" if "m \<in># L" for m using lock_invD(1) [OF li that] new by auto
    have eq: "{#m \<in># L. reach c' n m#} = {#m \<in># L. reach c n m#}"
      using L ar by (intro filter_mset_cong refl) auto
    show "lock_ref (nodes c' n) = int (size {#m \<in># L. reach c' n m#})"
    proof (cases "n = counter c")
      case True
      have "\<not> reach c (counter c) m" if "m \<in># L" for m
        using reach_head [of c "counter c" m] kids_fresh [OF wf, of "counter c"] L [OF that] by auto
      then have "{#m \<in># L. reach c n m#} = {#}" using True by (auto simp: filter_mset_eq_conv)
      then show ?thesis using True an(4) eq by simp
    next
      case False
      then show ?thesis using n lv lock_invD(2) [OF li, of n] an(4) eq by simp
    qed
  qed
  moreover have "lock_ref (nodes c' (root_node c')) = 1" using inv an(4) d(8) new(2) by (simp add: rc_inv_def)
  ultimately show "rc_inv c' L" using adds_leaf_wf [OF wf ad] by (simp add: rc_inv_def)
qed

section \<open>Changing locks\<close>

lemma relocksD:
  assumes "relocks c c' lk"
  shows "kids c' n = kids c n" "parent (nodes c' n) = parent (nodes c n)"
    "key (nodes c' n) = key (nodes c n)" "node_value (nodes c' n) = node_value (nodes c n)"
    "lock_ref (nodes c' n) = lk n" "counter c' = counter c" "conf c' = conf c"
    "page_size c' = page_size c" "root_node c' = root_node c" "disable c' = disable c"
  using assms conf_eqD [of c' c] by (auto simp: relocks_def shape_of_def)

lemma relocks_wf: "relocks c c' lk \<Longrightarrow> rc_wf c' \<longleftrightarrow> rc_wf c"
  by (simp add: rc_wf_def wf_edge_def relocksD)

lemma relocks_reach: "relocks c c' lk \<Longrightarrow> reach c' a b \<longleftrightarrow> reach c a b"
  using reach_kids_cong [of c a b c'] reach_kids_cong [of c' a b c] relocksD(1) by metis

lemma relocks_live: "relocks c c' lk \<Longrightarrow> live c' = live c"
  by (simp add: live_def relocks_reach relocksD)

lemma relocks_slots: "relocks c c' lk \<Longrightarrow> tree_slots c' = tree_slots c"
  by (rule live_sum_cong) (simp_all add: relocks_live node_slots_def relocksD)

lemma relocks_chain: "chain c n ns \<Longrightarrow> relocks c c' lk \<Longrightarrow> chain c' n ns"
proof (induction rule: chain.induct)
  case chain_root
  then show ?case using chain.chain_root [of c'] by (simp add: relocksD)
next
  case (chain_step p ns k m)
  then show ?case using chain.chain_step [of c' p ns k m] by (simp add: relocksD)
qed

lemma relocks_trans:
  "relocks c c1 lk1 \<Longrightarrow> relocks c1 c2 lk2 \<Longrightarrow> relocks c c2 lk2"
  by (simp add: relocks_def shape_of_def)

text \<open>The tokens that change sides when the nodes of a chain are locked or unlocked.\<close>

definition moved :: "radix_cache \<Rightarrow> int \<Rightarrow> nat list \<Rightarrow> int" where
  "moved c r ns = (\<Sum>n \<leftarrow> ns. if lock_ref (nodes c n) = r then node_len (nodes c n) else 0)"

lemma moved_relocks:
  assumes "relocks c c' lk" and "\<And>n. n \<in> set ns \<Longrightarrow> lk n = lock_ref (nodes c n)"
  shows "moved c' r ns = moved c r ns"
proof -
  have "map (\<lambda>n. if lock_ref (nodes c' n) = r then node_len (nodes c' n) else 0) ns
      = map (\<lambda>n. if lock_ref (nodes c n) = r then node_len (nodes c n) else 0) ns"
    using assms by (intro map_cong refl) (simp add: relocksD node_len_def)
  then show ?thesis by (simp only: moved_def)
qed

text \<open>One step of the walk to the root: \<open>s\<close> is 1 for locking (of nodes with count 0) and -1 for
  unlocking (of nodes with count 1).\<close>

definition relock_node :: "int \<Rightarrow> int \<Rightarrow> nat \<Rightarrow> radix_cache \<Rightarrow> radix_cache" where
  "relock_node r s n c = (let len = s * moved c r [n] in
     upd_node (c\<lparr>evictable_size := evictable_size c - len, protected_size := protected_size c + len\<rparr>)
       n (\<lambda>x. x\<lparr>lock_ref := lock_ref x + s\<rparr>))"

lemma relock_node_relocks:
  "relocks c (relock_node r s n c) (\<lambda>a. lock_ref (nodes c a) + (if a = n then s else 0))"
  by (auto simp: relocks_def relock_node_def Let_def shape_of_def)

lemma relock_node_sizes:
  "evictable_size (relock_node r s n c) = evictable_size c - s * moved c r [n]"
  "protected_size (relock_node r s n c) = protected_size c + s * moved c r [n]"
  by (simp_all add: relock_node_def Let_def)

lemma moved_Cons: "moved c r (n # ns) = moved c r [n] + moved c r ns"
  by (simp add: moved_def)

lemma moved_relock_node: "n \<notin> set ns \<Longrightarrow> moved (relock_node r s n c) r' ns = moved c r' ns"
  by (rule moved_relocks [OF relock_node_relocks]) auto

lemma fold_relock_node:
  assumes "distinct ns"
  shows "relocks c (fold (relock_node r s) ns c)
      (\<lambda>a. lock_ref (nodes c a) + (if a \<in> set ns then s else 0)) \<and>
    evictable_size (fold (relock_node r s) ns c) = evictable_size c - s * moved c r ns \<and>
    protected_size (fold (relock_node r s) ns c) = protected_size c + s * moved c r ns"
  using assms
proof (induction ns arbitrary: c)
  case Nil
  then show ?case by (simp add: relocks_def shape_of_def moved_def)
next
  case (Cons n ns)
  let ?c1 = "relock_node r s n c"
  have n: "n \<notin> set ns" "distinct ns" using Cons.prems by auto
  note rl = relock_node_relocks [of c r s n] and IH = Cons.IH [OF n(2), of ?c1]
  have "(\<lambda>a. lock_ref (nodes ?c1 a) + (if a \<in> set ns then s else 0))
      = (\<lambda>a. lock_ref (nodes c a) + (if a \<in> set (n # ns) then s else 0))"
    using n(1) relocksD(5) [OF rl] by (auto simp: fun_eq_iff)
  then have "relocks c (fold (relock_node r s) (n # ns) c)
      (\<lambda>a. lock_ref (nodes c a) + (if a \<in> set (n # ns) then s else 0))"
    using relocks_trans [OF rl] IH by simp
  moreover have "moved c r (n # ns) = moved c r [n] + moved ?c1 r ns"
    using moved_relock_node [OF n(1)] moved_Cons by metis
  ultimately show ?case using IH by (simp add: relock_node_sizes algebra_simps)
qed

lemma chain_root_nil: "rc_wf c \<Longrightarrow> chain c (root_node c) ns \<Longrightarrow> ns = []"
  by (auto elim: chain.cases dest: wf_edgeD(3))

lemma chain_nil: "chain c n [] \<Longrightarrow> n = root_node c"
  by (auto elim: chain.cases)

lemma inc_lock_loop_fold:
  assumes "rc_wf c" and "chain c n ns" and "length ns \<le> fuel"
  shows "inc_lock_loop fuel c (Some n) d = Inr (d - moved c 0 ns, fold (relock_node 0 1) ns c)"
  using assms
proof (induct ns arbitrary: c n fuel d)
  case Nil
  then show ?case using chain_nil [of c n] by (subst inc_lock_loop.simps) (simp add: moved_def)
next
  case (Cons m ns)
  have root: "n \<noteq> root_node c" using chain_root_nil [OF Cons.prems(1)] Cons.prems(2) by auto
  then obtain p where p: "m = n" "chain c p ns" "parent (nodes c n) = Some p"
    using chain_parent [OF Cons.prems(1,2)] by auto
  obtain fuel' where fuel: "fuel = Suc fuel'" "length ns \<le> fuel'" using Cons.prems(3) by (cases fuel) auto
  let ?c1 = "relock_node 0 1 n c"
  note rl = relock_node_relocks [of c 0 1 n]
  have nin: "n \<notin> set ns" using chain_distinct [OF Cons.prems(1,2)] p(1) by simp
  have "inc_lock_loop fuel c (Some n) d = inc_lock_loop fuel' ?c1 (Some p) (d - moved c 0 [n])"
    using root p(3) fuel(1) by (subst inc_lock_loop.simps)
      (simp add: relock_node_def moved_def node_len_def Let_def upd_node_def)
  also have "\<dots> = Inr (d - moved c 0 [n] - moved ?c1 0 ns, fold (relock_node 0 1) ns ?c1)"
    using Cons.hyps [OF _ relocks_chain [OF p(2) rl] fuel(2)] relocks_wf [OF rl] Cons.prems(1) by simp
  finally show ?case using moved_relock_node [OF nin] moved_Cons [of c 0 n ns] p(1) by (simp add: algebra_simps)
qed

lemma dec_lock_loop_fold:
  assumes "rc_wf c" and "chain c n ns" and "length ns \<le> fuel"
  shows "dec_lock_loop fuel c n d = Inr (d + moved c 1 ns, fold (relock_node 1 (-1)) ns c)"
  using assms
proof (induct ns arbitrary: c n fuel d)
  case Nil
  then show ?case using chain_nil [of c n] by (subst dec_lock_loop.simps) (simp add: moved_def)
next
  case (Cons m ns)
  have root: "n \<noteq> root_node c" using chain_root_nil [OF Cons.prems(1)] Cons.prems(2) by auto
  then obtain p where p: "m = n" "chain c p ns" "parent (nodes c n) = Some p"
    using chain_parent [OF Cons.prems(1,2)] by auto
  obtain fuel' where fuel: "fuel = Suc fuel'" "length ns \<le> fuel'" using Cons.prems(3) by (cases fuel) auto
  let ?c1 = "relock_node 1 (-1) n c"
  note rl = relock_node_relocks [of c 1 "-1" n]
  have nin: "n \<notin> set ns" using chain_distinct [OF Cons.prems(1,2)] p(1) by simp
  have "dec_lock_loop fuel c n d = dec_lock_loop fuel' ?c1 p (d + moved c 1 [n])"
    using root p(3) fuel(1) by (subst dec_lock_loop.simps)
      (simp add: relock_node_def moved_def node_len_def Let_def upd_node_def)
  also have "\<dots> = Inr (d + moved c 1 [n] + moved ?c1 1 ns, fold (relock_node 1 (-1)) ns ?c1)"
    using Cons.hyps [OF _ relocks_chain [OF p(2) rl] fuel(2)] relocks_wf [OF rl] Cons.prems(1) by simp
  finally show ?case using moved_relock_node [OF nin] moved_Cons [of c 1 n ns] p(1) by (simp add: algebra_simps)
qed

section \<open>Locking and unlocking keep the invariant\<close>

lemma live_sum_moved:
  assumes wf: "rc_wf c" and ch: "chain c n ns"
  shows "(\<Sum>a \<in> live c. if reach c a n \<and> lock_ref (nodes c a) = r then node_len (nodes c a) else 0) = moved c r ns"
proof -
  let ?f = "\<lambda>a. if lock_ref (nodes c a) = r then node_len (nodes c a) else 0"
  have "(\<Sum>a \<in> live c. if reach c a n \<and> lock_ref (nodes c a) = r then node_len (nodes c a) else 0)
      = (\<Sum>a \<in> {a \<in> live c. reach c a n}. ?f a)"
    using finite_live [OF wf] by (simp add: sum.inter_filter if_conn(1))
  also have "\<dots> = moved c r ns"
    using chain_set [OF wf ch] sum_list_distinct_conv_sum_set [OF chain_distinct [OF wf ch], of ?f]
    by (simp add: moved_def)
  finally show ?thesis .
qed

lemma relock_inv:
  assumes inv: "rc_inv c L" and ch: "chain c n ns"
    and L': "(r = 0 \<and> s = 1 \<and> L' = add_mset n L) \<or> (r = 1 \<and> s = -1 \<and> L = add_mset n L')"
  shows "rc_inv (fold (relock_node r s) ns c) L'" (is "rc_inv ?c L'")
proof -
  have wf: "rc_wf c" and li: "lock_inv c L" and si: "size_inv c" using inv by (simp_all add: rc_inv_def)
  note fr = fold_relock_node [OF chain_distinct [OF wf ch], of c r s]
  then have rl: "relocks c ?c (\<lambda>a. lock_ref (nodes c a) + (if a \<in> set ns then s else 0))" by blast
  have lk: "lock_ref (nodes ?c a) = lock_ref (nodes c a) + (if reach c a n then s else 0)" if "a \<in> live c" for a
    using relocksD(5) [OF rl, of a] chain_set [OF wf ch] that by simp
  have nl: "node_len (nodes ?c a) = node_len (nodes c a)" for a using relocksD(3) [OF rl] by (simp add: node_len_def)
  have n: "n = root_node c \<or> n \<in> live c" using chain_reach [OF ch] by (auto simp: live_def)
  have cnt: "int (size {#m \<in># L'. reach c a m#}) = int (size {#m \<in># L. reach c a m#}) + (if reach c a n then s else 0)" for a
    using L' by auto
  have "lock_inv ?c L'"
  proof (rule lock_invI)
    fix m assume "m \<in># L'"
    then have "m = n \<or> m \<in># L" using L' by auto
    then show "m = root_node ?c \<or> m \<in> live ?c" using n lock_invD(1) [OF li] relocks_live [OF rl] relocksD [OF rl] by auto
  next
    fix a assume "a \<in> live ?c"
    then have a: "a \<in> live c" using relocks_live [OF rl] by simp
    show "lock_ref (nodes ?c a) = int (size {#m \<in># L'. reach ?c a m#})"
      unfolding relocks_reach [OF rl] lk [OF a] cnt lock_invD(2) [OF li a] by (rule refl)
  qed
  moreover have "size_inv ?c"
  proof -
    let ?d = "\<lambda>a. if reach c a n \<and> lock_ref (nodes c a) = r then node_len (nodes c a) else 0"
    have pos: "0 \<le> lock_ref (nodes c a)" "s = -1 \<Longrightarrow> reach c a n \<Longrightarrow> 0 < lock_ref (nodes c a)" if "a \<in> live c" for a
      using lock_invD(2) [OF li that] L' by auto
    have un: "unlocked_len (nodes ?c a) = unlocked_len (nodes c a) - s * ?d a"
      and lo: "locked_len (nodes ?c a) = locked_len (nodes c a) + s * ?d a" if "a \<in> live c" for a
      using pos [OF that] L' lk [OF that] nl by (auto simp: unlocked_len_def locked_len_def)
    have "live_sum ?c unlocked_len = live_sum c unlocked_len - s * moved c r ns"
      "live_sum ?c locked_len = live_sum c locked_len + s * moved c r ns"
      unfolding live_sum_def relocks_live [OF rl] live_sum_moved [OF wf ch, symmetric] sum_distrib_left
        sum_subtractf [symmetric] sum.distrib [symmetric]
      by (intro sum.cong refl un lo; assumption)+
    then show ?thesis using si fr by (simp add: size_inv_def)
  qed
  moreover have "root_node c \<notin> set ns" using chain_set [OF wf ch] by (simp add: live_def)
  then have "lock_ref (nodes ?c (root_node ?c)) = 1" using inv relocksD [OF rl] by (simp add: rc_inv_def)
  ultimately show ?thesis using relocks_wf [OF rl] wf by (simp add: rc_inv_def)
qed

lemma chain_ex:
  assumes "n = root_node c \<or> n \<in> live c" obtains ns where "chain c n ns"
  using assms reach_chain [of c n] reach_self by (auto simp: live_def)

lemma inc_lock_ref_fold:
  assumes "rc_wf c" and "chain c n ns" and "\<not> disable c"
  shows "inc_lock_ref c n = Inr (- moved c 0 ns, fold (relock_node 0 1) ns c)"
  using inc_lock_loop_fold [OF assms(1,2)] chain_length [OF assms(1,2)] assms(3) by (simp add: inc_lock_ref_def)

lemma dec_lock_ref_fold:
  assumes "rc_wf c" and "chain c n ns" and "\<not> disable c"
  shows "dec_lock_ref c n = Inr (moved c 1 ns, fold (relock_node 1 (-1)) ns c)"
  using dec_lock_loop_fold [OF assms(1,2)] chain_length [OF assms(1,2)] assms(3) by (simp add: dec_lock_ref_def)

lemma fold_relock_keeps:
  assumes "rc_wf c" and "chain c n ns"
  shows "touched_locks c (fold (relock_node r s) ns c)"
  using fold_relock_node [OF chain_distinct [OF assms], of c r s] by (auto simp: touched_locks_def)

lemma inc_lock_ref_spec:
  assumes inv: "rc_inv c L" and n: "n = root_node c \<or> n \<in> live c" and en: "\<not> disable c"
  obtains c' where "inc_lock_ref c n = Inr (evictable_size c' - evictable_size c, c')"
    "rc_inv c' (add_mset n L)" "touched_locks c c'"
proof -
  obtain ns where ch: "chain c n ns" using chain_ex [OF n] .
  have wf: "rc_wf c" using inv by (simp add: rc_inv_def)
  show thesis
  proof (rule that)
    show "inc_lock_ref c n = Inr (evictable_size (fold (relock_node 0 1) ns c) - evictable_size c, fold (relock_node 0 1) ns c)"
      using inc_lock_ref_fold [OF wf ch en] fold_relock_node [OF chain_distinct [OF wf ch], of c 0 1] by simp
    show "rc_inv (fold (relock_node 0 1) ns c) (add_mset n L)" by (rule relock_inv [OF inv ch]) simp
  qed (rule fold_relock_keeps [OF wf ch])
qed

lemma dec_lock_ref_spec:
  assumes inv: "rc_inv c (add_mset n L)" and en: "\<not> disable c"
  obtains c' where "dec_lock_ref c n = Inr (evictable_size c' - evictable_size c, c')"
    "rc_inv c' L" "touched_locks c c'"
proof -
  have wf: "rc_wf c" and "n = root_node c \<or> n \<in> live c"
    using inv lock_invD(1) [of c "add_mset n L" n] by (simp_all add: rc_inv_def)
  then obtain ns where ch: "chain c n ns" using chain_ex by metis
  show thesis
  proof (rule that)
    show "dec_lock_ref c n = Inr (evictable_size (fold (relock_node 1 (-1)) ns c) - evictable_size c, fold (relock_node 1 (-1)) ns c)"
      using dec_lock_ref_fold [OF wf ch en] fold_relock_node [OF chain_distinct [OF wf ch], of c 1 "-1"] by simp
    show "rc_inv (fold (relock_node 1 (-1)) ns c) L" by (rule relock_inv [OF inv ch]) simp
  qed (rule fold_relock_keeps [OF wf ch])
qed

text \<open>Holding a lock keeps a node out of the unlocked part of the tree.\<close>

lemma locked_pos:
  assumes "rc_inv c L" and "m \<in># L" and "reach c a m" and "a \<in> live c"
  shows "0 < lock_ref (nodes c a)"
proof -
  have "m \<in># {#m \<in># L. reach c a m#}" using assms(2,3) by simp
  then have "0 < size {#m \<in># L. reach c a m#}" by (metis empty_not_add_mset multi_member_split nonempty_has_size)
  then show ?thesis using assms(1,4) lock_invD(2) [of c L a] by (simp add: rc_inv_def)
qed

section \<open>The content is independent of the locks\<close>

lemma relocks_path: "relocks c c' lk \<Longrightarrow> path c x a b ts vs \<Longrightarrow> path c' x a b ts vs"
proof (rotate_tac, induction rule: path.induct)
  case (path_cons k m a v b ts vs)
  then show ?case using path.path_cons [of k m c' a x v b ts vs] by (simp add: relocksD)
qed (rule path_nil)

lemma relocks_sym: "relocks c c' lk \<Longrightarrow> relocks c' c (\<lambda>n. lock_ref (nodes c n))"
  by (simp add: relocks_def shape_of_def)

lemma relocks_stored: "relocks c c' lk \<Longrightarrow> stored_from c' x a ts vs \<longleftrightarrow> stored_from c x a ts vs"
  unfolding stored_from_def using relocks_path relocks_sym by metis

lemma touched_locksD:
  assumes "touched_locks c c'"
  shows "live c' = live c" "tree_slots c' = tree_slots c" "conf c' = conf c" "root_node c' = root_node c"
    "stored_from c' x a ts vs \<longleftrightarrow> stored_from c x a ts vs" "reach c' a b \<longleftrightarrow> reach c a b"
  using assms by (auto simp: touched_locks_def relocks_live relocks_slots relocksD relocks_stored relocks_reach)

section \<open>Matching and inserting keep the invariant\<close>

lemma match_prefix_inv:
  assumes inv: "rc_inv c L" and m: "match_prefix c k = Inr (vs, n, c')"
  shows "rc_inv c' L" "tree_slots c' = tree_slots c" "conf c' = conf c" "n = root_node c' \<or> n \<in> live c'"
    "stored c' x ts us \<longleftrightarrow> stored c x ts us"
proof -
  have wf: "rc_wf c" using inv by (simp add: rc_inv_def)
  from match_prefix_spec [OF wf, of k] m have rs: "reshapes c c'"
    and n: "n = root_node c \<or> reach c' (root_node c) n" by (auto simp: path_reach split: if_splits)
  show "rc_inv c' L" "tree_slots c' = tree_slots c" using reshapes_inv [OF rs inv] by simp_all
  show cf: "conf c' = conf c" using reshapes_conf [OF rs] by simp
  show "n = root_node c' \<or> n \<in> live c'" using n conf_eqD(5) [OF cf] by (auto simp: live_def)
  show "stored c' x ts us \<longleftrightarrow> stored c x ts us"
    using reshapes_stored_from [OF rs wf rc_wfD(2) [OF wf]] conf_eqD(5) [OF cf] by simp
qed

lemma insert_inv:
  fixes c :: radix_cache and k0 :: radix_key and V :: "int list"
  defines "K \<equiv> key_convert_fn c (token_ids k0)" and "W \<equiv> insert_value c k0 V"
  assumes inv: "rc_inv c L" and en: "\<not> disable c" and K: "page_size c dvd length K" and W: "length W = length K"
    and ins: "rc_insert c k0 (Some V) = Inr (m, c')"
  shows "rc_inv c' L" "tree_slots c' = tree_slots c + mset (drop m W)"
proof -
  have wf: "rc_wf c" using inv by (simp add: rc_inv_def)
  from insert_spec [OF wf en K [unfolded K_def] W [unfolded K_def W_def], folded K_def W_def] ins
  obtain vs c1 n where r: "m = length vs" "reshapes c c1" "path c1 (extra_key k0) (root_node c) n (take m K) vs"
    "if m = length K then c' = c1
     else adds_leaf c1 c' n \<lparr>token_ids = drop m K, extra_key = extra_key k0\<rparr> (drop m W)" by auto
  note inv1 = reshapes_inv [OF r(2) inv]
  have root: "root_node c1 = root_node c" using reshapes_conf [OF r(2)] conf_eqD(5) by blast
  have "rc_inv c' L \<and> tree_slots c' = tree_slots c + mset (drop m W)"
  proof (cases "m = length K")
    case True
    then show ?thesis using r(4) inv1 W by simp
  next
    case False
    then have ad: "adds_leaf c1 c' n \<lparr>token_ids = drop m K, extra_key = extra_key k0\<rparr> (drop m W)" using r(4) by simp
    show ?thesis
      using adds_leaf_inv [OF conjunct1 [OF inv1] ad] path_reach [OF r(3)] root inv1 by simp
  qed
  then show "rc_inv c' L" "tree_slots c' = tree_slots c + mset (drop m W)" by simp_all
qed

lemma radix_init_inv:
  assumes init: "radix_init ps dis events policy eagle clk h = Inr c" and "0 < ps"
  shows "rc_inv c {#}" "live c = {}" "tree_slots c = {#}"
proof -
  note i = radix_init_spec [OF assms]
  have "n = root_node c" if "reach c (root_node c) n" for n
    using reach_head [OF that] i(2) by simp
  then show live: "live c = {}" by (auto simp: live_def)
  then show "tree_slots c = {#}" by (simp add: live_sum_def)
  have "lock_ref (nodes c (root_node c)) = 1"
    using init by (cases events) (auto simp: radix_init_def bind_r_eq_Inr reset_def new_tree_node_def
        record_all_cleared_event_def tree_node_init_def upd_node_def)
  then show "rc_inv c {#}" using i live by (simp add: rc_inv_def lock_inv_def size_inv_def live_sum_def)
qed

end
