(* ===== verification/Radix_Evict.thy ===== *)
theory Radix_Evict
  imports Radix_Lock
begin

text \<open>
  Eviction from the radix cache. An abstract eviction removes unlocked leaves one at a time, each of
  least rank among the unlocked leaves of its moment; the loop over the heap refines it, always ends,
  and frees the demanded tokens or everything that is not locked.
\<close>

section \<open>Definitions\<close>

definition unlocked_leaves :: "radix_cache \<Rightarrow> nat set" where
  "unlocked_leaves c = {n \<in> live c. kids c n = [] \<and> lock_ref (nodes c n) = 0}"

definition evict_rank :: "radix_cache \<Rightarrow> nat \<Rightarrow> (int \<times> int) \<times> int" where
  "evict_rank c n = entry_rank c (heap_entry c n)"

inductive evict_run :: "radix_cache \<Rightarrow> nat list \<Rightarrow> radix_cache \<Rightarrow> bool" where
  evict_nil: "evict_run c [] c"
| evict_cons: "x \<in> unlocked_leaves c \<Longrightarrow> (\<And>y. y \<in> unlocked_leaves c \<Longrightarrow> evict_rank c x \<le> evict_rank c y) \<Longrightarrow>
    removes_leaf c c1 p k x \<Longrightarrow> evict_run c1 xs c' \<Longrightarrow> evict_run c (x # xs) c'"

definition slots_of :: "radix_cache \<Rightarrow> nat \<Rightarrow> int list" where
  "slots_of c n = (case node_value (nodes c n) of None \<Rightarrow> [] | Some v \<Rightarrow> v)"

definition under :: "radix_cache \<Rightarrow> nat list \<Rightarrow> nat set" where
  "under c S = {m. \<exists>n \<in> set S. reach c n m}"

definition apart :: "radix_cache \<Rightarrow> nat list \<Rightarrow> bool" where
  "apart c S \<longleftrightarrow> distinct S \<and> (\<forall>a \<in> set S. \<forall>b \<in> set S. reach c a b \<longrightarrow> a = b)"

section \<open>Collecting the leaves\<close>

lemma reach_parent: "rc_wf c \<Longrightarrow> reach c a m \<Longrightarrow> (k, m) \<in> set (kids c n) \<Longrightarrow> a = m \<or> reach c a n"
  by (erule reach.cases) (auto dest: wf_edge_unique(1))

lemma kids_distinct: "rc_wf c \<Longrightarrow> distinct (map snd (kids c n))"
proof -
  assume wf: "rc_wf c"
  have "inj_on snd (set (kids c n))"
    using wf_edge_unique(2) [OF wf] by (auto simp: inj_on_def)
  moreover have "distinct (kids c n)" using rc_wfD(5) [OF wf, of n] by (simp add: distinct_map)
  ultimately show ?thesis by (simp add: distinct_map)
qed

lemma under_append: "under c (S @ T) = under c S \<union> under c T"
  by (auto simp: under_def)

lemma under_node: "under c [n] = Set.insert n (under c (map snd (kids c n)))"
  using reach_head [of c n] reach_trans reach_step [OF reach_self] by (fastforce simp: under_def intro: reach_self)

lemma not_under_kids: "rc_wf c \<Longrightarrow> n \<notin> under c (map snd (kids c n))"
proof
  assume wf: "rc_wf c" and "n \<in> under c (map snd (kids c n))"
  then obtain k m where e: "(k, m) \<in> set (kids c n)" "reach c m n" by (auto simp: under_def)
  then have "m = n" using reach_antisym [OF wf e(2)] reach_step [OF reach_self e(1)] by simp
  moreover obtain depth :: "nat \<Rightarrow> nat" where "\<And>n k m. (k, m) \<in> set (kids c n) \<Longrightarrow> depth n < depth m"
    using rc_wf_depth [OF wf] by blast
  ultimately show False using e(1) by (metis less_irrefl)
qed

lemma apart_pop:
  assumes wf: "rc_wf c" and ap: "apart c (S @ [n])"
  shows "apart c (S @ map snd (kids c n))" "n \<notin> under c (S @ map snd (kids c n))"
proof -
  have S: "distinct S" "n \<notin> set S" and inc: "\<And>a b. a \<in> set (S @ [n]) \<Longrightarrow> b \<in> set (S @ [n]) \<Longrightarrow> reach c a b \<Longrightarrow> a = b"
    using ap by (auto simp: apart_def)
  have kid: "reach c n m" "m \<noteq> n" if "(k, m) \<in> set (kids c n)" for k m
    using reach_step [OF reach_self that] not_under_kids [OF wf, of n] that
    by (auto simp: under_def intro: reach_self)
  have up: "a = m" if "a \<in> set S" "(k, m) \<in> set (kids c n)" "reach c a m" for a k m
    using reach_parent [OF wf that(3,2)] inc [of a n] that(1) S(2) by auto
  have no: "\<not> reach c m b" if "(k, m) \<in> set (kids c n)" "b \<in> set S" for k m b
    using reach_trans [OF _ kid(1) [OF that(1)], of b] inc [of n b] that(2) S(2) by auto
  have sib: "m = m'" if "(k, m) \<in> set (kids c n)" "(k', m') \<in> set (kids c n)" "reach c m m'" for k m k' m'
    using reach_parent [OF wf that(3,2)] reach_antisym [OF wf _ kid(1) [OF that(1)]] kid(2) [OF that(1)] by auto
  have "a = b" if "a \<in> set (S @ map snd (kids c n))" "b \<in> set (S @ map snd (kids c n))" "reach c a b" for a b
  proof -
    let ?kid = "\<lambda>m. \<exists>k. (k, m) \<in> set (kids c n)"
    have "a \<in> set S \<or> ?kid a" "b \<in> set S \<or> ?kid b" using that(1,2) by force+
    then show ?thesis using that(3) inc [of a b] up [of a _ b] no [of _ a b] sib [of _ a _ b] by (metis Un_iff set_append)
  qed
  moreover have "set S \<inter> set (map snd (kids c n)) = {}" using no reach_self by fastforce
  ultimately show "apart c (S @ map snd (kids c n))"
    using S(1) kids_distinct [OF wf, of n] unfolding apart_def by auto
  have "n \<notin> under c S" using inc [of _ n] S(2) by (auto simp: under_def)
  then show "n \<notin> under c (S @ map snd (kids c n))"
    using not_under_kids [OF wf] by (simp add: under_append)
qed

lemma finite_under: "rc_wf c \<Longrightarrow> set S \<subseteq> {..<counter c} \<Longrightarrow> finite (under c S)"
  by (rule finite_subset [of _ "{..<counter c}"]) (auto simp: under_def intro: reach_counter)

lemma kids_bound: "rc_wf c \<Longrightarrow> set (map snd (kids c n)) \<subseteq> {..<counter c}"
  using wf_edgeD(2) [of c] by auto

lemma collect_loop_spec:
  assumes wf: "rc_wf c" and "apart c stack" and "set stack \<subseteq> {..<counter c}" and "card (under c stack) \<le> fuel"
  shows "\<exists>ls. collect_loop fuel c stack ret = Inr (ret @ ls) \<and> distinct ls \<and>
    set ls = {m \<in> under c stack. kids c m = [] \<and> lock_ref (nodes c m) = 0}"
  using assms(2-)
proof (induction fuel arbitrary: stack ret)
  case 0
  then have "under c stack = {}" using finite_under [OF wf] by simp
  then have "stack = []" using reach_self by (auto simp: under_def) (metis all_not_in_conv set_empty)
  then show ?case by (subst collect_loop.simps) (auto simp: under_def)
next
  case (Suc fuel)
  show ?case
  proof (cases stack rule: rev_exhaust)
    case Nil
    then show ?thesis by (subst collect_loop.simps) (auto simp: under_def)
  next
    case (snoc S n)
    let ?T = "S @ map snd (kids c n)"
    note pop = apart_pop [OF wf Suc.prems(1) [unfolded snoc]]
    have bl: "under c stack = Set.insert n (under c ?T)"
      using under_node [of c n] by (simp add: snoc under_append)
    have T: "set ?T \<subseteq> {..<counter c}" using Suc.prems(2) kids_bound [OF wf, of n] by (simp add: snoc)
    then have "card (under c ?T) \<le> fuel"
      using Suc.prems(3) pop(2) finite_under [OF wf T] by (simp add: bl)
    note IH = Suc.IH [OF pop(1) T this]
    let ?r = "if kids c n = [] \<and> lock_ref (nodes c n) = 0 then [n] else []"
    have "collect_loop (Suc fuel) c stack ret = collect_loop fuel c ?T (ret @ ?r)"
      by (subst collect_loop.simps) (simp add: snoc)
    moreover from IH obtain ls where ls: "collect_loop fuel c ?T (ret @ ?r) = Inr ((ret @ ?r) @ ls)" "distinct ls"
      "set ls = {m \<in> under c ?T. kids c m = [] \<and> lock_ref (nodes c m) = 0}" by blast
    ultimately show ?thesis using pop(2) by (intro exI [of _ "?r @ ls"]) (auto simp: bl)
  qed
qed

lemma under_root: "rc_wf c \<Longrightarrow> under c (map snd (kids c (root_node c))) = live c"
  using not_under_kids [of c "root_node c"] under_node [of c "root_node c"]
  by (auto simp: live_def under_def)

lemma collect_leaves_spec:
  assumes wf: "rc_wf c"
  shows "\<exists>ls. collect_leaves c = Inr ls \<and> distinct ls \<and> set ls = unlocked_leaves c"
proof -
  have "apart c ([] @ map snd (kids c (root_node c)))"
    by (rule apart_pop [OF wf]) (simp add: apart_def)
  moreover have "card (live c) \<le> counter c"
    using card_mono [OF _ live_bound [OF wf]] by simp
  ultimately show ?thesis
    using collect_loop_spec [OF wf, of "map snd (kids c (root_node c))" "counter c" "[]"] kids_bound [OF wf]
    by (simp add: under_root [OF wf] collect_leaves_def unlocked_leaves_def)
qed

section \<open>Removing one leaf\<close>

lemma removes_leaf_reach:
  assumes wf: "rc_wf c" and rl: "removes_leaf c c' p k x"
  shows "reach c' a b \<longleftrightarrow> reach c a b \<and> (b \<noteq> x \<or> a = x)"
proof
  note rk = removes_leaf_kids(1) [OF wf rl]
  assume "reach c' a b"
  then show "reach c a b \<and> (b \<noteq> x \<or> a = x)"
  proof (induction rule: reach.induct)
    case (reach_step n k0 m)
    then show ?case unfolding rk using reach.reach_step [of c a n k0 m] by blast
  qed (simp add: reach_self)
next
  note rk = removes_leaf_kids(1) [OF wf rl]
  have "reach c a b \<Longrightarrow> b \<noteq> x \<or> a = x \<Longrightarrow> reach c' a b"
  proof (induction rule: reach.induct)
    case (reach_step n k0 m)
    have n: "n \<noteq> x" using reach_step.hyps(2) removes_leafD(4) [OF rl] by auto
    show ?case
    proof (cases "m = x")
      case True
      then show ?thesis using reach_step.prems reach_self by auto
    next
      case False
      then show ?thesis using reach_step n rk reach.reach_step [of c' a n k0 m] by blast
    qed
  qed (rule reach_self)
  then show "reach c a b \<and> (b \<noteq> x \<or> a = x) \<Longrightarrow> reach c' a b" by blast
qed

lemma removes_leaf_live:
  assumes wf: "rc_wf c" and rl: "removes_leaf c c' p k x"
  shows "live c' = live c - {x}"
  using removes_leaf_reach [OF wf rl] removes_leafD(6) [OF rl] wf_edgeD(3) [OF wf removes_leafD(3) [OF rl]]
  by (auto simp: live_def)

lemma live_sum_remove:
  assumes wf: "rc_wf c" and rl: "removes_leaf c c' p k x" and x: "x \<in> live c"
    and f: "\<And>n. f (nodes c' n) = f (nodes c n)"
  shows "live_sum c f = live_sum c' f + f (nodes c x)"
  using sum.remove [OF finite_live [OF wf] x, of "\<lambda>n. f (nodes c n)"]
  by (simp add: live_sum_def removes_leaf_live [OF wf rl] f add.commute)

lemma removes_leaf_inv:
  assumes inv: "rc_inv c L" and rl: "removes_leaf c c' p k x" and x: "x \<in> unlocked_leaves c"
  shows "rc_inv c' L" "tree_slots c = tree_slots c' + mset (slots_of c x)"
proof -
  have wf: "rc_wf c" and li: "lock_inv c L" and si: "size_inv c" using inv by (simp_all add: rc_inv_def)
  have xl: "x \<in> live c" "lock_ref (nodes c x) = 0" using x by (simp_all add: unlocked_leaves_def)
  note rn = removes_leaf_nodes [OF rl] and d = removes_leafD [OF rl] and rr = removes_leaf_reach [OF wf rl]
    and lv = removes_leaf_live [OF wf rl]
  note sum = live_sum_remove [OF wf rl xl(1)]
  have nl: "x \<notin># L" using locked_pos [OF inv _ reach_self xl(1)] xl(2) by auto
  have "tree_slots c = tree_slots c' + node_slots (nodes c x)"
    by (rule sum) (simp add: node_slots_def rn)
  then show "tree_slots c = tree_slots c' + mset (slots_of c x)"
    by (simp add: node_slots_def slots_of_def split: option.splits)
  have "live_sum c unlocked_len = live_sum c' unlocked_len + unlocked_len (nodes c x)"
    "live_sum c locked_len = live_sum c' locked_len + locked_len (nodes c x)"
    by (rule sum, simp add: unlocked_len_def locked_len_def node_len_def rn)+
  then have "size_inv c'"
    using si d(7,8) xl(2) by (simp add: size_inv_def unlocked_len_def locked_len_def node_len_def)
  moreover have "lock_inv c' L"
  proof (rule lock_invI)
    fix m assume "m \<in># L"
    then show "m = root_node c' \<or> m \<in> live c'" using lock_invD(1) [OF li] nl lv d(6) by auto
  next
    fix n assume n: "n \<in> live c'"
    have "{#m \<in># L. reach c' n m#} = {#m \<in># L. reach c n m#}"
      using nl rr by (intro filter_mset_cong refl) auto
    then show "lock_ref (nodes c' n) = int (size {#m \<in># L. reach c' n m#})"
      using n lv lock_invD(2) [OF li, of n] rn(4) by simp
  qed
  ultimately show "rc_inv c' L" using removes_leaf_wf [OF wf rl] rn(4) d(6) inv by (simp add: rc_inv_def)
qed

lemma removes_leaf_unlocked:
  assumes inv: "rc_inv c L" and rl: "removes_leaf c c' p k x" and x: "x \<in> unlocked_leaves c"
  shows "unlocked_leaves c' = unlocked_leaves c - {x} \<union>
    (if kids c' p = [] \<and> lock_ref (nodes c' p) = 0 then {p} else {})"
    and "p \<notin> unlocked_leaves c"
proof -
  have wf: "rc_wf c" using inv by (simp add: rc_inv_def)
  note rn = removes_leaf_nodes [OF rl] and lv = removes_leaf_live [OF wf rl] and d = removes_leafD [OF rl]
  have kn: "kids c' n = kids c n" if "n \<noteq> p" for n
    using rl that by (auto simp: removes_leaf_def intro: shape_of_eqD(1))
  have "parent (nodes c x) = Some p" using wf_edgeD(4) [OF wf d(3)] .
  then have p: "reach c (root_node c) p"
    using live_parent [OF wf, of x] x by (auto simp: unlocked_leaves_def)
  have px: "p \<noteq> x" using d(3,4) by auto
  have root: "lock_ref (nodes c (root_node c)) = 1" using inv by (simp add: rc_inv_def)
  have other: "n \<in> unlocked_leaves c' \<longleftrightarrow> n \<in> unlocked_leaves c \<and> n \<noteq> x" if "n \<noteq> p" for n
    using that lv kn rn(4) by (auto simp: unlocked_leaves_def)
  have new: "p \<in> unlocked_leaves c' \<longleftrightarrow> kids c' p = [] \<and> lock_ref (nodes c' p) = 0"
    using lv p px root rn(4) by (auto simp: unlocked_leaves_def live_def)
  show pl: "p \<notin> unlocked_leaves c" using d(3) by (auto simp: unlocked_leaves_def)
  show "unlocked_leaves c' = unlocked_leaves c - {x} \<union>
    (if kids c' p = [] \<and> lock_ref (nodes c' p) = 0 then {p} else {})" (is "_ = ?R")
  proof (rule set_eqI)
    fix n show "n \<in> unlocked_leaves c' \<longleftrightarrow> n \<in> ?R" using other [of n] new pl by (cases "n = p") auto
  qed
qed

lemma record_remove_sizes [simp]:
  "evictable_size (record_remove_event c n) = evictable_size c"
  "protected_size (record_remove_event c n) = protected_size c"
  by (simp_all add: record_remove_event_def)

lemma find_child_ok: "(k, n) \<in> set kvs \<Longrightarrow> \<exists>k'. find_child kvs n = Inr k' \<and> (k', n) \<in> set kvs"
  by (induction kvs n rule: find_child.induct) auto

lemma delete_leaf_spec:
  assumes wf: "rc_wf c" and x: "x \<in> live c" "kids c x = []"
  obtains c1 p k where "delete_leaf c x = Inr c1" "parent (nodes c1 x) = Some p"
    "removes_leaf c (record_remove_event c1 x) p k x" "entry_rank c1 = entry_rank c" "heap_entry c1 = heap_entry c"
proof -
  obtain p k0 where p: "(k0, x) \<in> set (kids c p)" "parent (nodes c x) = Some p" using live_parent [OF wf x(1)] by metis
  obtain k where k: "find_child (kids c p) x = Inr k" "(k, x) \<in> set (kids c p)" using find_child_ok [OF p(1)] by blast
  have px: "p \<noteq> x" using p(1) x(2) by auto
  define c1 where "c1 = upd_node c p (\<lambda>x. x\<lparr>children := AList.delete k (children x)\<rparr>)
    \<lparr>evictable_size := evictable_size c - int (key_len (key (nodes c x)))\<rparr>"
  have "delete_leaf c x = Inr c1" using p k px by (simp add: delete_leaf_def c1_def Let_def)
  moreover have "get_priority s (n\<lparr>children := cs\<rparr>) = get_priority s n" for s n cs by (cases s) simp_all
  then have "entry_rank c1 = entry_rank c" "heap_entry c1 = heap_entry c"
    by (auto simp: c1_def entry_rank_def heap_entry_def fun_eq_iff)
  ultimately show thesis
    using that [of c1 p k] p px k(2) x(2) by (simp add: c1_def removes_leaf_def shape_of_def)
qed

lemma record_remove_ranks:
  "entry_rank (record_remove_event c n) = entry_rank c" "heap_entry (record_remove_event c n) = heap_entry c"
  by (simp_all add: fun_eq_iff entry_rank_def heap_entry_def record_remove_event_def)

section \<open>The abstract eviction\<close>

lemma slots_of_live: "rc_wf c \<Longrightarrow> n \<in> live c \<Longrightarrow> get_value c n = Inr (slots_of c n) \<and> length (slots_of c n) = length (toks c n)"
  using live_parent [of c n] wf_edgeD(8) [of c _ n] by (metis get_value_def option.simps(5) slots_of_def)

lemma evict_run_spec:
  assumes "evict_run c xs c'" and "rc_inv c L"
  shows "rc_inv c' L \<and> conf c' = conf c \<and> live c' = live c - set xs \<and> distinct xs \<and> set xs \<subseteq> live c \<and>
    (\<forall>x \<in> set xs. lock_ref (nodes c x) = 0) \<and>
    tree_slots c = tree_slots c' + mset (concat (map (slots_of c) xs)) \<and>
    evictable_size c' = evictable_size c - int (length (concat (map (slots_of c) xs))) \<and>
    protected_size c' = protected_size c"
  using assms
proof (induction rule: evict_run.induct)
  case (evict_cons x c c1 p k xs c')
  have wf: "rc_wf c" using evict_cons.prems by (simp add: rc_inv_def)
  note rm = removes_leaf_inv [OF evict_cons.prems evict_cons.hyps(3,1)]
    and lv = removes_leaf_live [OF wf evict_cons.hyps(3)] and rn = removes_leaf_nodes [OF evict_cons.hyps(3)]
  have xl: "x \<in> live c" "lock_ref (nodes c x) = 0" using evict_cons.hyps(1) by (simp_all add: unlocked_leaves_def)
  have sl: "slots_of c1 = slots_of c" using rn(3) by (simp add: slots_of_def fun_eq_iff)
  note IH = evict_cons.IH [OF rm(1), unfolded sl lv rn(4)]
  have "evictable_size c1 = evictable_size c - int (length (slots_of c x))"
    using removes_leafD(8) [OF evict_cons.hyps(3)] slots_of_live [OF wf xl(1)] by simp
  then show ?case
    using IH rm(2) xl removes_leafD(1,7) [OF evict_cons.hyps(3)] by (auto simp: ac_simps)
qed simp

text \<open>Nothing that is stored appears or changes, and a path to a locked node stays.\<close>

lemma evict_run_content:
  assumes "evict_run c xs c'" and "rc_inv c L"
  shows "(\<forall>a b ts vs. path c' x a b ts vs \<longrightarrow> path c x a b ts vs) \<and>
    (\<forall>a b ts vs. path c x a b ts vs \<longrightarrow> b \<notin> set xs \<longrightarrow> path c' x a b ts vs)"
  using assms
proof (induction rule: evict_run.induct)
  case (evict_cons y c c1 p k xs c')
  have wf: "rc_wf c" using evict_cons.prems by (simp add: rc_inv_def)
  note pt = removes_leaf_path [OF wf evict_cons.hyps(3)]
  from evict_cons.IH [OF removes_leaf_inv(1) [OF evict_cons.prems evict_cons.hyps(3,1)]] show ?case
    using pt by (metis list.set_intros)
qed simp

lemma unlocked_under:
  assumes inv: "rc_inv c L" and "a \<in> live c" "lock_ref (nodes c a) = 0" and "reach c a b"
  shows "b \<in> live c \<and> lock_ref (nodes c b) = 0"
proof -
  have li: "lock_inv c L" and wf: "rc_wf c" using inv by (simp_all add: rc_inv_def)
  have "reach c (root_node c) b" using assms(2,4) reach_trans by (auto simp: live_def)
  moreover have "b \<noteq> root_node c"
    using reach_antisym [OF wf assms(4)] assms(2) by (auto simp: live_def)
  ultimately have b: "b \<in> live c" by (simp add: live_def)
  have "\<not> reach c a m" if "m \<in># L" for m using locked_pos [OF inv that _ assms(2)] assms(3) by auto
  then have "\<not> reach c b m" if "m \<in># L" for m using that reach_trans [OF _ assms(4)] by blast
  then show ?thesis using b lock_invD(2) [OF li b] by simp
qed

lemma leaf_under:
  assumes wf: "rc_wf c" shows "\<exists>b. reach c a b \<and> kids c b = []"
proof -
  obtain depth :: "nat \<Rightarrow> nat" where depth: "\<And>n k m. (k, m) \<in> set (kids c n) \<Longrightarrow> depth n < depth m"
    using rc_wf_depth [OF wf] by blast
  have fin: "finite (under c [a] - {a})"
    by (rule finite_subset [of _ "{..<counter c}"])
      (use wf_edgeD(2) [OF wf] in \<open>auto simp: under_def elim: reach.cases\<close>)
  have fin': "finite {b. reach c a b}" 
    by (rule finite_subset [OF _ finite.insertI [OF fin, of a]]) (auto simp: under_def)
  have "Max (depth ` {b. reach c a b}) \<in> depth ` {b. reach c a b}"
    using fin' reach_self [of c a] by (intro Max_in) auto
  then obtain b where b: "reach c a b" "depth b = Max (depth ` {b. reach c a b})" by auto
  then have max: "depth b' \<le> depth b" if "reach c a b'" for b' using fin' that by simp
  have "kids c b = []"
  proof (rule ccontr)
    assume "kids c b \<noteq> []"
    then obtain k m where "(k, m) \<in> set (kids c b)" by (cases "kids c b") auto
    then show False using depth max [OF reach_step [OF b(1)]] by (metis leD)
  qed
  with b(1) show ?thesis by blast
qed

lemma no_unlocked_leaves:
  assumes inv: "rc_inv c L" and none: "unlocked_leaves c = {}"
  shows "evictable_size c = 0" "\<And>n. n \<in> live c \<Longrightarrow> lock_ref (nodes c n) \<noteq> 0"
proof -
  have wf: "rc_wf c" using inv by (simp add: rc_inv_def)
  show lk: "lock_ref (nodes c n) \<noteq> 0" if "n \<in> live c" for n
    using leaf_under [OF wf, of n] unlocked_under [OF inv that] none by (auto simp: unlocked_leaves_def)
  then have "live_sum c unlocked_len = 0" by (simp add: live_sum_def unlocked_len_def)
  then show "evictable_size c = 0" using inv by (simp add: rc_inv_def size_inv_def)
qed

section \<open>The loop refines the abstract eviction\<close>

definition heap_inv :: "radix_cache \<Rightarrow> ((int \<times> int) \<times> nat) list \<Rightarrow> bool" where
  "heap_inv c heap \<longleftrightarrow> heap_ge (entry_rank c) 0 heap \<and>
     mset heap = image_mset (heap_entry c) (mset_set (unlocked_leaves c))"

lemma finite_unlocked: "rc_wf c \<Longrightarrow> finite (unlocked_leaves c)"
  by (simp add: unlocked_leaves_def)

lemma heap_inv_pop:
  assumes wf: "rc_wf c" and h: "heap_inv c heap" and ne: "heap \<noteq> []"
  obtains x heap1 where "heappop (entry_rank c) heap = Inr (heap_entry c x, heap1)" "x \<in> unlocked_leaves c"
    "\<And>y. y \<in> unlocked_leaves c \<Longrightarrow> evict_rank c x \<le> evict_rank c y" "heap_ge (entry_rank c) 0 heap1"
    "mset heap1 = image_mset (heap_entry c) (mset_set (unlocked_leaves c - {x}))"
proof -
  note fin = finite_unlocked [OF wf]
  from h ne obtain e heap1 where e: "heappop (entry_rank c) heap = Inr (e, heap1)" "heap_ge (entry_rank c) 0 heap1"
    "mset heap = add_mset e (mset heap1)" "\<And>y. y \<in># mset heap \<Longrightarrow> entry_rank c e \<le> entry_rank c y"
    using hq.popE [of "entry_rank c" heap] unfolding heap_inv_def by (metis mset_zero_iff)
  have mh: "mset heap = image_mset (heap_entry c) (mset_set (unlocked_leaves c))" using h by (simp add: heap_inv_def)
  have "e \<in># mset heap" using e(3) by simp
  then obtain x where x: "e = heap_entry c x" "x \<in> unlocked_leaves c" using fin by (auto simp: mh)
  have "entry_rank c e \<le> entry_rank c (heap_entry c y)" if "y \<in> unlocked_leaves c" for y
    by (rule e(4)) (use that fin in \<open>simp add: mh\<close>)
  moreover have "mset heap1 = image_mset (heap_entry c) (mset_set (unlocked_leaves c - {x}))"
    using e(3) mh mset_set.remove [OF fin x(2)] x(1) by simp
  ultimately show thesis using that [of x heap1] e(1,2) x by (simp add: evict_rank_def)
qed

lemma evict_loop_spec:
  assumes "rc_inv c L" and "heap_inv c heap" and fr: "\<And>a v. free a v = Inr (fr a v)" and "card (live c) \<le> fuel"
  shows "\<exists>xs c'. evict_loop fuel free num c a heap ev
      = Inr (ev + int (length (concat (map (slots_of c) xs))), c', fold (\<lambda>x a. fr a (slots_of c x)) xs a) \<and>
    evict_run c xs c' \<and>
    (num \<le> ev + int (length (concat (map (slots_of c) xs))) \<or> unlocked_leaves c' = {}) \<and>
    (xs \<noteq> [] \<longrightarrow> ev + int (length (concat (map (slots_of c) (butlast xs)))) < num)"
  using assms(1,2,4)
proof (induction fuel arbitrary: c a heap ev)
  case (0 c)
  then have wf: "rc_wf c" by (simp add: rc_inv_def)
  then have "unlocked_leaves c = {}" using "0.prems"(3) by (simp add: unlocked_leaves_def)
  moreover have "heap = []" using calculation "0.prems"(2) by (simp add: heap_inv_def)
  ultimately show ?case
    by (intro exI [of _ "[]"] exI [of _ c]) (subst evict_loop.simps, auto intro: evict_nil)
next
  case (Suc fuel)
  have wf: "rc_wf c" using Suc.prems(1) by (simp add: rc_inv_def)
  show ?case
  proof (cases "ev < num \<and> heap \<noteq> []")
    case False
    then have "num \<le> ev \<or> unlocked_leaves c = {}"
      using Suc.prems(2) finite_unlocked [OF wf] by (auto simp: heap_inv_def mset_set_empty_iff)
    then show ?thesis using False
      by (intro exI [of _ "[]"] exI [of _ c]) (subst evict_loop.simps, auto intro: evict_nil)
  next
    case True
    obtain x heap1 where pop: "heappop (entry_rank c) heap = Inr (heap_entry c x, heap1)"
      "x \<in> unlocked_leaves c" "\<And>y. y \<in> unlocked_leaves c \<Longrightarrow> evict_rank c x \<le> evict_rank c y"
      "heap_ge (entry_rank c) 0 heap1" "mset heap1 = image_mset (heap_entry c) (mset_set (unlocked_leaves c - {x}))"
      using heap_inv_pop [OF wf Suc.prems(2)] True by metis
    have xl: "x \<in> live c" "kids c x = []" using pop(2) by (simp_all add: unlocked_leaves_def)
    obtain c1 p k where del: "delete_leaf c x = Inr c1" "parent (nodes c1 x) = Some p"
      "removes_leaf c (record_remove_event c1 x) p k x" "entry_rank c1 = entry_rank c" "heap_entry c1 = heap_entry c"
      using delete_leaf_spec [OF wf xl] by metis
    let ?c2 = "record_remove_event c1 x" and ?v = "slots_of c x"
    let ?heap2 = "if length (kids c1 p) = 0 \<and> lock_ref (nodes c1 p) = 0
      then heappush (entry_rank c1) heap1 (heap_entry c1 p) else heap1"
    note rm = removes_leaf_inv [OF Suc.prems(1) del(3) pop(2)] and ul = removes_leaf_unlocked [OF Suc.prems(1) del(3) pop(2)]
    have sl: "slots_of ?c2 = slots_of c" using removes_leaf_nodes(3) [OF del(3)] by (simp add: slots_of_def fun_eq_iff)
    have "heap_inv ?c2 ?heap2"
      using hq.push [OF pop(4), of "heap_entry c p"] pop(4,5) ul finite_unlocked [OF wf]
      by (simp add: heap_inv_def record_remove_ranks del(4,5))
    moreover have "card (live ?c2) \<le> fuel"
      using removes_leaf_live [OF wf del(3)] xl(1) Suc.prems(3) finite_live [OF wf] by simp
    ultimately obtain xs c' where IH: "evict_loop fuel free num ?c2 (fr a ?v) ?heap2 (ev + int (length ?v))
        = Inr (ev + int (length ?v) + int (length (concat (map (slots_of c) xs))), c',
            fold (\<lambda>x a. fr a (slots_of c x)) xs (fr a ?v))" "evict_run ?c2 xs c'"
      "num \<le> ev + int (length ?v) + int (length (concat (map (slots_of c) xs))) \<or> unlocked_leaves c' = {}"
      "xs \<noteq> [] \<longrightarrow> ev + int (length ?v) + int (length (concat (map (slots_of c) (butlast xs)))) < num"
      using Suc.IH [OF rm(1), of ?heap2 "fr a ?v" "ev + int (length ?v)", unfolded sl] by metis
    have "evict_loop (Suc fuel) free num c a heap ev
        = evict_loop fuel free num ?c2 (fr a ?v) ?heap2 (ev + int (length ?v))"
      using True pop(1) slots_of_live [OF wf xl(1)] fr del(1,2)
      by (subst evict_loop.simps) (simp add: heap_entry_def)
    moreover have "evict_run c (x # xs) c'" by (rule evict_cons [OF pop(2,3) del(3) IH(2)])
    ultimately show ?thesis using IH(1,3,4) True by (intro exI [of _ "x # xs"] exI [of _ c']) (auto simp: algebra_simps)
  qed
qed

lemma evict_spec:
  assumes inv: "rc_inv c L" and en: "\<not> disable c" and fr: "\<And>a v. free a v = Inr (fr a v)"
  obtains xs c' where "evict free c a num = Inr (c', fold (\<lambda>x a. fr a (slots_of c x)) xs a)" "evict_run c xs c'"
    "num \<le> int (length (concat (map (slots_of c) xs))) \<or> unlocked_leaves c' = {}"
    "xs \<noteq> [] \<Longrightarrow> int (length (concat (map (slots_of c) (butlast xs)))) < num"
proof -
  have wf: "rc_wf c" using inv by (simp add: rc_inv_def)
  obtain ls where ls: "collect_leaves c = Inr ls" "distinct ls" "set ls = unlocked_leaves c"
    using collect_leaves_spec [OF wf] by blast
  let ?h = "heapify (entry_rank c) (map (heap_entry c) ls)"
  have "heap_inv c ?h"
    using hq.of_list [of "entry_rank c" "map (heap_entry c) ls"] ls(2,3) mset_set_set [OF ls(2)]
    by (simp add: heap_inv_def)
  moreover have "card (live c) \<le> counter c"
    using card_mono [OF _ live_bound [OF wf]] by simp
  ultimately obtain xs c' where xs: "evict_loop (counter c) free num c a ?h 0
      = Inr (0 + int (length (concat (map (slots_of c) xs))), c', fold (\<lambda>x a. fr a (slots_of c x)) xs a)"
    "evict_run c xs c'" "num \<le> 0 + int (length (concat (map (slots_of c) xs))) \<or> unlocked_leaves c' = {}"
    "xs \<noteq> [] \<longrightarrow> 0 + int (length (concat (map (slots_of c) (butlast xs)))) < num"
    using evict_loop_spec [where heap = ?h and fuel = "counter c" and free = free and fr = fr and num = num and a = a and ev = 0, OF inv _ fr] by blast
  then show thesis using that [of c' xs] en ls(1) by (simp add: evict_def)
qed

end
