(* ===== verification/Sampling_Params.thy ===== *)
theory Sampling_Params
  imports Prelude Complex_Main
begin

text \<open>
  \<^verbatim>\<open>sampling/sampling_params.py\<close>: the sampling parameters of a request, their range checks, the
  normalisation of stop strings, and the bound on the length of a match of a stop regex. Floats are
  rationals with the infinities and NaN; a comparison with NaN is false. The regex parser of the
  standard library and the tokenizer are arguments of \<open>normalize\<close>.
\<close>

section \<open>Floats\<close>

datatype py_float = Fin rat | PosInf | NegInf | NaN

fun float_less :: "py_float \<Rightarrow> py_float \<Rightarrow> bool" where
  "float_less (Fin x) (Fin y) = (x < y)"
| "float_less NaN _ = False"
| "float_less _ NaN = False"
| "float_less NegInf y = (y \<noteq> NegInf)"
| "float_less x PosInf = (x \<noteq> PosInf)"
| "float_less _ _ = False"

definition float_le :: "py_float \<Rightarrow> py_float \<Rightarrow> bool" where
  "float_le x y = (float_less x y \<or> (x = y \<and> x \<noteq> NaN))"

section \<open>Parameters\<close>

datatype stop_arg = StopNone | StopStr string | StopList "string list"

record sampling_params =
  max_new_tokens :: "int option"
  stop_arg :: stop_arg
  stop_token_ids :: "int set option"
  stop_regex_arg :: stop_arg
  temperature :: py_float
  top_p :: py_float
  top_k :: int
  min_p :: py_float
  frequency_penalty :: py_float
  presence_penalty :: py_float
  repetition_penalty :: py_float
  min_new_tokens :: int
  n_samples :: int
  json_schema :: "string option"
  regex :: "string option"
  ebnf :: "string option"
  structural_tag :: "string option"
  ignore_eos :: bool
  skip_special_tokens :: bool
  spaces_between_special_tokens :: bool
  no_stop_trim :: bool
  stream_interval :: "int option"
  logit_bias :: "(string \<times> py_float) list option"
  sampling_seed :: "int option"
  stop_strs :: "string list"
  stop_str_max_len :: nat
  stop_regex_strs :: "string list"
  stop_regex_max_len :: nat

definition SAMPLING_EPS :: rat where
  "SAMPLING_EPS = 1 / 1000000"

definition TOP_K_ALL :: int where
  "TOP_K_ALL = 2 ^ 30"

text \<open>The end of the constructor: a temperature near zero means greedy, and -1 the whole vocabulary.\<close>

definition special_cases :: "sampling_params \<Rightarrow> sampling_params" where
  "special_cases p =
     (let p1 = (if float_le (Fin 0) (temperature p) \<and> float_less (temperature p) (Fin SAMPLING_EPS)
                then p\<lparr>temperature := Fin 1, top_k := 1\<rparr> else p)
      in if top_k p1 = -1 then p1\<lparr>top_k := TOP_K_ALL\<rparr> else p1)"

definition sampling_params_init ::
    "int option \<Rightarrow> stop_arg \<Rightarrow> int list option \<Rightarrow> stop_arg \<Rightarrow> py_float \<Rightarrow> py_float \<Rightarrow> int \<Rightarrow> py_float \<Rightarrow>
     py_float \<Rightarrow> py_float \<Rightarrow> py_float \<Rightarrow> int \<Rightarrow> int \<Rightarrow> string option \<Rightarrow> string option \<Rightarrow> string option \<Rightarrow>
     string option \<Rightarrow> bool \<Rightarrow> bool \<Rightarrow> bool \<Rightarrow> bool \<Rightarrow> int option \<Rightarrow> (string \<times> py_float) list option \<Rightarrow>
     int option \<Rightarrow> sampling_params" where
  "sampling_params_init mnt stop ids sregex temp tp tk mp freq pres rep minnew nn js rx eb tag ign skip
       spaces notrim interval bias seed =
     special_cases \<lparr>max_new_tokens = mnt, stop_arg = stop,
       stop_token_ids = (case ids of None \<Rightarrow> None | Some xs \<Rightarrow> if xs = [] then None else Some (set xs)),
       stop_regex_arg = sregex, temperature = temp, top_p = tp, top_k = tk, min_p = mp,
       frequency_penalty = freq, presence_penalty = pres, repetition_penalty = rep,
       min_new_tokens = minnew, n_samples = nn, json_schema = js, regex = rx, ebnf = eb,
       structural_tag = tag, ignore_eos = ign, skip_special_tokens = skip,
       spaces_between_special_tokens = spaces, no_stop_trim = notrim, stream_interval = interval,
       logit_bias = bias, sampling_seed = seed, stop_strs = [], stop_str_max_len = 0,
       stop_regex_strs = [], stop_regex_max_len = 0\<rparr>"

section \<open>Range checks\<close>

text \<open>\<^verbatim>\<open>int(s)\<close> on a string: blanks around it, a sign, and digits with single underscores between.\<close>

definition is_blank :: "char \<Rightarrow> bool" where
  "is_blank ch \<longleftrightarrow> ch \<in> {CHR '' '', CHR 0x09, CHR 0x0A, CHR 0x0B, CHR 0x0C, CHR 0x0D}"

definition py_strip :: "string \<Rightarrow> string" where
  "py_strip s = rev (dropWhile is_blank (rev (dropWhile is_blank s)))"

definition digit_of :: "char \<Rightarrow> nat option" where
  "digit_of ch = (let n = of_char ch :: nat in if 48 \<le> n \<and> n \<le> 57 then Some (n - 48) else None)"

fun parse_digits :: "string \<Rightarrow> bool \<Rightarrow> nat \<Rightarrow> nat option" where
  "parse_digits [] after_digit acc = (if after_digit then Some acc else None)"
| "parse_digits (ch # s) after_digit acc =
     (case digit_of ch of
        Some d \<Rightarrow> parse_digits s True (10 * acc + d)
      | None \<Rightarrow> if ch = CHR ''_'' \<and> after_digit then parse_digits s False acc else None)"

definition py_int :: "string \<Rightarrow> int result" where
  "py_int s0 =
     (let s = py_strip s0;
          (sgn, body) = (case s of [] \<Rightarrow> (1, [])
             | ch # rest \<Rightarrow> if ch = CHR ''-'' then (-1, rest) else if ch = CHR ''+'' then (1, rest) else (1, s))
      in case parse_digits body False 0 of None \<Rightarrow> Inl ValueError | Some m \<Rightarrow> Inr (sgn * int m))"

fun verify_bias :: "int \<Rightarrow> (string \<times> py_float) list \<Rightarrow> unit result" where
  "verify_bias vocab_size [] = Inr ()"
| "verify_bias vocab_size ((token_id, b) # rest) =
     bind_r (py_int token_id) (\<lambda>t.
       if 0 \<le> t \<and> t < vocab_size then verify_bias vocab_size rest else Inl ValueError)"

definition verify :: "sampling_params \<Rightarrow> int \<Rightarrow> unit result" where
  "verify p vocab_size =
     (if float_less (temperature p) (Fin 0) then Inl ValueError
      else if \<not> (float_less (Fin 0) (top_p p) \<and> float_le (top_p p) (Fin 1)) then Inl ValueError
      else if \<not> (float_le (Fin 0) (min_p p) \<and> float_le (min_p p) (Fin 1)) then Inl ValueError
      else if top_k p < 1 \<or> top_k p = -1 then Inl ValueError
      else if \<not> (float_le (Fin (-2)) (frequency_penalty p) \<and> float_le (frequency_penalty p) (Fin 2))
        then Inl ValueError
      else if \<not> (float_le (Fin (-2)) (presence_penalty p) \<and> float_le (presence_penalty p) (Fin 2))
        then Inl ValueError
      else if \<not> (float_le (Fin 0) (repetition_penalty p) \<and> float_le (repetition_penalty p) (Fin 2))
        then Inl ValueError
      else if \<not> 0 \<le> min_new_tokens p then Inl ValueError
      else if (case max_new_tokens p of None \<Rightarrow> False | Some m \<Rightarrow> m < 0) then Inl ValueError
      else if (case max_new_tokens p of None \<Rightarrow> False | Some m \<Rightarrow> \<not> min_new_tokens p \<le> m) then Inl ValueError
      else bind_r (case logit_bias p of None \<Rightarrow> Inr () | Some b \<Rightarrow> verify_bias vocab_size b) (\<lambda>_.
        if sampling_seed p = None then Inl ValueError
        else if length (filter (\<lambda>x. x \<noteq> None) [json_schema p, regex p, ebnf p]) > 1 then Inl ValueError
        else Inr ()))"

section \<open>Regular expressions\<close>

text \<open>
  A parsed pattern, as \<^verbatim>\<open>sre_parse.parse\<close> gives it. A repeat without upper bound carries the
  constant \<open>MAXREPEAT\<close>. \<open>Other\<close> stands for the tokens that the code does not list (negated literals,
  assertions, group references and so on).
\<close>

datatype sre =
    LITERAL char
  | IN "char list"
  | ANY
  | SUBPATTERN "sre list"
  | BRANCH "sre list list"
  | MAX_REPEAT nat nat "sre list"
  | MIN_REPEAT nat nat "sre list"
  | AT
  | Other nat

definition MAXREPEAT :: nat where
  "MAXREPEAT = 4294967295"

definition MAX_LEN :: nat where
  "MAX_LEN = 2 ^ 30"

fun max_list :: "nat list \<Rightarrow> nat" where
  "max_list [] = 0"
| "max_list (x # xs) = max x (max_list xs)"

fun max_length_token :: "sre \<Rightarrow> nat" and max_length_from_subpattern :: "sre list \<Rightarrow> nat" where
  "max_length_token (LITERAL c) = 1"
| "max_length_token (IN cs) = 1"
| "max_length_token ANY = 1"
| "max_length_token (SUBPATTERN p) = max_length_from_subpattern p"
| "max_length_token (BRANCH bs) = max_list (map max_length_from_subpattern bs)"
| "max_length_token (MAX_REPEAT lo hi p) =
     (if hi = MAXREPEAT then MAX_LEN else hi * max_length_from_subpattern p)"
| "max_length_token (MIN_REPEAT lo hi p) =
     (if hi = MAXREPEAT then MAX_LEN else hi * max_length_from_subpattern p)"
| "max_length_token AT = 0"
| "max_length_token (Other k) = MAX_LEN"
| "max_length_from_subpattern [] = 0"
| "max_length_from_subpattern (t # p) = max_length_token t + max_length_from_subpattern p"

definition get_max_seq_length :: "(string \<Rightarrow> sre list result) \<Rightarrow> string \<Rightarrow> nat result" where
  "get_max_seq_length parse regex_str = bind_r (parse regex_str) (\<lambda>p. Inr (max_length_from_subpattern p))"

section \<open>Normalisation\<close>

definition stop_list :: "stop_arg \<Rightarrow> string list" where
  "stop_list a = (case a of StopNone \<Rightarrow> [] | StopStr s \<Rightarrow> [s] | StopList ss \<Rightarrow> ss)"

definition stop_len :: "(string \<Rightarrow> int list) option \<Rightarrow> string \<Rightarrow> nat" where
  "stop_len encode s = (case encode of None \<Rightarrow> length s | Some enc \<Rightarrow> length (enc s))"

fun regex_max_len :: "(string \<Rightarrow> sre list result) \<Rightarrow> string list \<Rightarrow> nat \<Rightarrow> nat result" where
  "regex_max_len parse [] m = Inr m"
| "regex_max_len parse (r # rs) m =
     bind_r (get_max_seq_length parse r) (\<lambda>l. regex_max_len parse rs (max m l))"

definition normalize ::
    "(string \<Rightarrow> sre list result) \<Rightarrow> (string \<Rightarrow> int list) option \<Rightarrow> sampling_params \<Rightarrow> sampling_params result" where
  "normalize parse encode p =
     (let p1 = p\<lparr>stop_strs := stop_list (stop_arg p),
                 stop_str_max_len := fold (\<lambda>s m. max m (stop_len encode s)) (stop_list (stop_arg p)) 0\<rparr>
      in bind_r (regex_max_len parse (stop_list (stop_regex_arg p)) 0) (\<lambda>m.
           Inr (p1\<lparr>stop_regex_strs := stop_list (stop_regex_arg p), stop_regex_max_len := m\<rparr>)))"

section \<open>An example\<close>

definition demo_params :: sampling_params where
  "demo_params = sampling_params_init (Some 16) (StopStr ''end'') (Some [7]) (StopStr ''ab{2}'')
     (Fin 0) (Fin 1) (-1) (Fin 0) (Fin 0) (Fin 0) (Fin 1) 0 1 None None None None False True True False
     None None (Some 42)"

definition demo_parse :: "string \<Rightarrow> sre list result" where
  "demo_parse r = Inr [LITERAL CHR ''a'', MAX_REPEAT 2 2 [LITERAL CHR ''b'']]"

section \<open>Matching\<close>

text \<open>
  The strings a pattern consumes. What a character class contains and when an assertion holds does
  not matter for lengths: a class consumes one character and the unlisted tokens anything.
\<close>

inductive token_match :: "sre \<Rightarrow> string \<Rightarrow> bool" and pattern_match :: "sre list \<Rightarrow> string \<Rightarrow> bool"
  and repeat_match :: "sre list \<Rightarrow> nat \<Rightarrow> string \<Rightarrow> bool" where
  "token_match (LITERAL c) [c]"
| "token_match (IN cs) [c]"
| "token_match ANY [c]"
| "pattern_match p s \<Longrightarrow> token_match (SUBPATTERN p) s"
| "b \<in> set bs \<Longrightarrow> pattern_match b s \<Longrightarrow> token_match (BRANCH bs) s"
| "repeat_match p n s \<Longrightarrow> lo \<le> n \<Longrightarrow> hi = MAXREPEAT \<or> n \<le> hi \<Longrightarrow> token_match (MAX_REPEAT lo hi p) s"
| "repeat_match p n s \<Longrightarrow> lo \<le> n \<Longrightarrow> hi = MAXREPEAT \<or> n \<le> hi \<Longrightarrow> token_match (MIN_REPEAT lo hi p) s"
| "token_match AT []"
| "token_match (Other k) s"
| "pattern_match [] []"
| "token_match t s \<Longrightarrow> pattern_match p s' \<Longrightarrow> pattern_match (t # p) (s @ s')"
| "repeat_match p 0 []"
| "pattern_match p s \<Longrightarrow> repeat_match p n s' \<Longrightarrow> repeat_match p (Suc n) (s @ s')"

lemma max_list_ge: "x \<in> set xs \<Longrightarrow> x \<le> max_list xs"
  by (induction xs) auto

lemma repeat_bound:
  assumes "length s \<le> n * m \<or> (0 < n \<and> MAX_LEN \<le> m)" and "n \<le> (hi :: nat)"
  shows "length s \<le> hi * m \<or> MAX_LEN \<le> hi * m"
proof (cases "length s \<le> n * m")
  case True
  then show ?thesis using mult_le_mono1 [OF assms(2), of m] by linarith
next
  case False
  then have "1 * MAX_LEN \<le> hi * m" using assms by (intro mult_le_mono) auto
  then show ?thesis by simp
qed

lemma match_bound:
  "token_match t s \<Longrightarrow> length s \<le> max_length_token t \<or> MAX_LEN \<le> max_length_token t"
  "pattern_match p s' \<Longrightarrow> length s' \<le> max_length_from_subpattern p \<or> MAX_LEN \<le> max_length_from_subpattern p"
  "repeat_match q n s'' \<Longrightarrow> length s'' \<le> n * max_length_from_subpattern q \<or>
     (0 < n \<and> MAX_LEN \<le> max_length_from_subpattern q)"
proof (induction rule: token_match_pattern_match_repeat_match.inducts)
  case (5 b bs s)
  have "max_length_from_subpattern b \<le> max_list (map max_length_from_subpattern bs)"
    using 5(1) by (intro max_list_ge) simp
  then show ?case using 5 by auto
next
  case (6 p n s lo hi)
  then show ?case using repeat_bound [OF 6(4), of hi] by auto
next
  case (7 p n s lo hi)
  then show ?case using repeat_bound [OF 7(4), of hi] by auto
qed auto

lemma regex_max_len_ge:
  "regex_max_len parse rs m0 = Inr m \<Longrightarrow> m0 \<le> m \<and>
     (\<forall>r \<in> set rs. \<exists>p. parse r = Inr p \<and> max_length_from_subpattern p \<le> m)"
  by (induction rs arbitrary: m0) (fastforce simp: bind_r_eq_Inr get_max_seq_length_def)+

lemma fold_max_start: "m0 \<le> fold (\<lambda>s m. max m (f s)) xs (m0 :: nat)"
proof (induction xs arbitrary: m0)
  case (Cons y ys)
  show ?case unfolding fold_Cons comp_def by (rule order_trans [OF max.cobounded1 Cons.IH])
qed simp

lemma fold_max_ge: "x \<in> set xs \<Longrightarrow> f x \<le> fold (\<lambda>s m. max m (f s)) xs (m0 :: nat)"
proof (induction xs arbitrary: m0)
  case (Cons y ys)
  have "f y \<le> fold (\<lambda>s m. max m (f s)) (y # ys) m0"
    unfolding fold_Cons comp_def by (rule order_trans [OF max.cobounded2 fold_max_start])
  then show ?case using Cons by auto
qed simp

section \<open>Properties\<close>



text \<open>
  Parameters that were constructed and passed \<open>verify\<close> are safe to sample with: the divisor
  \<open>temperature\<close> is at least the greedy threshold or infinite, unless it is NaN, which the check lets
  through; \<open>top_k\<close> is at least 1; \<open>top_p\<close> is a number in (0, 1], \<open>min_p\<close> one in [0, 1]; and a token
  count bound is never below the minimum.
\<close>

lemma verified_params_safe:
  assumes "verify (special_cases p) V = Inr ()"
  shows "(temperature (special_cases p) = NaN \<or> float_le (Fin SAMPLING_EPS) (temperature (special_cases p))) \<and>
    1 \<le> top_k (special_cases p) \<and>
    (\<exists>x. top_p (special_cases p) = Fin x \<and> 0 < x \<and> x \<le> 1) \<and>
    (\<exists>x. min_p (special_cases p) = Fin x \<and> 0 \<le> x \<and> x \<le> 1) \<and>
    0 \<le> min_new_tokens p \<and> (\<forall>m. max_new_tokens p = Some m \<longrightarrow> min_new_tokens p \<le> m)"
proof -
  let ?q = "special_cases p"
  have v: "\<not> float_less (temperature ?q) (Fin 0)" "float_less (Fin 0) (top_p ?q)" "float_le (top_p ?q) (Fin 1)"
    "float_le (Fin 0) (min_p ?q)" "float_le (min_p ?q) (Fin 1)" "1 \<le> top_k ?q" "0 \<le> min_new_tokens ?q"
    "\<And>m. max_new_tokens ?q = Some m \<Longrightarrow> min_new_tokens ?q \<le> m"
    using assms by (auto simp: verify_def split: if_splits)
  have keep: "min_new_tokens ?q = min_new_tokens p" "max_new_tokens ?q = max_new_tokens p"
    by (simp_all add: special_cases_def Let_def)
  have "\<not> (float_le (Fin 0) (temperature ?q) \<and> float_less (temperature ?q) (Fin SAMPLING_EPS))"
    by (auto simp: special_cases_def Let_def SAMPLING_EPS_def)
  then have "temperature ?q = NaN \<or> float_le (Fin SAMPLING_EPS) (temperature ?q)"
    using v(1) by (cases "temperature ?q") (auto simp: float_le_def)
  moreover have "\<exists>x. top_p ?q = Fin x \<and> 0 < x \<and> x \<le> 1"
    using v(2,3) by (cases "top_p ?q") (auto simp: float_le_def)
  moreover have "\<exists>x. min_p ?q = Fin x \<and> 0 \<le> x \<and> x \<le> 1"
    using v(4,5) by (cases "min_p ?q") (auto simp: float_le_def)
  ultimately show ?thesis using v keep by simp
qed

end
