(* ===== verification/Req.thy ===== *)
theory Req
  imports Sampling_Params Radix_Key
begin

text \<open>
  The request object of \<^verbatim>\<open>managers/schedule_batch.py\<close>: construction, the bookkeeping of its KV cache,
  the detection of its end, incremental detokenisation, and retraction. Log-probability payloads,
  metrics, multimodal data and the disaggregation fields are carried by the object without being read
  by these operations and are left out. The tokenizer is a record of the functions used of it; the
  regex search of the standard library is an argument.
\<close>

section \<open>Finish reasons\<close>

datatype finish_reason =
    FINISH_MATCHED_TOKEN int
  | FINISH_MATCHED_STR string
  | FINISHED_MATCHED_REGEX string
  | FINISH_LENGTH int
  | FINISH_ABORT string "int option" "string option"

datatype json_value = JNull | JInt int | JStr string

definition finish_abort :: "string option \<Rightarrow> int option \<Rightarrow> string option \<Rightarrow> finish_reason" where
  "finish_abort message status_code err_type =
     FINISH_ABORT (case message of None \<Rightarrow> ''Aborted'' | Some m \<Rightarrow> if m = [] then ''Aborted'' else m)
       status_code err_type"

fun is_error :: "finish_reason \<Rightarrow> bool" where
  "is_error (FINISH_ABORT _ _ _) = True"
| "is_error _ = False"

definition json_opt :: "('a \<Rightarrow> json_value) \<Rightarrow> 'a option \<Rightarrow> json_value" where
  "json_opt f x = (case x of None \<Rightarrow> JNull | Some v \<Rightarrow> f v)"

fun finish_to_json :: "finish_reason \<Rightarrow> (string \<times> json_value) list" where
  "finish_to_json (FINISH_MATCHED_TOKEN t) = [(''type'', JStr ''stop''), (''matched'', JInt t)]"
| "finish_to_json (FINISH_MATCHED_STR s) = [(''type'', JStr ''stop''), (''matched'', JStr s)]"
| "finish_to_json (FINISHED_MATCHED_REGEX s) = [(''type'', JStr ''stop''), (''matched'', JStr s)]"
| "finish_to_json (FINISH_LENGTH l) = [(''type'', JStr ''length''), (''length'', JInt l)]"
| "finish_to_json (FINISH_ABORT m code ty) = [(''type'', JStr ''abort''), (''message'', JStr m),
     (''status_code'', json_opt JInt code), (''err_type'', json_opt JStr ty)]"

section \<open>The request\<close>

record tokenizer =
  eos_token_id :: "int option"
  additional_stop_token_ids :: "int set option"
  tok_decode :: "int list \<Rightarrow> string"

record req =
  rid :: string
  origin_input_ids :: "int list"
  origin_input_ids_unpadded :: "int list"
  output_ids :: "int list"
  fill_ids :: "int list"
  session_id :: "string option"
  kv_committed_len :: nat
  kv_allocated_len :: nat
  kv_committed_freed :: bool
  kv_overallocated_freed :: bool
  evicted_seqlen_local :: nat
  sampling :: sampling_params
  req_extra_key :: "string option"
  lora_id :: "string option"
  req_pool_idx :: "int option"
  mamba_pool_idx :: "int option"
  req_tokenizer :: "tokenizer option"
  finished_reason :: "finish_reason option"
  finished_len :: "int option"
  to_finish :: "finish_reason option"
  req_stream :: bool
  eos_token_ids :: "int set option"
  vocab_size :: "int option"
  priority :: "int option"
  surr_offset :: "nat option"
  read_offset :: "nat option"
  surr_and_decode_ids :: "int list"
  cur_decode_ids_len :: nat
  decoded_text :: string
  prefix_indices :: "int list"
  extend_input_len :: int
  extend_logprob_start_len :: int
  last_node :: "nat option"
  last_host_node :: "nat option"
  host_hit_length :: nat
  swa_uuid_for_lock :: "nat option"
  last_matched_prefix_len :: nat
  is_chunked :: int
  is_retracted :: bool
  return_logprob :: bool
  logprob_start_len :: int
  grammar_terminated :: "bool option"
  cached_tokens :: int
  already_computed :: nat
  retraction_count :: nat
  wait_queue_entry_time :: rat
  top_logprobs_num :: nat
  token_ids_logprob :: "int list option"
  return_hidden_states :: bool

text \<open>The extra key of a request is suffixed with its LoRA id.\<close>

definition request_extra_key :: "string option \<Rightarrow> string option \<Rightarrow> string option" where
  "request_extra_key lora extra =
     (case lora of None \<Rightarrow> extra | Some l \<Rightarrow> Some ((case extra of None \<Rightarrow> [] | Some e \<Rightarrow> e) @ l))"

text \<open>The constructor; the arguments it omits have their defaults.\<close>

definition req_init ::
    "string \<Rightarrow> int list \<Rightarrow> int list \<Rightarrow> sampling_params \<Rightarrow> bool \<Rightarrow> bool \<Rightarrow> string option \<Rightarrow> string option \<Rightarrow>
     int set option \<Rightarrow> int option \<Rightarrow> int option \<Rightarrow> string option \<Rightarrow> req" where
  "req_init rid0 ids unpadded sp logprob strm lora session eos vocab prio extra =
     \<lparr>rid = rid0, origin_input_ids = ids,
      origin_input_ids_unpadded = (if unpadded = [] then ids else unpadded),
      output_ids = [], fill_ids = [], session_id = session, kv_committed_len = 0,
      kv_allocated_len = 0, kv_committed_freed = False, kv_overallocated_freed = False,
      evicted_seqlen_local = 0, sampling = sp, req_extra_key = request_extra_key lora extra,
      lora_id = lora, req_pool_idx = None, mamba_pool_idx = None, req_tokenizer = None,
      finished_reason = None, finished_len = None, to_finish = None, req_stream = strm,
      eos_token_ids = eos, vocab_size = vocab, priority = prio, surr_offset = None,
      read_offset = None, surr_and_decode_ids = [], cur_decode_ids_len = 0, decoded_text = [],
      prefix_indices = [], extend_input_len = 0, extend_logprob_start_len = 0, last_node = None,
      last_host_node = None, host_hit_length = 0, swa_uuid_for_lock = None,
      last_matched_prefix_len = 0, is_chunked = 0, is_retracted = False, return_logprob = logprob,
      logprob_start_len = 0, grammar_terminated = None, cached_tokens = 0, already_computed = 0,
      retraction_count = 0, wait_queue_entry_time = 0, top_logprobs_num = 0,
      token_ids_logprob = None, return_hidden_states = False\<rparr>"

definition seqlen :: "req \<Rightarrow> nat" where
  "seqlen r = length (origin_input_ids r) + length (output_ids r)"

text \<open>\<open>spec_alg\<close> says whether the server runs a speculative algorithm.\<close>

definition is_prefill_only :: "bool \<Rightarrow> req \<Rightarrow> bool" where
  "is_prefill_only spec_alg r \<longleftrightarrow> max_new_tokens (sampling r) = Some 0 \<and> \<not> spec_alg"

definition output_ids_through_stop :: "req \<Rightarrow> int list" where
  "output_ids_through_stop r =
     (case finished_len r of None \<Rightarrow> output_ids r | Some l \<Rightarrow> py_to (output_ids r) l)"

text \<open>\<open>topk\<close> is the server's \<^verbatim>\<open>speculative_eagle_topk\<close>.\<close>

definition pop_committed_kv_cache :: "nat option \<Rightarrow> req \<Rightarrow> (nat \<times> req) result" where
  "pop_committed_kv_cache topk r =
     (if topk = None \<or> topk = Some 1
      then assert_r (\<not> kv_committed_freed r) (Inr (kv_committed_len r, r\<lparr>kv_committed_freed := True\<rparr>))
      else Inr (length (origin_input_ids r) + (length (output_ids r) - 1), r))"

definition pop_overallocated_kv_cache :: "req \<Rightarrow> ((nat \<times> nat) \<times> req) result" where
  "pop_overallocated_kv_cache r =
     assert_r (\<not> kv_overallocated_freed r)
       (Inr ((kv_committed_len r, kv_allocated_len r), r\<lparr>kv_overallocated_freed := True\<rparr>))"

definition finished :: "req \<Rightarrow> bool" where
  "finished r \<longleftrightarrow> finished_reason r \<noteq> None"

section \<open>The next round\<close>

record match_result =
  device_indices :: "int list"
  last_device_node :: "nat option"
  mr_last_host_node :: "nat option"
  mr_host_hit_length :: nat

definition max_prefix_len :: "req \<Rightarrow> nat" where
  "max_prefix_len r =
     (let m = int (length (origin_input_ids r @ output_ids r)) - 1;
          m1 = (if return_logprob r then min m (logprob_start_len r) else m)
      in nat (max m1 0))"

definition prefix_key :: "req \<Rightarrow> radix_key" where
  "prefix_key r = \<lparr>token_ids = map TInt (take (max_prefix_len r) (origin_input_ids r @ output_ids r)),
     extra_key = req_extra_key r\<rparr>"

text \<open>\<open>match\<close> is \<^verbatim>\<open>match_prefix\<close> of the tree cache, threading its state \<open>c\<close>.\<close>

definition init_next_round_input ::
    "('c \<Rightarrow> radix_key \<Rightarrow> (match_result \<times> 'c) result) \<Rightarrow> 'c option \<Rightarrow> req \<Rightarrow> (req \<times> 'c option) result" where
  "init_next_round_input match tree_cache r0 =
     (let r = r0\<lparr>fill_ids := origin_input_ids r0 @ output_ids r0\<rparr>;
          finish = (\<lambda>r c. Inr (r\<lparr>extend_input_len :=
            int (length (fill_ids r)) - int (length (prefix_indices r))\<rparr>, c))
      in case tree_cache of
           None \<Rightarrow> finish r None
         | Some c \<Rightarrow>
             bind_r (match c (prefix_key r)) (\<lambda>(m, c').
               finish (r\<lparr>prefix_indices := device_indices m, last_node := last_device_node m,
                  last_host_node := mr_last_host_node m, host_hit_length := mr_host_hit_length m,
                  last_matched_prefix_len := length (device_indices m)\<rparr>) (Some c')))"

section \<open>Incremental detokenisation\<close>

definition INIT_INCREMENTAL_DETOKENIZATION_OFFSET :: nat where
  "INIT_INCREMENTAL_DETOKENIZATION_OFFSET = 5"

definition init_incremental_detokenize :: "req \<Rightarrow> (int list \<times> int) \<times> req" where
  "init_incremental_detokenize r =
     (let out = output_ids_through_stop r;
          r1 = (case (surr_offset r, read_offset r) of
             (Some so, Some ro) \<Rightarrow>
               r\<lparr>surr_and_decode_ids := surr_and_decode_ids r @ drop (cur_decode_ids_len r) out,
                 cur_decode_ids_len := length out\<rparr>
           | _ \<Rightarrow>
               let ro = length (origin_input_ids_unpadded r);
                   so = ro - INIT_INCREMENTAL_DETOKENIZATION_OFFSET
               in r\<lparr>read_offset := Some ro, surr_offset := Some so,
                    surr_and_decode_ids := drop so (origin_input_ids_unpadded r) @ out,
                    cur_decode_ids_len := length out\<rparr>)
      in ((surr_and_decode_ids r1, int (the (read_offset r1)) - int (the (surr_offset r1))), r1))"

section \<open>Detecting the end\<close>

text \<open>\<^verbatim>\<open>p in s\<close> on strings.\<close>

fun str_in :: "string \<Rightarrow> string \<Rightarrow> bool" where
  "str_in p [] = (p = [])"
| "str_in p (c # s) = (take (length p) (c # s) = p \<or> str_in p s)"

definition tail_str :: "req \<Rightarrow> string result" where
  "tail_str r =
     (if stop_strs (sampling r) \<noteq> [] \<or> stop_regex_strs (sampling r) \<noteq> []
      then let max_len_tail_str = max (stop_str_max_len (sampling r) + 1) (stop_regex_max_len (sampling r) + 1);
               tail_len = min (max_len_tail_str + 1) (length (output_ids r))
           in case req_tokenizer r of
                None \<Rightarrow> Inl AttributeError
              | Some t \<Rightarrow> Inr (tok_decode t (py_from (output_ids r) (- int tail_len)))
      else Inl NameError)"

fun match_stop_prefix :: "string list \<Rightarrow> string \<Rightarrow> bool" where
  "match_stop_prefix [] tail = False"
| "match_stop_prefix (stop_str # rest) tail =
     (if stop_str = [] then match_stop_prefix rest tail
      else if str_in stop_str tail then True
      else if list_ex (\<lambda>i. py_from tail (- int i) = take i stop_str)
                [1..<min (length tail) (length stop_str) + 1] then True
      else match_stop_prefix rest tail)"

definition check_match_stop_str_prefix :: "req \<Rightarrow> bool result" where
  "check_match_stop_str_prefix r =
     (if stop_strs (sampling r) = [] then Inr False
      else bind_r (tail_str r) (\<lambda>tail.
        if tail = [] then Inr False else Inr (match_stop_prefix (stop_strs (sampling r)) tail)))"

definition in_opt :: "int \<Rightarrow> int set option \<Rightarrow> bool" where
  "in_opt t s = (case s of None \<Rightarrow> False | Some S \<Rightarrow> t \<in> S)"

definition stops_at :: "req \<Rightarrow> int \<Rightarrow> bool" where
  "stops_at r t \<longleftrightarrow> in_opt t (stop_token_ids (sampling r)) \<or> in_opt t (eos_token_ids r) \<or>
     (case req_tokenizer r of None \<Rightarrow> False
      | Some k \<Rightarrow> eos_token_id k = Some t \<or> in_opt t (additional_stop_token_ids k))"

text \<open>The loop over the new tokens; \<open>i\<close> is the position in the output.\<close>

fun token_finish_loop :: "req \<Rightarrow> int \<Rightarrow> int list \<Rightarrow> bool \<times> req" where
  "token_finish_loop r i [] = (False, r)"
| "token_finish_loop r i (t # ts) =
     (if stops_at r t
      then (True, r\<lparr>finished_reason := Some (FINISH_MATCHED_TOKEN t), finished_len := Some (i + 1)\<rparr>)
      else token_finish_loop r (i + 1) ts)"

definition check_token_based_finish :: "req \<Rightarrow> int list \<Rightarrow> bool \<times> req" where
  "check_token_based_finish r new_accepted_tokens =
     (if ignore_eos (sampling r) then (False, r)
      else token_finish_loop r (int (length (output_ids r)) - int (length new_accepted_tokens))
             new_accepted_tokens)"

fun first_in :: "string list \<Rightarrow> (string \<Rightarrow> bool) \<Rightarrow> string option" where
  "first_in [] P = None"
| "first_in (s # ss) P = (if P s then Some s else first_in ss P)"

definition check_str_based_finish :: "(string \<Rightarrow> string \<Rightarrow> bool) \<Rightarrow> req \<Rightarrow> (bool \<times> req) result" where
  "check_str_based_finish re_search r =
     (if stop_strs (sampling r) = [] \<and> stop_regex_strs (sampling r) = [] then Inr (False, r)
      else bind_r (tail_str r) (\<lambda>tail.
        case first_in (stop_strs (sampling r)) (\<lambda>s. str_in s tail \<or> str_in s (decoded_text r)) of
          Some s \<Rightarrow> Inr (True, r\<lparr>finished_reason := Some (FINISH_MATCHED_STR s)\<rparr>)
        | None \<Rightarrow>
            (case first_in (stop_regex_strs (sampling r)) (\<lambda>p. re_search p tail) of
               Some p \<Rightarrow> Inr (True, r\<lparr>finished_reason := Some (FINISHED_MATCHED_REGEX p)\<rparr>)
             | None \<Rightarrow> Inr (False, r))))"

text \<open>\<open>first\<close> is \<^verbatim>\<open>next(iter(s))\<close> of a set, whose order the language leaves open.\<close>

definition replace_id :: "(int set \<Rightarrow> int) \<Rightarrow> int set option \<Rightarrow> nat \<Rightarrow> int list \<Rightarrow> int list" where
  "replace_id first s i ids = (case s of None \<Rightarrow> ids | Some S \<Rightarrow> if S = {} then ids else ids[i := first S])"

fun vocab_finish_loop :: "(int set \<Rightarrow> int) \<Rightarrow> req \<Rightarrow> nat \<Rightarrow> int list \<Rightarrow> (bool \<times> req) result" where
  "vocab_finish_loop first r i [] = Inr (False, r)"
| "vocab_finish_loop first r i (t # ts) =
     (case vocab_size r of
        None \<Rightarrow> Inl TypeError
      | Some v \<Rightarrow>
          if t > v \<or> t < 0
          then Inr (True, r\<lparr>output_ids := replace_id first (eos_token_ids r) i
                       (replace_id first (stop_token_ids (sampling r)) i (output_ids r)),
                     finished_reason := Some (FINISH_MATCHED_STR ''NaN happened''),
                     finished_len := Some (int i + 1)\<rparr>)
          else vocab_finish_loop first r (i + 1) ts)"

definition check_vocab_boundary_finish ::
    "(int set \<Rightarrow> int) \<Rightarrow> req \<Rightarrow> int list \<Rightarrow> (bool \<times> req) result" where
  "check_vocab_boundary_finish first r new_accepted_tokens =
     vocab_finish_loop first r (length (output_ids r) - length new_accepted_tokens) new_accepted_tokens"

definition check_finished ::
    "(string \<Rightarrow> string \<Rightarrow> bool) \<Rightarrow> (int set \<Rightarrow> int) \<Rightarrow> nat \<Rightarrow> req \<Rightarrow> req result" where
  "check_finished re_search first new_accepted_len r =
     (if finished r then Inr r
      else if to_finish r \<noteq> None then Inr (r\<lparr>finished_reason := to_finish r, to_finish := None\<rparr>)
      else case max_new_tokens (sampling r) of
        None \<Rightarrow> Inl TypeError
      | Some m \<Rightarrow>
          if int (length (output_ids r)) \<ge> m
          then Inr (r\<lparr>finished_reason := Some (FINISH_LENGTH m), finished_len := Some m\<rparr>)
          else if grammar_terminated r = Some True
          then (if output_ids r = [] then Inl IndexError
                else Inr (r\<lparr>finished_reason := Some (FINISH_MATCHED_TOKEN (last (output_ids r)))\<rparr>))
          else let new_accepted_tokens = py_from (output_ids r) (- int new_accepted_len)
               in case check_token_based_finish r new_accepted_tokens of
                    (True, r1) \<Rightarrow> Inr r1
                  | (False, r1) \<Rightarrow>
                      bind_r (check_vocab_boundary_finish first r1 new_accepted_tokens) (\<lambda>(b, r2).
                        if b then Inr r2
                        else bind_r (check_str_based_finish re_search r2) (\<lambda>(_, r3). Inr r3)))"

section \<open>Retraction and abort\<close>

definition reset_for_retract :: "req \<Rightarrow> req" where
  "reset_for_retract r = r\<lparr>retraction_count := retraction_count r + 1, prefix_indices := [],
     last_node := None, swa_uuid_for_lock := None, extend_input_len := 0, is_retracted := True,
     extend_logprob_start_len := 0, is_chunked := 0, mamba_pool_idx := None, already_computed := 0,
     kv_allocated_len := 0, kv_committed_len := 0, kv_committed_freed := False,
     kv_overallocated_freed := False\<rparr>"

definition set_finish_with_abort :: "string \<Rightarrow> req \<Rightarrow> req" where
  "set_finish_with_abort error_msg r = r\<lparr>grammar_terminated := None, origin_input_ids := [0],
     return_logprob := False,
     to_finish := Some (finish_abort (Some error_msg) (Some 400) (Some ''BadRequestError''))\<rparr>"

section \<open>Lemmas\<close>

lemma py_from_neg: "i \<le> length xs \<Longrightarrow> 0 < i \<Longrightarrow> py_from xs (- int i) = drop (length xs - i) xs"
  by (simp add: py_from_def py_bound_def nat_diff_distrib' flip: of_nat_diff)

lemma ex_le_Suc: "(\<exists>j \<le> Suc n. P j) \<longleftrightarrow> P 0 \<or> (\<exists>j \<le> n. P (Suc j))"
  by (metis Suc_le_mono le0 not0_implies_Suc)

lemma str_in_iff: "str_in p s \<longleftrightarrow> (\<exists>j \<le> length s. take (length p) (drop j s) = p)"
proof (induction s)
  case (Cons c s)
  then show ?case unfolding length_Cons ex_le_Suc by simp
qed auto

lemma match_stop_prefix_iff:
  "match_stop_prefix ss tail \<longleftrightarrow> (\<exists>s \<in> set ss. s \<noteq> [] \<and> (str_in s tail \<or>
     (\<exists>i. 1 \<le> i \<and> i \<le> length tail \<and> i \<le> length s \<and> drop (length tail - i) tail = take i s)))"
proof (induction ss)
  case (Cons s ss)
  have "list_ex (\<lambda>i. py_from tail (- int i) = take i s) [1..<min (length tail) (length s) + 1]
     \<longleftrightarrow> (\<exists>i. 1 \<le> i \<and> i \<le> length tail \<and> i \<le> length s \<and> drop (length tail - i) tail = take i s)"
    unfolding list_ex_iff set_upt Bex_def using py_from_neg [of _ tail] by (auto simp: less_Suc_eq_le)
  then show ?case using Cons.IH by auto
qed simp

lemma token_finish_loop_spec:
  assumes "\<forall>x \<in> set a. \<not> stops_at r x" and "stops_at r t"
  shows "token_finish_loop r i (a @ t # b) = (True,
    r\<lparr>finished_reason := Some (FINISH_MATCHED_TOKEN t), finished_len := Some (i + int (length a) + 1)\<rparr>)"
  using assms(1)
proof (induction a arbitrary: i)
  case Nil
  then show ?case using assms(2) by simp
next
  case (Cons x a)
  then show ?case using Cons.IH [of "i + 1"] by (simp add: algebra_simps)
qed

lemma vocab_finish_loop_iff:
  "vocab_size r = Some v \<Longrightarrow>
   (\<exists>r'. vocab_finish_loop first r i ts = Inr (True, r')) \<longleftrightarrow> (\<exists>t \<in> set ts. t < 0 \<or> v < t)"
  by (induction ts arbitrary: i) auto

definition detok_step :: "int list \<Rightarrow> req \<Rightarrow> req" where
  "detok_step new r = snd (init_incremental_detokenize (r\<lparr>output_ids := output_ids r @ new\<rparr>))"

lemma detok_step_first:
  assumes "surr_offset r = None" and "finished_len r = None"
  shows "surr_and_decode_ids (detok_step e r) = drop (length (origin_input_ids_unpadded r) - 5)
      (origin_input_ids_unpadded r) @ output_ids r @ e"
    and "cur_decode_ids_len (detok_step e r) = length (output_ids r @ e)"
    and "output_ids (detok_step e r) = output_ids r @ e" and "finished_len (detok_step e r) = None"
    and "surr_offset (detok_step e r) \<noteq> None" and "read_offset (detok_step e r) \<noteq> None"
  using assms by (simp_all add: detok_step_def init_incremental_detokenize_def Let_def
      output_ids_through_stop_def INIT_INCREMENTAL_DETOKENIZATION_OFFSET_def split: option.splits)

lemma detok_step_next:
  assumes "surr_offset r \<noteq> None" "read_offset r \<noteq> None" and "finished_len r = None"
    and "cur_decode_ids_len r = length (output_ids r)"
  shows "surr_and_decode_ids (detok_step e r) = surr_and_decode_ids r @ e"
    and "cur_decode_ids_len (detok_step e r) = length (output_ids (detok_step e r))"
    and "output_ids (detok_step e r) = output_ids r @ e" and "finished_len (detok_step e r) = None"
    and "surr_offset (detok_step e r) \<noteq> None" and "read_offset (detok_step e r) \<noteq> None"
  using assms by (auto simp: detok_step_def init_incremental_detokenize_def Let_def
      output_ids_through_stop_def)

lemma detok_steps:
  assumes "surr_offset r \<noteq> None" "read_offset r \<noteq> None" and "finished_len r = None"
    and "cur_decode_ids_len r = length (output_ids r)"
  shows "surr_and_decode_ids (fold detok_step es r) = surr_and_decode_ids r @ concat es"
  using assms
proof (induction es arbitrary: r)
  case (Cons e es)
  note d = detok_step_next [OF Cons.prems, of e]
  show ?case using Cons.IH [OF d(5,6,4,2)] d(1) by simp
qed simp

definition demo_req :: req where
  "demo_req = (req_init ''r'' [10, 11] [] demo_params False False None None None (Some 100) None None)
     \<lparr>output_ids := [1, 2, 7, 3]\<rparr>"

lemmas demo_req_simps = demo_req_def req_init_def demo_params_def sampling_params_init_def special_cases_def
  SAMPLING_EPS_def float_le_def

section \<open>Properties\<close>

text \<open>
  (C21) When a running request gets new tokens of which one is a stop or end-of-sequence token, it
  finishes at the first such token: that token is the finish reason, and the output through the stop
  is the earlier output and the new tokens up to and including it.
\<close>

theorem check_finished_stop_token:
  assumes "\<not> finished r" and "to_finish r = None" and "max_new_tokens (sampling r) = Some m"
    and "int (length (output_ids r)) < m" and "grammar_terminated r \<noteq> Some True" and "\<not> ignore_eos (sampling r)"
    and "output_ids r = old @ a @ t # b" and "\<forall>x \<in> set a. \<not> stops_at r x" and "stops_at r t"
  shows "\<exists>r'. check_finished re_search first (length (a @ t # b)) r = Inr r' \<and>
    finished_reason r' = Some (FINISH_MATCHED_TOKEN t) \<and> output_ids_through_stop r' = old @ a @ [t]"
proof -
  have new: "py_from (output_ids r) (- int (length (a @ t # b))) = a @ t # b"
    using py_from_neg [of "length (a @ t # b)" "output_ids r"] assms(7) by simp
  have "check_token_based_finish r (a @ t # b) = (True,
      r\<lparr>finished_reason := Some (FINISH_MATCHED_TOKEN t), finished_len := Some (int (length old + length a + 1))\<rparr>)"
    using token_finish_loop_spec [OF assms(8,9)] assms(6,7) by (simp add: check_token_based_finish_def)
  then have "check_finished re_search first (length (a @ t # b)) r = Inr
      (r\<lparr>finished_reason := Some (FINISH_MATCHED_TOKEN t), finished_len := Some (int (length old + length a + 1))\<rparr>)"
    using assms(1-5) new by (simp add: check_finished_def Let_def)
  then show ?thesis using assms(7)
    by (simp add: output_ids_through_stop_def py_to_nat del: of_nat_add of_nat_Suc)
qed

theorem check_finished_stop_token_witness:
  "\<exists>r'. check_finished (\<lambda>_ _. False) (\<lambda>_. 0) (length ([2] @ 7 # [3::int])) demo_req = Inr r' \<and>
    finished_reason r' = Some (FINISH_MATCHED_TOKEN 7) \<and> output_ids_through_stop r' = [1] @ [2] @ [7]"
  by (rule check_finished_stop_token [where m = 16])
    (simp_all add: demo_req_simps finished_def stops_at_def in_opt_def)

text \<open>
  (C36) Streaming never emits the beginning of a stop string: if the tail of the output followed by
  any further text contains a stop string that starts within the tail, the prefix check holds.
\<close>

theorem stop_prefix_complete:
  assumes "s \<in> set ss" and "s \<noteq> []" and "j < length tail" and "take (length s) (drop j (tail @ w)) = s"
  shows "match_stop_prefix ss tail"
proof (cases "j + length s \<le> length tail")
  case True
  then have "take (length s) (drop j tail) = s" using assms(4) by simp
  then show ?thesis using assms(1-3) by (auto simp: match_stop_prefix_iff str_in_iff intro: less_imp_le)
next
  case False
  let ?i = "length tail - j"
  have "take ?i (take (length s) (drop j (tail @ w))) = take ?i s" using assms(4) by simp
  then have "drop j tail = take ?i s" using False assms(3) by (simp add: min_def)
  then have "drop (length tail - ?i) tail = take ?i s" using assms(3) by simp
  then show ?thesis using False assms(1-3) unfolding match_stop_prefix_iff
    by (intro bexI [of _ s] conjI disjI2 exI [of _ ?i]) auto
qed

theorem stop_prefix_complete_witness: "match_stop_prefix [''</end>''] ''some text </e''"
  by (rule stop_prefix_complete [where s = "''</end>''" and j = 10 and w = "''nd> more''"]) simp_all

text \<open>
  (C37) Incremental detokenisation gives the same ids as starting over: after any number of rounds
  with new tokens, the ids to decode are the last five prompt ids and the whole output.
\<close>

theorem detokenize_incremental:
  assumes "surr_offset r = None" and "finished_len r = None" and "es \<noteq> []"
  shows "surr_and_decode_ids (fold detok_step es r) =
    drop (length (origin_input_ids_unpadded r) - 5) (origin_input_ids_unpadded r) @ output_ids r @ concat es"
proof -
  obtain e es' where es: "es = e # es'" using assms(3) by (cases es) auto
  note d = detok_step_first [OF assms(1,2), of e]
  show ?thesis using detok_steps [OF d(5,6,4)] d(1-3) es by simp
qed

theorem detokenize_incremental_witness:
  "surr_and_decode_ids (fold detok_step [[4], [5, 6]] demo_req) = [10, 11, 1, 2, 7, 3, 4, 5, 6]"
  using detokenize_incremental [of demo_req "[[4], [5, 6]]"] by (simp add: demo_req_simps)

text \<open>
  (C38) The vocabulary check fires exactly on the ids below 0 and above \<open>vocab_size\<close>. The id \<open>vocab_size\<close>
  itself is one past the last valid id, yet it passes.
\<close>

theorem vocab_boundary_exact:
  assumes "vocab_size r = Some v" and "0 \<le> v"
  shows "((\<exists>r'. check_vocab_boundary_finish first r new = Inr (True, r')) \<longleftrightarrow> (\<exists>t \<in> set new. t < 0 \<or> v < t)) \<and>
    check_vocab_boundary_finish first r [v] = Inr (False, r)"
  using assms vocab_finish_loop_iff [OF assms(1), of first _ new] by (simp add: check_vocab_boundary_finish_def)

theorem vocab_boundary_exact_witness: "check_vocab_boundary_finish (\<lambda>_. 0) demo_req [100] = Inr (False, demo_req)"
  using vocab_boundary_exact [of demo_req 100 "\<lambda>_. 0" "[]"] by (simp add: demo_req_simps)

end
