(* ===== verification/KV_Allocator.thy ===== *)
theory KV_Allocator
  imports Prelude
begin

text \<open>
  The slot allocators of \<^verbatim>\<open>mem_cache/allocator.py\<close> that hand out one slot per token: the state
  and operations of \<open>BaseTokenToKVPoolAllocator\<close> and \<open>TokenToKVPoolAllocator\<close>, the contract an
  allocator gives its clients (locale \<open>kv_pool\<close>), and the interpretation of the contract on the
  token allocator. Slots are \<open>int\<close>s, as the int64 tensors of the code; tensors are lists.
\<close>

section \<open>The base allocator\<close>

record kv_alloc =
  kv_size :: nat
  kv_page_size :: nat
  kv_need_sort :: bool
  free_pages :: "int list"
  release_pages :: "int list"
  is_not_in_free_group :: bool
  free_group :: "int list list"

definition available_size :: "'a kv_alloc_scheme \<Rightarrow> nat" where
  "available_size s = (length (free_pages s) + length (release_pages s)) * kv_page_size s"

definition backup_state :: "'a kv_alloc_scheme \<Rightarrow> int list \<times> int list" where
  "backup_state s = (free_pages s, release_pages s)"

definition restore_state ::
    "'a kv_alloc_scheme \<Rightarrow> int list \<times> int list \<Rightarrow> 'a kv_alloc_scheme" where
  "restore_state s st = s\<lparr>free_pages := fst st, release_pages := snd st\<rparr>"

definition free_group_begin :: "'a kv_alloc_scheme \<Rightarrow> 'a kv_alloc_scheme" where
  "free_group_begin s = s\<lparr>is_not_in_free_group := False, free_group := []\<rparr>"

text \<open>\<open>free_group_end\<close> calls the subclass's \<^verbatim>\<open>free\<close>, which is therefore an argument.\<close>

definition free_group_end ::
    "('a kv_alloc_scheme \<Rightarrow> int list \<Rightarrow> 'a kv_alloc_scheme) \<Rightarrow>
     'a kv_alloc_scheme \<Rightarrow> 'a kv_alloc_scheme" where
  "free_group_end free_fn s =
     (let s1 = s\<lparr>is_not_in_free_group := True\<rparr>
      in if free_group s1 \<noteq> [] then free_fn s1 (concat (free_group s1)) else s1)"

definition merge_and_sort_free :: "'a kv_alloc_scheme \<Rightarrow> 'a kv_alloc_scheme" where
  "merge_and_sort_free s =
     (if length (release_pages s) > 0
      then s\<lparr>free_pages := sort (free_pages s @ release_pages s), release_pages := []\<rparr>
      else s)"

section \<open>The token allocator\<close>

definition token_clear :: "'a kv_alloc_scheme \<Rightarrow> 'a kv_alloc_scheme" where
  "token_clear s = s\<lparr>free_pages := map int [1..<Suc (kv_size s)],
     is_not_in_free_group := True, free_group := [], release_pages := []\<rparr>"

definition token_init :: "nat \<Rightarrow> bool \<Rightarrow> kv_alloc" where
  "token_init sz need_sort = token_clear
     \<lparr>kv_size = sz, kv_page_size = 1, kv_need_sort = need_sort, free_pages = [],
      release_pages = [], is_not_in_free_group = True, free_group = []\<rparr>"

definition token_available_size :: "'a kv_alloc_scheme \<Rightarrow> nat" where
  "token_available_size s = length (free_pages s) + length (release_pages s)"

definition token_alloc ::
    "'a kv_alloc_scheme \<Rightarrow> nat \<Rightarrow> int list option \<times> 'a kv_alloc_scheme" where
  "token_alloc s need_size =
     (let s1 = (if kv_need_sort s \<and> need_size > length (free_pages s)
                then merge_and_sort_free s else s)
      in if need_size > length (free_pages s1) then (None, s1)
         else (Some (take need_size (free_pages s1)),
               s1\<lparr>free_pages := drop need_size (free_pages s1)\<rparr>))"

definition token_free :: "'a kv_alloc_scheme \<Rightarrow> int list \<Rightarrow> 'a kv_alloc_scheme" where
  "token_free s free_index =
     (if length free_index = 0 then s
      else if is_not_in_free_group s
      then (if kv_need_sort s
            then s\<lparr>release_pages := release_pages s @ free_index\<rparr>
            else s\<lparr>free_pages := free_pages s @ free_index\<rparr>)
      else s\<lparr>free_group := free_group s @ [free_index]\<rparr>)"

section \<open>The contract of an allocator\<close>

text \<open>
  A run of a client: a state of the allocator together with the slots the client holds. The
  client may ask for any number of slots that is a multiple of the granularity, and may return
  any \<open>freeable\<close> batch of slots it holds.
\<close>

inductive pool_step ::
    "('s \<Rightarrow> nat \<Rightarrow> int list option \<times> 's) \<Rightarrow> ('s \<Rightarrow> int list \<Rightarrow> 's) \<Rightarrow> ('s \<Rightarrow> nat) \<Rightarrow>
     ('s \<Rightarrow> int list \<Rightarrow> bool) \<Rightarrow> 's \<times> int multiset \<Rightarrow> 's \<times> int multiset \<Rightarrow> bool"
  for alloc free gran freeable where
  step_alloc: "gran s dvd n \<Longrightarrow> alloc s n = (Some xs, s') \<Longrightarrow>
     pool_step alloc free gran freeable (s, out) (s', out + mset xs)"
| step_fail: "gran s dvd n \<Longrightarrow> alloc s n = (None, s') \<Longrightarrow>
     pool_step alloc free gran freeable (s, out) (s', out)"
| step_free: "mset xs \<subseteq># out \<Longrightarrow> freeable s xs \<Longrightarrow>
     pool_step alloc free gran freeable (s, out) (free s xs, out - mset xs)"

abbreviation pool_run ::
    "('s \<Rightarrow> nat \<Rightarrow> int list option \<times> 's) \<Rightarrow> ('s \<Rightarrow> int list \<Rightarrow> 's) \<Rightarrow> ('s \<Rightarrow> nat) \<Rightarrow>
     ('s \<Rightarrow> int list \<Rightarrow> bool) \<Rightarrow> 's \<times> int multiset \<Rightarrow> 's \<times> int multiset \<Rightarrow> bool" where
  "pool_run alloc free gran freeable \<equiv> (pool_step alloc free gran freeable)\<^sup>*\<^sup>*"

locale kv_pool =
  fixes alloc :: "'s \<Rightarrow> nat \<Rightarrow> int list option \<times> 's"
    and free :: "'s \<Rightarrow> int list \<Rightarrow> 's"
    and avail :: "'s \<Rightarrow> nat"
    and gran :: "'s \<Rightarrow> nat"
    and freeable :: "'s \<Rightarrow> int list \<Rightarrow> bool"
    and slots :: "'s \<Rightarrow> int multiset"
    and invar :: "'s \<Rightarrow> bool"
  assumes avail_slots: "invar s \<Longrightarrow> avail s = size (slots s)"
    and alloc_Some: "invar s \<Longrightarrow> gran s dvd n \<Longrightarrow> alloc s n = (Some xs, s') \<Longrightarrow>
          invar s' \<and> length xs = n \<and> slots s = mset xs + slots s'"
    and alloc_None: "invar s \<Longrightarrow> gran s dvd n \<Longrightarrow> alloc s n = (None, s') \<Longrightarrow>
          invar s' \<and> slots s' = slots s \<and> avail s < n"
    and free_slots: "invar s \<Longrightarrow> freeable s xs \<Longrightarrow>
          invar (free s xs) \<and> slots (free s xs) = slots s + mset xs"
begin

lemma alloc_enough:
  assumes "invar s" and "gran s dvd n" and "n \<le> avail s"
  shows "\<exists>xs s'. alloc s n = (Some xs, s') \<and> length xs = n \<and> avail s' = avail s - n"
proof (cases "alloc s n")
  case (Pair r s')
  show ?thesis
  proof (cases r)
    case None
    with alloc_None [OF assms(1,2), of s'] Pair assms(3) show ?thesis by simp
  next
    case (Some xs)
    with Pair alloc_Some [OF assms(1,2), of xs s']
    have *: "invar s'" "length xs = n" "slots s = mset xs + slots s'" by auto
    with assms(1) have "avail s' = avail s - n" by (simp add: avail_slots)
    with * Pair Some show ?thesis by simp
  qed
qed

lemma step_invar_conserve:
  assumes "pool_step alloc free gran freeable (s, out) (s', out')" and "invar s"
  shows "invar s' \<and> slots s' + out' = slots s + out"
  using assms
proof (cases rule: pool_step.cases)
  case (step_alloc n xs)
  then show ?thesis using alloc_Some [OF assms(2)] by (simp add: ac_simps)
next
  case (step_fail n)
  then show ?thesis using alloc_None [OF assms(2)] by simp
next
  case (step_free xs)
  then have "out = mset xs + (out - mset xs)" by simp
  with step_free show ?thesis using free_slots [OF assms(2)] by (metis add.assoc)
qed

lemma run_invar_conserve:
  assumes "pool_run alloc free gran freeable (s, out) (s', out')" and "invar s"
  shows "invar s' \<and> slots s' + out' = slots s + out"
  using assms
proof (induction "(s', out')" arbitrary: s' out' rule: rtranclp_induct)
  case base
  then show ?case by simp
next
  case (step y)
  obtain t o1 where y: "y = (t, o1)" by (cases y)
  with step.hyps(3) step.prems have "invar t" and "slots t + o1 = slots s + out" by auto
  with step_invar_conserve [of t o1 s' out'] step.hyps(2) y show ?case by auto
qed

text \<open>No slot is handed out twice: a fresh allocation is disjoint from everything held.\<close>

lemma run_alloc_disjoint:
  assumes run: "pool_run alloc free gran freeable (s0, {#}) (s, out)"
    and s0: "invar s0" and dist: "slots s0 = mset_set A"
    and al: "gran s dvd n" "alloc s n = (Some xs, s')"
  shows "distinct xs \<and> set xs \<inter> set_mset out = {} \<and> set xs \<subseteq> A \<and> length xs = n"
proof (cases "finite A")
  case True
  from run_invar_conserve [OF run s0] have inv: "invar s" and eq: "slots s + out = mset_set A"
    by (auto simp: dist)
  from alloc_Some [OF inv al] have s: "slots s = mset xs + slots s'" and len: "length xs = n"
    by auto
  have tot: "mset xs + slots s' + out = mset_set A" using eq s by simp
  from mset_set_part [OF tot True] len show ?thesis by simp
next
  case False
  from run_invar_conserve [OF run s0] have inv: "invar s" and eq: "slots s + out = {#}"
    using False by (auto simp: dist)
  from alloc_Some [OF inv al] eq show ?thesis by auto
qed

text \<open>The whole contract in every reachable state.\<close>

lemma run_alloc_exact:
  assumes run: "pool_run alloc free gran freeable (s0, {#}) (s, out)"
    and s0: "invar s0" and dist: "slots s0 = mset_set A" and gran: "gran s dvd n"
  shows "avail s + size out = card A \<and>
    (case alloc s n of
       (None, s') \<Rightarrow> avail s < n \<and> slots s' = slots s
     | (Some xs, s') \<Rightarrow> length xs = n \<and> n \<le> avail s \<and> distinct xs \<and>
         set xs \<subseteq> A \<and> set xs \<inter> set_mset out = {} \<and> avail s' = avail s - n)"
proof -
  from run_invar_conserve [OF run s0] have inv: "invar s" and eq: "slots s + out = mset_set A"
    by (auto simp: dist)
  from arg_cong [OF eq, of size] have av: "avail s + size out = card A"
    by (simp add: avail_slots [OF inv])
  obtain r s' where al: "alloc s n = (r, s')" by (cases "alloc s n")
  show ?thesis
  proof (cases r)
    case None
    then show ?thesis using alloc_None [OF inv gran] al av by simp
  next
    case (Some xs)
    with al have al: "alloc s n = (Some xs, s')" by simp
    from alloc_Some [OF inv gran al] have "invar s'" and "size (slots s) = n + size (slots s')"
      by auto
    then have "avail s = n + avail s'" by (simp add: avail_slots inv)
    with run_alloc_disjoint [OF run s0 dist gran al] al av show ?thesis by simp
  qed
qed

end

section \<open>The token allocator meets the contract\<close>

definition token_slots :: "'a kv_alloc_scheme \<Rightarrow> int multiset" where
  "token_slots s = mset (free_pages s) + mset (release_pages s)"

definition token_invar :: "'a kv_alloc_scheme \<Rightarrow> bool" where
  "token_invar s \<longleftrightarrow> kv_page_size s = 1 \<and> is_not_in_free_group s \<and>
     (\<not> kv_need_sort s \<longrightarrow> release_pages s = [])"

lemma merge_and_sort_free_slots [simp, kv_simps]:
  "token_slots (merge_and_sort_free s) = token_slots s"
  by (simp add: token_slots_def merge_and_sort_free_def)

lemma merge_and_sort_free_frame [simp, kv_simps]:
  "kv_size (merge_and_sort_free s) = kv_size s"
  "kv_page_size (merge_and_sort_free s) = kv_page_size s"
  "kv_need_sort (merge_and_sort_free s) = kv_need_sort s"
  "is_not_in_free_group (merge_and_sort_free s) = is_not_in_free_group s"
  "free_group (merge_and_sort_free s) = free_group s"
  "release_pages (merge_and_sort_free s) = []"
  "length (free_pages (merge_and_sort_free s)) = length (free_pages s) + length (release_pages s)"
  by (auto simp: merge_and_sort_free_def)

interpretation tok: kv_pool token_alloc token_free token_available_size kv_page_size
  "\<lambda>_ _. True" token_slots token_invar
proof unfold_locales
  fix s :: "'a kv_alloc_scheme"
  show "token_available_size s = size (token_slots s)"
    by (simp add: token_available_size_def token_slots_def)
next
  fix s s' :: "'a kv_alloc_scheme" and n xs
  assume inv: "token_invar s" and al: "token_alloc s n = (Some xs, s')"
  define s1 where "s1 = (if kv_need_sort s \<and> n > length (free_pages s)
    then merge_and_sort_free s else s)"
  from inv have inv1: "token_invar s1" by (auto simp: s1_def token_invar_def)
  have sl: "token_slots s1 = token_slots s" by (simp add: s1_def)
  from al have len: "n \<le> length (free_pages s1)" and xs: "xs = take n (free_pages s1)"
    and s': "s' = s1\<lparr>free_pages := drop n (free_pages s1)\<rparr>"
    by (auto simp: token_alloc_def s1_def [symmetric] split: if_splits)
  have "mset (free_pages s1) = mset xs + mset (free_pages s')"
    by (simp add: xs s' take_drop_mset [of "free_pages s1" n, symmetric])
  then have "token_slots s1 = mset xs + token_slots s'"
    by (simp add: token_slots_def s')
  then have "token_slots s = mset xs + token_slots s'" using sl by simp
  with len xs s' inv1 show "token_invar s' \<and> length xs = n \<and> token_slots s = mset xs + token_slots s'"
    by (simp add: token_invar_def)
next
  fix s s' :: "'a kv_alloc_scheme" and n
  assume "token_invar s" and "token_alloc s n = (None, s')"
  then show "token_invar s' \<and> token_slots s' = token_slots s \<and> token_available_size s < n"
    by (auto simp: token_alloc_def token_invar_def token_available_size_def Let_def
        split: if_splits)
next
  fix s :: "'a kv_alloc_scheme" and xs
  assume "token_invar s"
  then show "token_invar (token_free s xs) \<and> token_slots (token_free s xs) = token_slots s + mset xs"
    by (auto simp: token_free_def token_invar_def token_slots_def)
qed

lemma token_init_invar [simp]: "token_invar (token_init sz need_sort)"
  by (simp add: token_init_def token_clear_def token_invar_def)

lemma token_init_slots: "token_slots (token_init sz need_sort) = mset_set {1..int sz}"
proof -
  have "set (map int [1..<Suc sz]) = {1..int sz}"
  proof
    show "{1..int sz} \<subseteq> set (map int [1..<Suc sz])"
    proof
      fix x assume "x \<in> {1..int sz}"
      then have "x = int (nat x)" and "nat x \<in> {1..<Suc sz}" by auto
      then show "x \<in> set (map int [1..<Suc sz])"
        by (metis imageI list.set_map set_upt)
    qed
  qed auto
  moreover have "distinct (map int [1..<Suc sz])" by (simp add: distinct_map)
  ultimately have "mset (map int [1..<Suc sz]) = mset_set {1..int sz}"
    by (metis mset_set_set)
  then show ?thesis by (simp add: token_init_def token_clear_def token_slots_def)
qed

text \<open>Frees collected in a group reach the pool when the group ends, none before.\<close>

fun token_free_all :: "'a kv_alloc_scheme \<Rightarrow> int list list \<Rightarrow> 'a kv_alloc_scheme" where
  "token_free_all s [] = s"
| "token_free_all s (xs # xss) = token_free_all (token_free s xs) xss"

lemma token_free_all_in_group:
  "\<not> is_not_in_free_group s \<Longrightarrow>
   token_free_all s xss = s\<lparr>free_group := free_group s @ filter (\<lambda>xs. xs \<noteq> []) xss\<rparr>"
  by (induction xss arbitrary: s) (auto simp: token_free_def)

lemma concat_filter_nonempty: "concat (filter (\<lambda>xs. xs \<noteq> []) xss) = concat xss"
  by (induction xss) auto

lemma token_free_group_slots:
  assumes "token_invar s"
  shows "token_slots (free_group_end token_free (token_free_all (free_group_begin s) xss))
       = token_slots s + mset (concat xss)"
    and "token_invar (free_group_end token_free (token_free_all (free_group_begin s) xss))"
  using assms
  by (auto simp: free_group_begin_def token_free_all_in_group free_group_end_def Let_def
      token_free_def token_slots_def token_invar_def concat_filter_nonempty filter_empty_conv)

section \<open>Properties of the token allocator\<close>

text \<open>
  (C16) In every state the token allocator reaches from its construction, by allocations and by frees
  of held slots in any order, the available size is the pool size less the slots held; an
  allocation of \<open>n\<close> slots fails exactly when fewer than \<open>n\<close> are available, and otherwise returns
  \<open>n\<close> distinct slots of \<open>1..size\<close>, none of which is held by a client (the padding slot 0 is never
  handed out).
\<close>

theorem token_pool_exact:
  assumes "pool_run token_alloc token_free kv_page_size (\<lambda>_ _. True)
    (token_init sz need_sort, {#}) (s, out)"
  shows "token_available_size s + size out = sz \<and>
    (case token_alloc s n of
       (None, s') \<Rightarrow> token_available_size s < n \<and> token_slots s' = token_slots s
     | (Some xs, s') \<Rightarrow> length xs = n \<and> n \<le> token_available_size s \<and> distinct xs \<and>
         set xs \<subseteq> {1..int sz} \<and> set xs \<inter> set_mset out = {} \<and>
         token_available_size s' = token_available_size s - n)"
proof -
  have "token_invar s" using tok.run_invar_conserve [OF assms token_init_invar] by simp
  then have "kv_page_size s dvd n" by (simp add: token_invar_def)
  from tok.run_alloc_exact [OF assms token_init_invar token_init_slots this]
  show ?thesis by simp
qed

lemma token_demo_run:
  "pool_run token_alloc token_free kv_page_size (\<lambda>_ _. True) (token_init 4 False, {#})
     (token_free (snd (token_alloc (token_init 4 False) 3)) [2], {#1, 3#})"
proof -
  let ?s = "token_init 4 False" and ?t = "snd (token_alloc (token_init 4 False) 3)"
  have al: "token_alloc ?s 3 = (Some [1, 2, 3], ?t)"
    by (simp add: token_alloc_def token_init_def token_clear_def upt_rec)
  have 1: "pool_step token_alloc token_free kv_page_size (\<lambda>_ _. True) (?s, {#}) (?t, {#1, 2, 3#})"
    using pool_step.step_alloc [of kv_page_size ?s 3 token_alloc "[1, 2, 3]" ?t token_free
        "\<lambda>_ _. True" "{#}"] al
    by (simp add: token_init_def token_clear_def)
  have 2: "pool_step token_alloc token_free kv_page_size (\<lambda>_ _. True) (?t, {#1, 2, 3#})
      (token_free ?t [2], {#1, 3#})"
    using pool_step.step_free [of "[2]" "{#1, 2, 3#}" "\<lambda>_ _. True" ?t token_alloc token_free kv_page_size]
    by simp
  show ?thesis using 1 2 by (meson converse_rtranclp_into_rtranclp r_into_rtranclp)
qed

theorem token_pool_exact_witness:
  "token_available_size (token_free (snd (token_alloc (token_init 4 False) 3)) [2])
     + size {#1, 3 :: int#} = 4 \<and>
   fst (token_alloc (token_free (snd (token_alloc (token_init 4 False) 3)) [2]) 2) = Some [4, 2]"
  using token_pool_exact [OF token_demo_run, of 2]
  by (simp add: token_alloc_def token_free_def token_init_def token_clear_def upt_rec)

text \<open>
  A free group is transparent: freeing batches between \<open>free_group_begin\<close> and
  \<open>free_group_end\<close> returns exactly the slots of all the batches to the pool, and restores the
  allocator's invariant; before the group ends none of them is available.
\<close>

lemma token_free_group_exact:
  assumes "token_invar s"
  shows "token_slots (token_free_all (free_group_begin s) xss) = token_slots s \<and>
    token_slots (free_group_end token_free (token_free_all (free_group_begin s) xss))
      = token_slots s + mset (concat xss) \<and>
    token_invar (free_group_end token_free (token_free_all (free_group_begin s) xss))"
  using token_free_group_slots [OF assms]
  by (simp add: free_group_begin_def token_free_all_in_group token_slots_def)

end
