(* ===== verification/Req_Pool.thy ===== *)
theory Req_Pool
  imports KV_Allocator
begin

text \<open>
  \<open>ReqToTokenPool\<close> of \<^verbatim>\<open>mem_cache/memory_pool.py\<close>: the table that maps a running request to the KV
  slots of its tokens, and its allocator of rows. The table is a list of rows of 32-bit integers;
  a write converts to that width. Rows are allocated by the same contract as KV slots.
\<close>

record req_pool =
  rp_size :: nat
  max_context_len :: nat
  req_to_token :: "int list list"
  free_slots :: "int list"

definition to_int32 :: "int \<Rightarrow> int" where
  "to_int32 x = (x + 2 ^ 31) mod 2 ^ 32 - 2 ^ 31"

lemma to_int32_id [simp]: "0 \<le> x \<Longrightarrow> x < 2 ^ 31 \<Longrightarrow> to_int32 x = x"
  by (simp add: to_int32_def)

lemma to_int32_range: "- (2 ^ 31) \<le> to_int32 x \<and> to_int32 x < 2 ^ 31"
proof -
  have "0 \<le> (x + 2 ^ 31) mod 2 ^ 32" and "(x + 2 ^ 31) mod 2 ^ 32 < (2 ^ 32 :: int)" by simp_all
  then show ?thesis by (simp add: to_int32_def)
qed

definition req_pool_init :: "nat \<Rightarrow> nat \<Rightarrow> req_pool" where
  "req_pool_init sz ctx = \<lparr>rp_size = sz, max_context_len = ctx,
     req_to_token = replicate sz (replicate ctx 0), free_slots = map int [0..<sz]\<rparr>"

text \<open>
  \<^verbatim>\<open>write((row, slice(a, b)), values)\<close>: the slice assignment of a tensor, which broadcasts a
  single value and raises when the shapes differ.
\<close>

definition write_slice ::
    "req_pool \<Rightarrow> int \<Rightarrow> int \<Rightarrow> int \<Rightarrow> int list \<Rightarrow> req_pool result" where
  "write_slice p i a b values =
     (if i < 0 \<or> int (length (req_to_token p)) \<le> i then Inl IndexError
      else let row = req_to_token p ! nat i;
               lo = py_bound (length row) a; hi = py_bound (length row) b;
               put = (\<lambda>vs. Inr (p\<lparr>req_to_token := (req_to_token p)
                 [nat i := take lo row @ map to_int32 vs @ drop (max lo hi) row]\<rparr>))
           in if length values = hi - lo then put values
              else if length values = 1 then put (replicate (hi - lo) (hd values))
              else Inl RuntimeError)"

text \<open>
  \<^verbatim>\<open>write((rows, cols), values)\<close> with index tensors: one element per entry, in order.
\<close>

fun write_points :: "req_pool \<Rightarrow> int list \<Rightarrow> int list \<Rightarrow> int list \<Rightarrow> req_pool result" where
  "write_points p [] [] [] = Inr p"
| "write_points p (r # rs) (c # cs) (v # vs) =
     (if r < 0 \<or> int (length (req_to_token p)) \<le> r then Inl IndexError
      else if c < 0 \<or> int (length (req_to_token p ! nat r)) \<le> c then Inl IndexError
      else write_points (p\<lparr>req_to_token := (req_to_token p)
             [nat r := (req_to_token p ! nat r)[nat c := to_int32 v]]\<rparr>) rs cs vs)"
| "write_points p _ _ _ = Inl IndexError"

definition rp_available_size :: "req_pool \<Rightarrow> nat" where
  "rp_available_size p = length (free_slots p)"

definition rp_alloc :: "req_pool \<Rightarrow> nat \<Rightarrow> int list option \<times> req_pool" where
  "rp_alloc p need_size =
     (if need_size > length (free_slots p) then (None, p)
      else (Some (take need_size (free_slots p)),
            p\<lparr>free_slots := drop need_size (free_slots p)\<rparr>))"

datatype free_arg = FreeOne int | FreeMany "int list"

fun rp_free :: "req_pool \<Rightarrow> free_arg \<Rightarrow> req_pool" where
  "rp_free p (FreeOne i) = p\<lparr>free_slots := free_slots p @ [i]\<rparr>"
| "rp_free p (FreeMany is) = p\<lparr>free_slots := free_slots p @ is\<rparr>"

definition rp_clear :: "req_pool \<Rightarrow> req_pool" where
  "rp_clear p = p\<lparr>free_slots := map int [0..<rp_size p]\<rparr>"

section \<open>The row allocator meets the allocator contract\<close>

interpretation rows: kv_pool rp_alloc "\<lambda>p xs. rp_free p (FreeMany xs)" rp_available_size
  "\<lambda>_. 1" "\<lambda>_ _. True" "\<lambda>p. mset (free_slots p)" "\<lambda>_. True"
  by unfold_locales
    (auto simp: rp_alloc_def rp_available_size_def take_drop_mset [symmetric] split: if_splits)

section \<open>Reading back what was written\<close>

definition row_of :: "req_pool \<Rightarrow> int \<Rightarrow> int list" where
  "row_of p i = req_to_token p ! nat i"

definition row_ok :: "req_pool \<Rightarrow> int \<Rightarrow> bool" where
  "row_ok p i \<longleftrightarrow> 0 \<le> i \<and> nat i < length (req_to_token p)"

lemma row_okD: "row_ok p i \<Longrightarrow> \<not> (i < 0 \<or> int (length (req_to_token p)) \<le> i)"
  by (auto simp: row_ok_def)

lemma write_slice_exact:
  assumes "row_ok p i" and "a \<le> b" and "b \<le> length (row_of p i)" and "length vs = b - a"
  shows "write_slice p i (int a) (int b) vs = Inr (p\<lparr>req_to_token := (req_to_token p)
    [nat i := take a (row_of p i) @ map to_int32 vs @ drop b (row_of p i)]\<rparr>)"
  using assms row_okD [OF assms(1)]
  by (auto simp: write_slice_def row_of_def py_bound_def Let_def max_def min_def)

lemma write_slice_read:
  assumes "row_ok p i" and "a \<le> b" and "b \<le> length (row_of p i)" and "length vs = b - a"
    and "\<forall>v \<in> set vs. 0 \<le> v \<and> v < 2 ^ 31"
    and w: "write_slice p i (int a) (int b) vs = Inr p'"
  shows "row_of p' i = take a (row_of p i) @ vs @ drop b (row_of p i)"
    and "j \<noteq> nat i \<Longrightarrow> req_to_token p' ! j = req_to_token p ! j"
    and "free_slots p' = free_slots p"
proof -
  have "map to_int32 vs = vs" using assms(5) by (simp add: map_idI)
  with w write_slice_exact [OF assms(1-4)] assms(1)
  show "row_of p' i = take a (row_of p i) @ vs @ drop b (row_of p i)"
    by (auto simp: row_of_def row_ok_def)
  show "j \<noteq> nat i \<Longrightarrow> req_to_token p' ! j = req_to_token p ! j"
    and "free_slots p' = free_slots p"
    using w write_slice_exact [OF assms(1-4)] by auto
qed

lemma write_points_free_slots: "write_points p rs cs vs = Inr p' \<Longrightarrow> free_slots p' = free_slots p"
  by (induction p rs cs vs rule: write_points.induct) (auto split: if_splits)

text \<open>
  Writing the values \<open>vs\<close> (slots below \<open>2\<^sup>3\<^sup>1\<close>, the range of the int32 table) to positions \<open>a..b\<close> of a
  request's row succeeds, puts exactly these values there, keeps the rest of the row, every other row
  and the free rows.
\<close>

lemma req_pool_write_read:
  assumes "row_ok p i" and "a \<le> b" and "b \<le> length (row_of p i)" and "length vs = b - a"
    and "\<forall>v \<in> set vs. 0 \<le> v \<and> v < 2 ^ 31"
  shows "\<exists>p'. write_slice p i (int a) (int b) vs = Inr p' \<and>
    row_of p' i = take a (row_of p i) @ vs @ drop b (row_of p i) \<and>
    (\<forall>j. j = nat i \<or> req_to_token p' ! j = req_to_token p ! j) \<and> free_slots p' = free_slots p"
proof -
  obtain p' where w: "write_slice p i (int a) (int b) vs = Inr p'"
    using write_slice_exact [OF assms(1-4)] by blast
  from write_slice_read [OF assms w] w show ?thesis by blast
qed

section \<open>The type of the table\<close>

text \<open>
  The operations as the clients of the pool use them; \<open>H\<close> are the rows handed out, and only such a row
  is given back. Writes are arbitrary.
\<close>

inductive pool_step :: "req_pool \<times> int multiset \<Rightarrow> req_pool \<times> int multiset \<Rightarrow> bool" where
  do_alloc: "rp_alloc p n = (Some is, p') \<Longrightarrow> pool_step (p, H) (p', H + mset is)"
| do_refuse: "rp_alloc p n = (None, p') \<Longrightarrow> pool_step (p, H) (p', H)"
| do_free_one: "pool_step (p, add_mset i H) (rp_free p (FreeOne i), H)"
| do_free_many: "pool_step (p, mset is + H) (rp_free p (FreeMany is), H)"
| do_write_slice: "write_slice p i a b vs = Inr p' \<Longrightarrow> pool_step (p, H) (p', H)"
| do_write_points: "write_points p is cs vs = Inr p' \<Longrightarrow> pool_step (p, H) (p', H)"
| do_clear: "pool_step (p, H) (rp_clear p, {#})"

definition table_typed :: "req_pool \<Rightarrow> bool" where
  "table_typed p \<longleftrightarrow> length (req_to_token p) = rp_size p \<and>
     (\<forall>row \<in> set (req_to_token p). length row = max_context_len p \<and> (\<forall>v \<in> set row. - (2 ^ 31) \<le> v \<and> v < 2 ^ 31))"

definition pool_typed :: "req_pool \<times> int multiset \<Rightarrow> bool" where
  "pool_typed s \<longleftrightarrow> table_typed (fst s) \<and> mset (free_slots (fst s)) + snd s = mset (map int [0..<rp_size (fst s)])"

lemma table_typed_update:
  assumes "table_typed p" and "length row = max_context_len p" and "\<forall>v \<in> set row. - (2 ^ 31) \<le> v \<and> v < 2 ^ 31"
  shows "table_typed (p\<lparr>req_to_token := (req_to_token p)[k := row]\<rparr>)"
  using assms set_update_subset_insert [of "req_to_token p" k row] by (auto simp: table_typed_def)

lemma write_slice_typed:
  assumes "write_slice p i a b vs = Inr p'" and "table_typed p"
  shows "table_typed p' \<and> free_slots p' = free_slots p \<and> rp_size p' = rp_size p \<and> max_context_len p' = max_context_len p"
proof -
  let ?row = "req_to_token p ! nat i"
  let ?lo = "py_bound (length ?row) a" and ?hi = "py_bound (length ?row) b"
  define ws where "ws = (if length vs = ?hi - ?lo then vs else replicate (?hi - ?lo) (hd vs))"
  have ws: "length ws = ?hi - ?lo" "0 \<le> i" "i < int (length (req_to_token p))"
    "p' = p\<lparr>req_to_token := (req_to_token p)[nat i := take ?lo ?row @ map to_int32 ws @ drop (max ?lo ?hi) ?row]\<rparr>"
    using assms(1) by (auto simp: ws_def write_slice_def Let_def split: if_splits)
  have "nat i < length (req_to_token p)" using ws(2,3) by linarith
  then have row: "length ?row = max_context_len p" "\<forall>v \<in> set ?row. - (2 ^ 31) \<le> v \<and> v < 2 ^ 31"
    using assms(2) nth_mem [of "nat i" "req_to_token p"] by (auto simp: table_typed_def)
  have "?lo \<le> length ?row" "?hi \<le> length ?row" by (auto simp: py_bound_def)
  then have "length (take ?lo ?row @ map to_int32 ws @ drop (max ?lo ?hi) ?row) = max_context_len p" using row(1) ws(1) by auto
  moreover have "\<forall>v \<in> set (take ?lo ?row @ map to_int32 ws @ drop (max ?lo ?hi) ?row). - (2 ^ 31) \<le> v \<and> v < 2 ^ 31"
    using row(2) to_int32_range by (auto dest: in_set_takeD in_set_dropD)
  ultimately show ?thesis using table_typed_update [OF assms(2)] ws(4) by simp
qed

lemma write_points_typed:
  "write_points p rs cs vs = Inr p' \<Longrightarrow> table_typed p \<Longrightarrow>
    table_typed p' \<and> free_slots p' = free_slots p \<and> rp_size p' = rp_size p \<and> max_context_len p' = max_context_len p"
proof (induction p rs cs vs rule: write_points.induct)
  case (2 p r rs c cs v vs)
  let ?row = "req_to_token p ! nat r"
  have ok: "\<not> (r < 0 \<or> int (length (req_to_token p)) \<le> r)" "\<not> (c < 0 \<or> int (length ?row) \<le> c)"
    and w: "write_points (p\<lparr>req_to_token := (req_to_token p)[nat r := ?row[nat c := to_int32 v]]\<rparr>) rs cs vs = Inr p'"
    using 2(2) by (auto split: if_splits)
  have "nat r < length (req_to_token p)" using ok(1) by linarith
  then have "length ?row = max_context_len p" "\<forall>v \<in> set ?row. - (2 ^ 31) \<le> v \<and> v < 2 ^ 31"
    using 2(3) nth_mem [of "nat r" "req_to_token p"] by (auto simp: table_typed_def)
  then have "table_typed (p\<lparr>req_to_token := (req_to_token p)[nat r := ?row[nat c := to_int32 v]]\<rparr>)"
    using to_int32_range [of v] set_update_subset_insert [of ?row "nat c" "to_int32 v"] by (intro table_typed_update [OF 2(3)]) auto
  then show ?case using 2(1) [OF ok w] by simp
qed auto

lemma pool_step_typed: "pool_step s s' \<Longrightarrow> pool_typed s \<Longrightarrow>
    pool_typed s' \<and> rp_size (fst s') = rp_size (fst s) \<and> max_context_len (fst s') = max_context_len (fst s)"
proof (induction rule: pool_step.induct)
  case (do_alloc p n "is" p' H)
  then have "is = take n (free_slots p)" "p' = p\<lparr>free_slots := drop n (free_slots p)\<rparr>" by (auto simp: rp_alloc_def split: if_splits)
  then show ?case using do_alloc take_drop_mset [of "free_slots p" n] by (simp add: pool_typed_def table_typed_def ac_simps)
next
  case (do_write_slice p i a b vs p' H)
  then show ?case using write_slice_typed [OF do_write_slice(1)] by (simp add: pool_typed_def)
next
  case (do_write_points p "is" cs vs p' H)
  then show ?case using write_points_typed [OF do_write_points(1)] by (simp add: pool_typed_def)
qed (auto simp: pool_typed_def table_typed_def rp_alloc_def rp_clear_def add.assoc split: if_splits)

lemma pool_run_typed: "pool_step\<^sup>*\<^sup>* s s' \<Longrightarrow> pool_typed s \<Longrightarrow>
    pool_typed s' \<and> rp_size (fst s') = rp_size (fst s) \<and> max_context_len (fst s') = max_context_len (fst s)"
  by (induction rule: rtranclp_induct) (use pool_step_typed in fastforce)+

lemma pool_init_typed: "pool_typed (req_pool_init n w, {#})"
  by (simp add: pool_typed_def table_typed_def req_pool_init_def)

text \<open>
  (C23) The row table keeps its type: after any sequence of allocations, writes of any values at any
  positions that do not raise, frees of rows in use and clears, the table still has \<open>n\<close> rows of width \<open>w\<close> with int32
  entries, and every row is free or handed out, exactly once.
\<close>

theorem req_pool_typed:
  assumes "pool_step\<^sup>*\<^sup>* (req_pool_init n w, {#}) (p, H)"
  shows "length (req_to_token p) = n \<and> (\<forall>row \<in> set (req_to_token p). length row = w \<and> (\<forall>v \<in> set row. - (2 ^ 31) \<le> v \<and> v < 2 ^ 31)) \<and>
    mset (free_slots p) + H = mset (map int [0..<n])"
  using pool_run_typed [OF assms pool_init_typed] by (simp add: pool_typed_def table_typed_def req_pool_init_def)

theorem req_pool_typed_witness:
  "\<exists>p. write_slice ((req_pool_init 2 4)\<lparr>free_slots := [1]\<rparr>) 0 1 3 [7, 2 ^ 31] = Inr p \<and> req_to_token p = [[0, 7, - (2 ^ 31), 0], [0, 0, 0, 0]] \<and>
     mset (free_slots p) + {#0#} = {#0, 1#} \<and> (\<forall>row \<in> set (req_to_token p). \<forall>v \<in> set row. v < 2 ^ 31)"
proof -
  let ?p = "(req_pool_init 2 4)\<lparr>free_slots := [1]\<rparr>"
  have "rp_alloc (req_pool_init 2 4) 1 = (Some [0], ?p)" by (simp add: rp_alloc_def req_pool_init_def numeral_eq_Suc)
  then have 1: "pool_step (req_pool_init 2 4, {#}) (?p, {#0#})" using do_alloc [of "req_pool_init 2 4" 1 "[0]" ?p "{#}"] by simp
  obtain p where p: "write_slice ?p 0 1 3 [7, 2 ^ 31] = Inr p" "req_to_token p = [[0, 7, - (2 ^ 31), 0], [0, 0, 0, 0]]"
    by (simp add: write_slice_def req_pool_init_def py_bound_def to_int32_def numeral_eq_Suc)
  have "pool_step\<^sup>*\<^sup>* (req_pool_init 2 4, {#}) (p, {#0#})"
    using 1 do_write_slice [OF p(1), of "{#0#}"] by (meson r_into_rtranclp rtranclp.rtrancl_into_rtrancl)
  from req_pool_typed [OF this] p show ?thesis by (intro exI [of _ p]) (simp add: numeral_eq_Suc)
qed

end
