(* ===== verification/Radix_Req.thy ===== *)
theory Radix_Req
  imports Radix_Evict Req Req_Pool
begin

text \<open>
  The request-level operations of the radix cache (\<^verbatim>\<open>mem_cache/radix_cache.py\<close>):
  \<open>cache_finished_req\<close> and \<open>cache_unfinished_req\<close>. They move the KV slots of a request between three
  owners: the tree, the request and the allocator. The allocator is the argument \<open>free\<close> with its state;
  \<open>topk\<close> is the server's \<^verbatim>\<open>speculative_eagle_topk\<close>. No slot is lost or returned twice.
\<close>

section \<open>Operations\<close>

text \<open>\<^verbatim>\<open>req_to_token[req.req_pool_idx, :n]\<close>; a request without a row is outside the model.\<close>

definition read_row :: "req_pool \<Rightarrow> int option \<Rightarrow> nat \<Rightarrow> int list result" where
  "read_row p i n =
     (case i of None \<Rightarrow> Inl TypeError
      | Some j \<Rightarrow> if j < 0 \<or> int (length (req_to_token p)) \<le> j then Inl IndexError
                  else Inr (take n (req_to_token p ! nat j)))"

definition free_row :: "req_pool \<Rightarrow> int option \<Rightarrow> req_pool result" where
  "free_row p i = (case i of None \<Rightarrow> Inl TypeError | Some j \<Rightarrow> Inr (rp_free p (FreeOne j)))"

definition dec_lock_of :: "radix_cache \<Rightarrow> nat option \<Rightarrow> (int \<times> radix_cache) result" where
  "dec_lock_of c n =
     (if disable c then Inr (0, c) else case n of None \<Rightarrow> Inl AttributeError | Some m \<Rightarrow> dec_lock_ref c m)"

text \<open>The lengths that both operations compute from the number of cached tokens.\<close>

definition actual_kv_len :: "radix_cache \<Rightarrow> nat \<Rightarrow> int" where
  "actual_kv_len c n = (if is_eagle c then int n - 1 else int n)"

definition page_aligned_len :: "radix_cache \<Rightarrow> nat \<Rightarrow> int" where
  "page_aligned_len c n =
     (if page_size c \<noteq> 1 then actual_kv_len c n div int (page_size c) * int (page_size c)
      else actual_kv_len c n)"

definition page_aligned_kv_indices :: "radix_cache \<Rightarrow> nat \<Rightarrow> int list \<Rightarrow> int list" where
  "page_aligned_kv_indices c n kv_indices =
     (if page_size c \<noteq> 1 then py_to kv_indices (page_aligned_len c n) else kv_indices)"

definition page_aligned_token_len :: "radix_cache \<Rightarrow> nat \<Rightarrow> int" where
  "page_aligned_token_len c n = (if is_eagle c then page_aligned_len c n + 1 else page_aligned_len c n)"

definition old_prefix_len :: "radix_cache \<Rightarrow> req \<Rightarrow> int" where
  "old_prefix_len c r =
     (let l = int (length (prefix_indices r))
      in if is_eagle c \<and> l > int (last_matched_prefix_len r) then l - 1 else l)"

definition req_key :: "req \<Rightarrow> int list \<Rightarrow> radix_key" where
  "req_key r ids = \<lparr>token_ids = map TInt ids, extra_key = req_extra_key r\<rparr>"

definition cache_finished_req ::
    "nat option \<Rightarrow> ('a \<Rightarrow> int list \<Rightarrow> 'a result) \<Rightarrow> radix_cache \<Rightarrow> req_pool \<Rightarrow> 'a \<Rightarrow> req \<Rightarrow> bool \<Rightarrow>
     (radix_cache \<times> req_pool \<times> 'a \<times> req) result" where
  "cache_finished_req topk free c p a r0 is_insert =
     bind_r (pop_committed_kv_cache topk r0) (\<lambda>(committed_kv_len, r).
     bind_r (read_row p (req_pool_idx r) committed_kv_len) (\<lambda>kv_indices.
     if disable c
     then bind_r (free a kv_indices) (\<lambda>a1.
          bind_r (free_row p (req_pool_idx r)) (\<lambda>p1. Inr (c, p1, a1, r)))
     else
       let ids = take committed_kv_len (origin_input_ids r @ output_ids r);
           aligned = page_aligned_len c committed_kv_len;
           old = old_prefix_len c r
       in bind_r (if is_insert
            then bind_r (rc_insert c (req_key r (py_to ids (page_aligned_token_len c committed_kv_len)))
                   (Some (page_aligned_kv_indices c committed_kv_len kv_indices))) (\<lambda>(new_prefix_len, c1).
                 bind_r (free a (py_slice kv_indices old (int new_prefix_len))) (\<lambda>a1. Inr (c1, a1)))
            else bind_r (free a (py_slice kv_indices old aligned)) (\<lambda>a1. Inr (c, a1))) (\<lambda>(c1, a1).
          bind_r (free a1 (py_from kv_indices aligned)) (\<lambda>a2.
          bind_r (free_row p (req_pool_idx r)) (\<lambda>p1.
          bind_r (dec_lock_of c1 (last_node r)) (\<lambda>(_, c2). Inr (c2, p1, a2, r)))))))"

definition write_row :: "req_pool \<Rightarrow> int option \<Rightarrow> int \<Rightarrow> int \<Rightarrow> int list \<Rightarrow> req_pool result" where
  "write_row p i lo hi vs = (case i of None \<Rightarrow> Inl TypeError | Some j \<Rightarrow> write_slice p j lo hi vs)"

definition cache_unfinished_req ::
    "('a \<Rightarrow> int list \<Rightarrow> 'a result) \<Rightarrow> radix_cache \<Rightarrow> req_pool \<Rightarrow> 'a \<Rightarrow> req \<Rightarrow>
     (radix_cache \<times> req_pool \<times> 'a \<times> req) result" where
  "cache_unfinished_req free c p a r =
     (if disable c then Inr (c, p, a, r)
      else
        let n = length (fill_ids r);
            ids = py_to (fill_ids r) (page_aligned_token_len c n);
            old = old_prefix_len c r
        in bind_r (read_row p (req_pool_idx r) n) (\<lambda>kv_indices.
           bind_r (rc_insert c (req_key r ids) (Some (page_aligned_kv_indices c n kv_indices))) (\<lambda>(new_prefix_len, c1).
           bind_r (free a (py_slice kv_indices old (int new_prefix_len))) (\<lambda>a1.
           bind_r (match_prefix c1 (req_key r ids)) (\<lambda>(new_indices, new_last_node, c2).
           bind_r (write_row p (req_pool_idx r) old (int (length new_indices)) (py_from new_indices old)) (\<lambda>p1.
           bind_r (dec_lock_of c2 (last_node r)) (\<lambda>(_, c3).
           bind_r (inc_lock_ref c3 new_last_node) (\<lambda>(_, c4).
           Inr (c4, p1, a1, r\<lparr>last_matched_prefix_len := length new_indices,
             prefix_indices := (if page_size c \<noteq> 1 then new_indices @ drop (length new_indices) kv_indices
                else if is_eagle c then new_indices @ py_from kv_indices (actual_kv_len c n)
                else new_indices),
             last_node := Some new_last_node\<rparr>)))))))))"

section \<open>What a request holds\<close>

text \<open>
  \<open>full_key\<close> is the key of all cached tokens, \<open>aligned\<close> its page-aligned length. A request holds its
  prefix when the first \<open>old_prefix_len\<close> indices of its row are the ones that the tree stores for the
  same tokens; the later indices of the row belong to the request alone.
\<close>

definition full_key :: "radix_cache \<Rightarrow> int list \<Rightarrow> token list" where
  "full_key c ids = key_convert_fn c (map TInt ids)"

definition aligned :: "radix_cache \<Rightarrow> nat \<Rightarrow> nat" where
  "aligned c n = nat (page_aligned_len c n)"

definition old_len :: "radix_cache \<Rightarrow> req \<Rightarrow> nat" where
  "old_len c r = nat (old_prefix_len c r)"

definition holds_prefix :: "radix_cache \<Rightarrow> req \<Rightarrow> int list \<Rightarrow> int list \<Rightarrow> bool" where
  "holds_prefix c r ids kv \<longleftrightarrow> old_len c r \<le> aligned c (length ids) \<and> page_size c dvd old_len c r \<and>
     stored c (req_extra_key r) (take (old_len c r) (full_key c ids)) (take (old_len c r) kv)"

lemma old_len_int: "old_prefix_len c r = int (old_len c r)"
  by (cases "prefix_indices r") (simp_all add: old_len_def old_prefix_len_def Let_def)

lemma aligned_props:
  assumes "0 < page_size c" and "is_eagle c \<longrightarrow> 0 < n"
  shows "page_aligned_len c n = int (aligned c n)" "aligned c n \<le> n" "page_size c dvd aligned c n"
    "is_eagle c \<Longrightarrow> aligned c n < n"
proof -
  define q where "q = (if is_eagle c then n - 1 else n)"
  have q: "actual_kv_len c n = int q" using assms(2) by (auto simp: q_def actual_kv_len_def)
  have l: "page_aligned_len c n = int (q div page_size c * page_size c)"
    by (simp add: page_aligned_len_def q zdiv_int)
  then have a: "aligned c n = q div page_size c * page_size c" unfolding aligned_def by (metis nat_int)
  show "page_aligned_len c n = int (aligned c n)" using l a by simp
  show "page_size c dvd aligned c n" by (simp add: a)
  have "aligned c n \<le> q" by (simp add: a)
  then show "aligned c n \<le> n" "is_eagle c \<Longrightarrow> aligned c n < n" using assms(2) by (auto simp: q_def split: if_splits)
qed

lemma bigram_take:
  assumes "k < length ids"
  shows "convert_to_bigram_key (map TInt (take (Suc k) ids)) = take k (convert_to_bigram_key (map TInt ids))"
proof (cases "k = 0")
  case True
  then show ?thesis by (simp add: convert_to_bigram_key_def)
next
  case False
  have "map TInt ids ! 0 = TInt (ids ! 0)" using assms by (cases ids) auto
  then show ?thesis using False assms
    by (auto simp: convert_to_bigram_key_def take_map intro!: nth_equalityI)
qed

lemma length_full_key: "is_eagle c \<Longrightarrow> length (full_key c ids) = length ids - 1"
  "\<not> is_eagle c \<Longrightarrow> length (full_key c ids) = length ids"
  by (cases ids; simp add: full_key_def key_convert_fn_def length_convert_to_bigram_key)+

lemma aligned_key:
  assumes "0 < page_size c" and "is_eagle c \<longrightarrow> ids \<noteq> []"
  shows "key_convert_fn c (map TInt (py_to ids (page_aligned_token_len c (length ids))))
      = take (aligned c (length ids)) (full_key c ids)"
    and "length (take (aligned c (length ids)) (full_key c ids)) = aligned c (length ids)"
proof -
  let ?n = "length ids"
  have n: "is_eagle c \<longrightarrow> 0 < ?n" using assms(2) by simp
  note al = aligned_props [OF assms(1) n]
  show "key_convert_fn c (map TInt (py_to ids (page_aligned_token_len c ?n))) = take (aligned c ?n) (full_key c ids)"
  proof (cases "is_eagle c")
    case True
    have "page_aligned_token_len c ?n = int (Suc (aligned c ?n))" using True al(1) n by (simp add: page_aligned_token_len_def)
    then show ?thesis using bigram_take [OF al(4)] True n
      by (simp add: key_convert_fn_def full_key_def del: of_nat_Suc)
  next
    case False
    then show ?thesis using al(1) n by (simp add: page_aligned_token_len_def key_convert_fn_def full_key_def take_map)
  qed
  show "length (take (aligned c ?n) (full_key c ids)) = aligned c ?n"
    using al(2,4) n length_full_key [of c ids] by (cases "is_eagle c") auto
qed

lemma aligned_value:
  assumes "0 < page_size c" and "is_eagle c \<longrightarrow> ids \<noteq> []" and "length kv = length ids"
  shows "insert_value c (req_key r (py_to ids (page_aligned_token_len c (length ids))))
      (page_aligned_kv_indices c (length ids) kv) = take (aligned c (length ids)) kv"
proof -
  let ?n = "length ids"
  have n: "is_eagle c \<longrightarrow> 0 < ?n" using assms(2) by simp
  note al = aligned_props [OF assms(1) n] and key = aligned_key [OF assms(1,2)]
  have len: "length (key_convert_fn c (token_ids (req_key r (py_to ids (page_aligned_token_len c ?n))))) = aligned c ?n"
    using key by (simp add: req_key_def)
  show ?thesis
  proof (cases "is_eagle c")
    case True
    then show ?thesis using len al(1) n
      by (simp add: insert_value_def page_aligned_kv_indices_def)
  next
    case False
    then have "page_size c = 1 \<Longrightarrow> aligned c ?n = ?n"
      by (simp add: aligned_def page_aligned_len_def actual_kv_len_def)
    then show ?thesis using False al(1) n assms(3) by (simp add: insert_value_def page_aligned_kv_indices_def)
  qed
qed

section \<open>Inserting the tokens of a request\<close>

lemma req_insert:
  assumes inv: "rc_inv c L" and en: "\<not> disable c" and ids: "is_eagle c \<longrightarrow> ids \<noteq> []" and kv: "length kv = length ids"
    and hp: "holds_prefix c r ids kv"
  defines "A \<equiv> aligned c (length ids)"
  shows "\<exists>m us c'. rc_insert c (req_key r (py_to ids (page_aligned_token_len c (length ids))))
      (Some (page_aligned_kv_indices c (length ids) kv)) = Inr (m, c') \<and>
    old_len c r \<le> m \<and> m \<le> A \<and> rc_inv c' L \<and> conf c' = conf c \<and>
    tree_slots c' = tree_slots c + mset (drop m (take A kv)) \<and>
    stored c' (req_extra_key r) (take A (full_key c ids)) (us @ drop m (take A kv)) \<and> length us = m \<and>
    stored c (req_extra_key r) (take m (full_key c ids)) us \<and>
    (\<forall>y ts ws. stored c y ts ws \<longrightarrow> stored c' y ts ws)"
proof -
  let ?k = "req_key r (py_to ids (page_aligned_token_len c (length ids)))"
  let ?K = "take A (full_key c ids)" and ?V = "page_aligned_kv_indices c (length ids) kv"
  have wf: "rc_wf c" using inv by (simp add: rc_inv_def)
  note ps = rc_wfD(1) [OF wf]
  note key = aligned_key [OF ps ids, folded A_def]
  have n: "is_eagle c \<longrightarrow> 0 < length ids" using ids by simp
  note al = aligned_props [OF ps n, folded A_def]
  have K: "key_convert_fn c (token_ids ?k) = ?K" using key(1) by (simp add: req_key_def)
  have W: "insert_value c ?k ?V = take A kv" unfolding A_def by (rule aligned_value [OF ps ids kv])
  have lens: "page_size c dvd length ?K" "length (take A kv) = length ?K" using key(2) al n kv by auto
  have x: "extra_key ?k = req_extra_key r" by (simp add: req_key_def)
  obtain us c' where ins: "rc_insert c ?k (Some ?V) = Inr (length us, c')" "conf c' = conf c"
    "longest_match c (req_extra_key r) (root_node c) ?K us"
    "\<And>y ts ws. stored c' y ts ws \<longleftrightarrow> stored c y ts ws \<or> (y = req_extra_key r \<and>
       (\<exists>m \<le> length ?K. ts = take m ?K \<and> ws = take m (us @ drop (length us) (take A kv))))"
    using insert_content [OF wf en, of ?k ?V] unfolding K W x using lens by metis
  note inv' = insert_inv [OF inv en _ _ ins(1), unfolded K W, OF lens]
  have m: "length us \<le> A" using ins(3) key(2) by (simp add: longest_match_def)
  have old: "old_len c r \<le> A" "page_size c dvd old_len c r"
    "stored c (req_extra_key r) (take (old_len c r) ?K) (take (old_len c r) kv)"
    using hp by (auto simp: holds_prefix_def A_def min_def)
  have "old_len c r \<le> length us"
    using ins(3) old key(2) unfolding longest_match_def by metis
  moreover have "stored c' (req_extra_key r) ?K (us @ drop (length us) (take A kv))"
    unfolding ins(4) using m lens(2) key(2) by (intro disjI2 conjI refl exI [of _ "length ?K"]) simp_all
  moreover have "stored c (req_extra_key r) (take (length us) (full_key c ids)) us"
    using longest_match_stored [OF ins(3)] m by (simp add: min_def)
  ultimately show ?thesis using ins(1,2,4) m inv' by blast
qed

section \<open>Finishing and continuing a request\<close>

text \<open>The indices of a request beyond its prefix, in the three parts that the operations treat.\<close>

lemma mset_three_parts:
  assumes "i \<le> m" and "m \<le> (k::nat)" and "k \<le> length xs"
  shows "mset (drop i xs) = mset (drop i (take m xs)) + mset (drop m (take k xs)) + mset (drop k xs)"
proof -
  have "drop i xs = drop i (take m xs) @ drop m (take k xs) @ drop k xs"
  proof -
    have "drop i xs = drop i (take m xs) @ drop m xs"
      using assms by (metis (no_types, lifting) append_take_drop_id drop_append drop_eq_Nil2 diff_is_0_eq
          length_take min_absorb2 order_trans drop0)
    moreover have "drop m xs = drop m (take k xs) @ drop k xs"
      using assms by (metis (no_types, lifting) append_take_drop_id drop_append drop_eq_Nil2 diff_is_0_eq
          length_take min_absorb2 order_trans drop0)
    ultimately show ?thesis by simp
  qed
  then show ?thesis by (metis mset_append add.assoc)
qed

lemma dec_lock_of_spec:
  assumes "rc_inv c (add_mset n L)" and "\<not> disable c"
  obtains d c' where "dec_lock_of c (Some n) = Inr (d, c')" "rc_inv c' L" "touched_locks c c'"
  using dec_lock_ref_spec [OF assms] that assms(2) by (metis dec_lock_of_def option.simps(5))

definition req_ready :: "req_pool \<Rightarrow> req \<Rightarrow> int list \<Rightarrow> int list \<Rightarrow> bool" where
  "req_ready p r ids kv \<longleftrightarrow> read_row p (req_pool_idx r) (length ids) = Inr kv \<and> length kv = length ids"

lemma req_readyD:
  assumes "req_ready p r ids kv"
  obtains i where "req_pool_idx r = Some i" "row_ok p i" "kv = take (length ids) (row_of p i)"
    "length ids \<le> length (row_of p i)"
proof -
  from assms obtain i where i: "req_pool_idx r = Some i" by (auto simp: req_ready_def read_row_def split: option.splits)
  with assms have "row_ok p i" "kv = take (length ids) (row_of p i)" "length kv = length ids"
    by (auto simp: req_ready_def read_row_def row_ok_def row_of_def split: if_splits)
  then show thesis using that i by simp
qed

lemma cache_finished_spec:
  assumes inv: "rc_inv c (add_mset n L)" and en: "\<not> disable c" and node: "last_node r = Some n"
    and topk: "topk = None \<or> topk = Some 1" and fresh: "\<not> kv_committed_freed r"
    and ids: "ids = take (kv_committed_len r) (origin_input_ids r @ output_ids r)" "length ids = kv_committed_len r"
    and ne: "is_eagle c \<longrightarrow> ids \<noteq> []" and row: "req_ready p r ids kv" "req_pool_idx r = Some i"
    and hp: "holds_prefix c r ids kv" and fr: "\<And>a v. free a v = Inr (fr a v)"
  defines "A \<equiv> aligned c (length ids)" and "P \<equiv> old_len c r"
  obtains c' m us where "cache_finished_req topk free c p a r True = Inr (c', rp_free p (FreeOne i),
      fr (fr a (drop P (take m kv))) (drop A kv), r\<lparr>kv_committed_freed := True\<rparr>)"
    "P \<le> m" "m \<le> A" "A \<le> length ids" "rc_inv c' L" "tree_slots c' = tree_slots c + mset (drop m (take A kv))"
    "stored c' (req_extra_key r) (take A (full_key c ids)) (us @ drop m (take A kv))"
    "stored c (req_extra_key r) (take m (full_key c ids)) us" "length us = m"
    "\<And>y ts ws. stored c y ts ws \<Longrightarrow> stored c' y ts ws"
proof -
  have wf: "rc_wf c" using inv by (simp add: rc_inv_def)
  have kv: "length kv = length ids" using row(1) by (simp add: req_ready_def)
  have n: "is_eagle c \<longrightarrow> 0 < length ids" using ne by simp
  note al = aligned_props [OF rc_wfD(1) [OF wf] n, folded A_def]
  obtain m us c1 where ins:
    "rc_insert c (req_key r (py_to ids (page_aligned_token_len c (length ids))))
      (Some (page_aligned_kv_indices c (length ids) kv)) = Inr (m, c1)"
    "P \<le> m" "m \<le> A" "rc_inv c1 (add_mset n L)" "conf c1 = conf c"
    "tree_slots c1 = tree_slots c + mset (drop m (take A kv))"
    "stored c1 (req_extra_key r) (take A (full_key c ids)) (us @ drop m (take A kv))" "length us = m"
    "stored c (req_extra_key r) (take m (full_key c ids)) us"
    "\<And>y ts ws. stored c y ts ws \<Longrightarrow> stored c1 y ts ws"
    using req_insert [OF inv en ne kv hp, folded A_def P_def] by blast
  have "\<not> disable c1" using conf_eqD(2) [OF ins(5)] en by simp
  then obtain d c' where dec: "dec_lock_of c1 (last_node r) = Inr (d, c')" "rc_inv c' L" "touched_locks c1 c'"
    using dec_lock_of_spec [OF ins(4)] node by metis
  let ?r = "r\<lparr>kv_committed_freed := True\<rparr>"
  have pop: "pop_committed_kv_cache topk r = Inr (length ids, ?r)"
    using topk fresh ids(2) by (auto simp: pop_committed_kv_cache_def)
  have old: "old_prefix_len c ?r = int P" using old_len_int [of c r] by (simp add: P_def old_prefix_len_def)
  have rk: "req_key ?r x = req_key r x" for x by (simp add: req_key_def)
  have tk: "take (length ids) (origin_input_ids r @ output_ids r) = ids" unfolding ids(2) by (rule ids(1) [symmetric])
  have "cache_finished_req topk free c p a r True = Inr (c', rp_free p (FreeOne i),
      fr (fr a (drop P (take m kv))) (drop A kv), ?r)"
    using pop row en ins(1) dec(1) al(1) n old tk
    by (simp add: cache_finished_req_def req_ready_def fr free_row_def rk del: take_append)
  with that [OF this ins(2,3) _ dec(2)] show thesis
    using ins(6-) touched_locksD [OF dec(3)] al(2) n by simp
qed

lemma cache_unfinished_spec:
  assumes inv: "rc_inv c (add_mset n L)" and en: "\<not> disable c" and node: "last_node r = Some n"
    and ne: "is_eagle c \<longrightarrow> fill_ids r \<noteq> []" and row: "req_ready p r (fill_ids r) kv" "req_pool_idx r = Some i"
    and hp: "holds_prefix c r (fill_ids r) kv" and fr: "\<And>a v. free a v = Inr (fr a v)"
  defines "A \<equiv> aligned c (length (fill_ids r))" and "P \<equiv> old_len c r"
  obtains c' p' m us n' r' where "cache_unfinished_req free c p a r = Inr (c', p', fr a (drop P (take m kv)), r')"
    "P \<le> m" "m \<le> A" "rc_inv c' (add_mset n' L)" "last_node r' = Some n'" "length us = m"
    "tree_slots c' = tree_slots c + mset (drop m (take A kv))"
    "stored c' (req_extra_key r) (take A (full_key c (fill_ids r))) (us @ drop m (take A kv))"
    "write_slice p i (int P) (int A) (drop P (us @ drop m (take A kv))) = Inr p'"
    "last_matched_prefix_len r' = A" "take A (prefix_indices r') = us @ drop m (take A kv)"
proof -
  let ?ids = "fill_ids r" and ?x = "req_extra_key r"
  have wf: "rc_wf c" using inv by (simp add: rc_inv_def)
  have kv: "length kv = length ?ids" using row(1) by (simp add: req_ready_def)
  have n: "is_eagle c \<longrightarrow> 0 < length ?ids" using ne by simp
  note al = aligned_props [OF rc_wfD(1) [OF wf] n, folded A_def]
  let ?k = "req_key r (py_to ?ids (page_aligned_token_len c (length ?ids)))"
  obtain m us c1 where ins:
    "rc_insert c ?k (Some (page_aligned_kv_indices c (length ?ids) kv)) = Inr (m, c1)"
    "P \<le> m" "m \<le> A" "rc_inv c1 (add_mset n L)" "conf c1 = conf c"
    "tree_slots c1 = tree_slots c + mset (drop m (take A kv))"
    "stored c1 ?x (take A (full_key c ?ids)) (us @ drop m (take A kv))" "length us = m"
    using req_insert [OF inv en ne kv hp, folded A_def P_def] by blast
  let ?new = "us @ drop m (take A kv)" and ?K = "take A (full_key c ?ids)"
  note cf = conf_eqD [OF ins(5)]
  have key: "key_convert_fn c1 (token_ids ?k) = ?K" "length ?K = A"
    using aligned_key [OF rc_wfD(1) [OF wf] ne, folded A_def] cf(3) by (simp_all add: req_key_def key_convert_fn_def)
  have wf1: "rc_wf c1" using ins(4) by (simp add: rc_inv_def)
  have ct: "cache_tokens c1 ?k = ?K"
    using key al(3) n cf(1) by (simp add: cache_tokens_def Let_def)
  have newlen: "length ?new = A" using ins(3,8) kv al(2) n by simp
  obtain vs n' c2 where mt: "match_prefix c1 ?k = Inr (vs, n', c2)" "longest_match c1 ?x (root_node c1) ?K vs"
    using match_prefix_spec [OF wf1, of ?k] en cf(2) ct by (auto simp: req_key_def)
  have "length vs = A"
    using mt(2) ins(7) key(2) al(3) n cf(1) unfolding longest_match_def
    by (metis dual_order.antisym dual_order.refl take_all)
  then have "stored c1 ?x ?K vs" using longest_match_stored [OF mt(2)] key(2) by simp
  then have vs: "vs = ?new"
    using stored_from_unique [OF wf1 _ ins(7)] key(2) al(3) n cf(1) by simp
  note mi = match_prefix_inv [OF ins(4) mt(1)]
  have "\<not> disable c2" using conf_eqD(2) [OF mi(3)] cf(2) en by simp
  then obtain d c3 where dec: "dec_lock_of c2 (last_node r) = Inr (d, c3)" "rc_inv c3 L" "touched_locks c2 c3"
    using dec_lock_of_spec [OF mi(1)] node by metis
  have "\<not> disable c3" using conf_eqD(2) [OF touched_locksD(3) [OF dec(3)]] \<open>\<not> disable c2\<close> by simp
  moreover have "n' = root_node c3 \<or> n' \<in> live c3" using mi(4) touched_locksD(1,4) [OF dec(3)] by simp
  ultimately obtain d' c4 where inc: "inc_lock_ref c3 n' = Inr (d', c4)" "rc_inv c4 (add_mset n' L)" "touched_locks c3 c4"
    using inc_lock_ref_spec [OF dec(2)] by metis
  obtain p' where wr: "write_slice p i (int P) (int A) (drop P ?new) = Inr p'"
  proof (rule req_readyD [OF row(1)])
    fix j assume j: "req_pool_idx r = Some j" "row_ok p j" "length ?ids \<le> length (row_of p j)"
    then show thesis
      using write_slice_exact [of p i P A "drop P ?new"] that row(2) ins(2,3) newlen al(2) n by auto
  qed
  let ?r = "r\<lparr>last_matched_prefix_len := A,
     prefix_indices := (if page_size c \<noteq> 1 then ?new @ drop A kv
        else if is_eagle c then ?new @ py_from kv (actual_kv_len c (length ?ids)) else ?new),
     last_node := Some n'\<rparr>"
  have "cache_unfinished_req free c p a r = Inr (c4, p', fr a (drop P (take m kv)), ?r)"
    using row en ins(1) mt(1) dec(1) inc(1) wr newlen unfolding vs
    by (simp add: cache_unfinished_req_def req_ready_def fr write_row_def old_len_int Let_def del: length_append) (simp add: P_def)
  moreover have "tree_slots c4 = tree_slots c + mset (drop m (take A kv))"
    using ins(6) mi(2) touched_locksD(2) [OF dec(3)] touched_locksD(2) [OF inc(3)] by simp
  moreover have "stored c4 ?x ?K ?new"
    using ins(7) mi(5) touched_locksD(4,5) [OF dec(3)] touched_locksD(4,5) [OF inc(3)] by simp
  moreover have "take A (prefix_indices ?r) = ?new" using newlen by simp
  ultimately show thesis using that [of c4 p' m ?r n' us] ins(2,3,8) inc(2) wr by simp
qed

end
