(* ===== verification/SWA_Allocator.thy ===== *)
theory SWA_Allocator
  imports Req_Pool
begin

text \<open>
  \<open>SWATokenToKVPoolAllocator\<close> of \<^verbatim>\<open>mem_cache/allocator.py\<close>: two token allocators, for the full-attention
  and the sliding-window layers, and the table that maps a full slot to its sliding-window slot, with 0
  for none. Both pools are accounted for exactly in every reachable state.
\<close>

section \<open>Index tensors\<close>

text \<open>
  \<^verbatim>\<open>t[idx]\<close> and \<^verbatim>\<open>t[idx] = values\<close> with an index tensor: a negative index counts from the end, an
  index out of range raises.
\<close>

definition torch_index :: "nat \<Rightarrow> int \<Rightarrow> nat result" where
  "torch_index n i =
     (if 0 \<le> i \<and> i < int n then Inr (nat i)
      else if i < 0 \<and> - int n \<le> i then Inr (nat (int n + i)) else Inl IndexError)"

fun gather :: "'a list \<Rightarrow> int list \<Rightarrow> 'a list result" where
  "gather t [] = Inr []"
| "gather t (i # is) = bind_r (torch_index (length t) i) (\<lambda>j. bind_r (gather t is) (\<lambda>vs. Inr (t ! j # vs)))"

fun scatter :: "'a list \<Rightarrow> int list \<Rightarrow> 'a list \<Rightarrow> 'a list result" where
  "scatter t [] [] = Inr t"
| "scatter t (i # is) (v # vs) = bind_r (torch_index (length t) i) (\<lambda>j. scatter (t[j := v]) is vs)"
| "scatter t _ _ = Inl RuntimeError"

lemma torch_index_ok: "0 \<le> i \<Longrightarrow> i < int n \<Longrightarrow> torch_index n i = Inr (nat i)"
  by (simp add: torch_index_def)

lemma gather_ok: "(\<And>i. i \<in> set is \<Longrightarrow> 0 \<le> i \<and> i < int (length t)) \<Longrightarrow> gather t is = Inr (map (\<lambda>i. t ! nat i) is)"
  by (induction "is") (simp_all add: torch_index_ok)

lemma scatter_ok:
  assumes "distinct is" and "length vs = length is" and "\<And>i. i \<in> set is \<Longrightarrow> 0 \<le> i \<and> i < int (length t)"
  shows "\<exists>t'. scatter t is vs = Inr t' \<and> length t' = length t \<and> map (\<lambda>i. t' ! nat i) is = vs \<and>
    (\<forall>j. int j \<notin> set is \<longrightarrow> t' ! j = t ! j)"
  using assms
proof (induction "is" vs arbitrary: t rule: list_induct2' )
  case (4 i "is" v vs)
  let ?t = "t[nat i := v]"
  have i: "0 \<le> i" "i < int (length t)" using "4.prems"(3) [of i] by simp_all
  obtain t' where t': "scatter ?t is vs = Inr t'" "length t' = length t" "map (\<lambda>i. t' ! nat i) is = vs"
    "\<forall>j. int j \<notin> set is \<longrightarrow> t' ! j = ?t ! j"
    using "4.IH" [of ?t] "4.prems" by auto
  have "t' ! nat i = v" using t'(4) [rule_format, of "nat i"] "4.prems"(1) i by simp
  moreover have "t' ! j = t ! j" if "int j \<notin> set (i # is)" for j
    using t'(4) that i by (cases "j = nat i") auto
  ultimately show ?case using t' i by (auto simp: torch_index_ok)
qed auto

section \<open>The allocator\<close>

record swa_alloc =
  full_attn_allocator :: kv_alloc
  swa_attn_allocator :: kv_alloc
  full_to_swa_index_mapping :: "int list"
  swa_not_in_free_group :: bool
  swa_free_group :: "int list list"

definition swa_clear :: "swa_alloc \<Rightarrow> swa_alloc" where
  "swa_clear s = s\<lparr>swa_attn_allocator := token_clear (swa_attn_allocator s),
     full_attn_allocator := token_clear (full_attn_allocator s),
     full_to_swa_index_mapping := replicate (length (full_to_swa_index_mapping s)) 0,
     swa_not_in_free_group := True, swa_free_group := []\<rparr>"

definition swa_init :: "nat \<Rightarrow> nat \<Rightarrow> bool \<Rightarrow> swa_alloc" where
  "swa_init sz size_swa need_sort = swa_clear
     \<lparr>full_attn_allocator = token_init sz need_sort, swa_attn_allocator = token_init size_swa need_sort,
      full_to_swa_index_mapping = replicate (sz + size_swa + 1) 0,
      swa_not_in_free_group = True, swa_free_group = []\<rparr>"

definition swa_base_available_size :: "swa_alloc \<Rightarrow> nat result" where
  "swa_base_available_size s = Inl NotImplementedError"

definition full_available_size :: "swa_alloc \<Rightarrow> nat" where
  "full_available_size s = token_available_size (full_attn_allocator s)"

definition swa_available_size :: "swa_alloc \<Rightarrow> nat" where
  "swa_available_size s = token_available_size (swa_attn_allocator s)"

definition translate_loc_from_full_to_swa :: "swa_alloc \<Rightarrow> int list \<Rightarrow> int list result" where
  "translate_loc_from_full_to_swa s kv_indices =
     bind_r (gather (full_to_swa_index_mapping s) kv_indices) (\<lambda>vs. Inr (map to_int32 vs))"

definition swa_alloc_fn :: "swa_alloc \<Rightarrow> nat \<Rightarrow> (int list option \<times> swa_alloc) result" where
  "swa_alloc_fn s need_size =
     (if need_size > full_available_size s then Inr (None, s)
      else if need_size > swa_available_size s then Inr (None, s)
      else case (token_alloc (full_attn_allocator s) need_size, token_alloc (swa_attn_allocator s) need_size) of
        ((Some full, f'), (Some swa, w')) \<Rightarrow>
          bind_r (scatter (full_to_swa_index_mapping s) full swa) (\<lambda>m.
            Inr (Some full, s\<lparr>full_attn_allocator := f', swa_attn_allocator := w', full_to_swa_index_mapping := m\<rparr>))
      | _ \<Rightarrow> Inl TypeError)"

definition free_swa :: "swa_alloc \<Rightarrow> int list \<Rightarrow> swa_alloc result" where
  "free_swa s free_index =
     bind_r (gather (full_to_swa_index_mapping s) free_index) (\<lambda>swa_indices.
     bind_r (scatter (full_to_swa_index_mapping s) free_index (replicate (length free_index) 0)) (\<lambda>m.
       Inr (s\<lparr>swa_attn_allocator := token_free (swa_attn_allocator s) (filter (\<lambda>i. i > 0) swa_indices),
              full_to_swa_index_mapping := m\<rparr>)))"

definition swa_free :: "swa_alloc \<Rightarrow> int list \<Rightarrow> swa_alloc result" where
  "swa_free s free_index =
     (if length free_index = 0 then Inr s
      else bind_r (if swa_not_in_free_group s
             then free_swa (s\<lparr>full_attn_allocator := token_free (full_attn_allocator s) free_index\<rparr>) free_index
             else Inr (s\<lparr>swa_free_group := swa_free_group s @ [free_index]\<rparr>)) (\<lambda>s1.
           assert_r (full_available_size s1 \<le> kv_size (full_attn_allocator s1))
             (assert_r (swa_available_size s1 \<le> kv_size (swa_attn_allocator s1)) (Inr s1))))"

definition swa_free_group_begin :: "swa_alloc \<Rightarrow> swa_alloc" where
  "swa_free_group_begin s = s\<lparr>swa_not_in_free_group := False, swa_free_group := []\<rparr>"

definition swa_free_group_end :: "swa_alloc \<Rightarrow> swa_alloc result" where
  "swa_free_group_end s =
     (let s1 = s\<lparr>swa_not_in_free_group := True\<rparr>
      in if swa_free_group s1 \<noteq> [] then swa_free s1 (concat (swa_free_group s1)) else Inr s1)"

definition swa_backup_state :: "swa_alloc \<Rightarrow> (int list \<times> int list) list" where
  "swa_backup_state s = [backup_state (full_attn_allocator s), backup_state (swa_attn_allocator s)]"

definition swa_restore_state :: "swa_alloc \<Rightarrow> (int list \<times> int list) list \<Rightarrow> swa_alloc result" where
  "swa_restore_state s st =
     (case st of [f, w] \<Rightarrow> Inr (s\<lparr>full_attn_allocator := restore_state (full_attn_allocator s) f,
                             swa_attn_allocator := restore_state (swa_attn_allocator s) w\<rparr>)
      | _ \<Rightarrow> Inl AssertionError)"

section \<open>The invariant\<close>

text \<open>
  \<open>H\<close> is the set of full slots that clients hold. Every other full slot is free and unmapped; the
  sliding-window slots are either free or the image of exactly one held slot.
\<close>

definition mapped :: "swa_alloc \<Rightarrow> int set \<Rightarrow> int set" where
  "mapped s H = {i \<in> H. full_to_swa_index_mapping s ! nat i \<noteq> 0}"

definition swa_slot :: "swa_alloc \<Rightarrow> int \<Rightarrow> int" where
  "swa_slot s i = full_to_swa_index_mapping s ! nat i"

definition swa_inv :: "nat \<Rightarrow> nat \<Rightarrow> swa_alloc \<Rightarrow> int set \<Rightarrow> bool" where
  "swa_inv N M s H \<longleftrightarrow> token_invar (full_attn_allocator s) \<and> token_invar (swa_attn_allocator s) \<and>
     swa_not_in_free_group s \<and> kv_size (full_attn_allocator s) = N \<and> kv_size (swa_attn_allocator s) = M \<and>
     length (full_to_swa_index_mapping s) = N + M + 1 \<and> H \<subseteq> {1..int N} \<and>
     token_slots (full_attn_allocator s) = mset_set ({1..int N} - H) \<and>
     (\<forall>i \<in> {1..int N} - H. swa_slot s i = 0) \<and>
     token_slots (swa_attn_allocator s) + image_mset (swa_slot s) (mset_set (mapped s H)) = mset_set {1..int M}"

section \<open>Every operation keeps the invariant\<close>

lemma mset_set_take:
  assumes "mset xs + S = mset_set A" and "finite A"
  shows "distinct xs \<and> set xs \<subseteq> A \<and> S = mset_set (A - set xs)"
proof -
  have d: "distinct xs" "set xs \<subseteq> A" using mset_set_part [of xs S "{#}" A] assms by simp_all
  then have "mset_set A = mset xs + mset_set (A - set xs)"
    using mset_set_Union [of "set xs" "A - set xs"] assms(2) by (simp add: mset_set_set Un_absorb1)
  with d assms(1) show ?thesis by (metis add_left_cancel)
qed

lemma token_alloc_size: "kv_size (snd (token_alloc s n)) = kv_size s"
  by (simp add: token_alloc_def Let_def merge_and_sort_free_def)

lemma token_free_size [simp]: "kv_size (token_free s xs) = kv_size s"
  by (simp add: token_free_def)

lemma swa_invD:
  assumes "swa_inv N M s H"
  shows "finite H" "H \<subseteq> {1..int N}" "full_available_size s = N - card H"
    "swa_available_size s = M - card (mapped s H)" "card H \<le> N" "card (mapped s H) \<le> M"
proof -
  have sl: "token_slots (full_attn_allocator s) = mset_set ({1..int N} - H)"
    "token_slots (swa_attn_allocator s) + image_mset (swa_slot s) (mset_set (mapped s H)) = mset_set {1..int M}"
    and ti: "token_invar (full_attn_allocator s)" "token_invar (swa_attn_allocator s)"
    and H: "H \<subseteq> {1..int N}" using assms by (simp_all add: swa_inv_def)
  then show fin: "finite H" "H \<subseteq> {1..int N}" using finite_subset by auto
  show "card H \<le> N" using card_mono [OF _ H] by simp
  show "full_available_size s = N - card H"
    using tok.avail_slots [OF ti(1)] sl(1) card_Diff_subset [OF fin(1) H] by (simp add: full_available_size_def)
  have "size (token_slots (swa_attn_allocator s)) + card (mapped s H) = M"
    using arg_cong [OF sl(2), of size] fin(1) by (simp add: mapped_def)
  then show "swa_available_size s = M - card (mapped s H)" "card (mapped s H) \<le> M"
    using tok.avail_slots [OF ti(2)] by (simp_all add: swa_available_size_def)
qed

lemma swa_inv_index: "swa_inv N M s H \<Longrightarrow> i \<in> {1..int N} \<Longrightarrow> 0 \<le> i \<and> i < int (length (full_to_swa_index_mapping s))"
  by (auto simp: swa_inv_def)

lemma swa_alloc_inv:
  assumes inv: "swa_inv N M s H" and n: "n \<le> full_available_size s" "n \<le> swa_available_size s"
  shows "\<exists>xs s'. swa_alloc_fn s n = Inr (Some xs, s') \<and> length xs = n \<and> distinct xs \<and> set xs \<inter> H = {} \<and>
    swa_inv N M s' (H \<union> set xs) \<and> (\<forall>i \<in> set xs. swa_slot s' i \<noteq> 0)"
proof -
  let ?f = "full_attn_allocator s" and ?w = "swa_attn_allocator s" and ?m = "full_to_swa_index_mapping s"
  have i: "token_invar ?f" "token_invar ?w" "length ?m = N + M + 1" "H \<subseteq> {1..int N}" "kv_size ?f = N" "kv_size ?w = M"
    "token_slots ?f = mset_set ({1..int N} - H)" "\<forall>i \<in> {1..int N} - H. swa_slot s i = 0" "swa_not_in_free_group s"
    "token_slots ?w + image_mset (swa_slot s) (mset_set (mapped s H)) = mset_set {1..int M}"
    using inv by (simp_all add: swa_inv_def)
  have g: "kv_page_size ?f dvd n" "kv_page_size ?w dvd n" using i(1,2) by (simp_all add: token_invar_def)
  obtain xs f' where f: "token_alloc ?f n = (Some xs, f')" using tok.alloc_enough [OF i(1) g(1)] n(1) by (auto simp: full_available_size_def)
  obtain ys w' where w: "token_alloc ?w n = (Some ys, w')" using tok.alloc_enough [OF i(2) g(2)] n(2) by (auto simp: swa_available_size_def)
  note fs = tok.alloc_Some [OF i(1) g(1) f] and ws = tok.alloc_Some [OF i(2) g(2) w]
  have x: "distinct xs" "set xs \<subseteq> {1..int N} - H" "token_slots f' = mset_set ({1..int N} - H - set xs)"
    using mset_set_take [of xs "token_slots f'" "{1..int N} - H"] fs i(7) by auto
  have y: "set ys \<subseteq> {1..int M}"
    using mset_set_take [of ys "token_slots w' + image_mset (swa_slot s) (mset_set (mapped s H))" "{1..int M}"] ws i(10)
    by (simp add: ac_simps)
  have rng: "\<And>i. i \<in> set xs \<Longrightarrow> 0 \<le> i \<and> i < int (length ?m)" using x(2) i(3) by fastforce
  obtain m where m: "scatter ?m xs ys = Inr m" "length m = length ?m" "map (\<lambda>i. m ! nat i) xs = ys"
    "\<forall>j. int j \<notin> set xs \<longrightarrow> m ! j = ?m ! j" using scatter_ok [OF x(1) _ rng, of ys] fs ws by auto
  define s' where "s' = s\<lparr>full_attn_allocator := f', swa_attn_allocator := w', full_to_swa_index_mapping := m\<rparr>"
  have old: "swa_slot s' j = swa_slot s j" if "j \<notin> set xs" "0 \<le> j" for j
    using m(4) [rule_format, of "nat j"] that by (simp add: s'_def swa_slot_def)
  have new: "map (swa_slot s') xs = ys" using m(3) by (simp add: s'_def swa_slot_def [abs_def])
  have nz: "swa_slot s' i \<noteq> 0" if "i \<in> set xs" for i
  proof -
    have "swa_slot s' i \<in> set ys" unfolding new [symmetric] using that by simp
    then show ?thesis using y by auto
  qed
  have Hx: "j \<notin> set xs" "0 \<le> j" if "j \<in> H" for j using that x(2) i(4) by auto
  have mp: "mapped s' (H \<union> set xs) = mapped s H \<union> set xs"
    using old Hx nz by (fastforce simp: mapped_def simp flip: swa_slot_def)
  have fin: "finite (mapped s H)" using swa_invD(1) [OF inv] by (simp add: mapped_def)
  have "image_mset (swa_slot s') (mset_set (mapped s' (H \<union> set xs)))
      = image_mset (swa_slot s) (mset_set (mapped s H)) + mset ys"
  proof -
    have "mapped s H \<inter> set xs = {}" using Hx(1) by (auto simp: mapped_def)
    then have "mset_set (mapped s' (H \<union> set xs)) = mset_set (mapped s H) + mset xs"
      unfolding mp using fin x(1) by (simp add: mset_set_Union mset_set_set)
    moreover have "image_mset (swa_slot s') (mset_set (mapped s H)) = image_mset (swa_slot s) (mset_set (mapped s H))"
      using old Hx fin by (intro image_mset_cong) (auto simp: mapped_def)
    ultimately show ?thesis using new by (metis image_mset_union mset_map)
  qed
  then have "token_slots w' + image_mset (swa_slot s') (mset_set (mapped s' (H \<union> set xs))) = mset_set {1..int M}"
    using i(10) ws by (simp add: ac_simps)
  moreover have "kv_size f' = N" "kv_size w' = M" using token_alloc_size [of ?f n] token_alloc_size [of ?w n] f w i(5,6) by simp_all
  moreover have "{1..int N} - H - set xs = {1..int N} - (H \<union> set xs)" by auto
  ultimately have "swa_inv N M s' (H \<union> set xs)"
    using fs ws x i m(2) old unfolding swa_inv_def s'_def by (auto simp: swa_slot_def)
  moreover have "swa_alloc_fn s n = Inr (Some xs, s')" using n f w m(1) by (simp add: swa_alloc_fn_def s'_def)
  ultimately show ?thesis using fs x nz by (intro exI [of _ xs] exI [of _ s']) auto
qed

lemma free_swa_inv:
  assumes inv: "swa_inv N M s H" and xs: "distinct xs" "set xs \<subseteq> H"
  shows "\<exists>s'. free_swa s xs = Inr s' \<and> swa_inv N M s' H \<and> mapped s' H = mapped s H - set xs \<and>
    full_attn_allocator s' = full_attn_allocator s"
proof -
  let ?w = "swa_attn_allocator s" and ?m = "full_to_swa_index_mapping s"
  have i: "token_invar ?w" "length ?m = N + M + 1" "H \<subseteq> {1..int N}" "kv_size ?w = M"
    "token_slots ?w + image_mset (swa_slot s) (mset_set (mapped s H)) = mset_set {1..int M}"
    using inv by (simp_all add: swa_inv_def)
  have rng: "\<And>i. i \<in> set xs \<Longrightarrow> 0 \<le> i \<and> i < int (length ?m)" using xs(2) i(2,3) by fastforce
  let ?ws = "filter (\<lambda>i. i > 0) (map (swa_slot s) xs)"
  have ga: "gather ?m xs = Inr (map (swa_slot s) xs)" using gather_ok [OF rng] by (simp add: swa_slot_def [abs_def])
  obtain m where m: "scatter ?m xs (replicate (length xs) 0) = Inr m" "length m = length ?m"
    "map (\<lambda>i. m ! nat i) xs = replicate (length xs) 0" "\<forall>j. int j \<notin> set xs \<longrightarrow> m ! j = ?m ! j"
    using scatter_ok [OF xs(1) _ rng, of "replicate (length xs) 0"] by auto
  define s' where "s' = s\<lparr>swa_attn_allocator := token_free ?w ?ws, full_to_swa_index_mapping := m\<rparr>"
  have old: "swa_slot s' j = swa_slot s j" if "j \<notin> set xs" "0 \<le> j" for j
    using m(4) [rule_format, of "nat j"] that by (simp add: s'_def swa_slot_def)
  have zero: "swa_slot s' j = 0" if "j \<in> set xs" for j
    using m(3) that by (auto simp: s'_def swa_slot_def map_replicate_const [symmetric] map_eq_conv)
  have pos: "0 \<le> j" if "j \<in> H" for j using that i(3) by auto
  have mp: "mapped s' H = mapped s H - set xs"
    using old zero pos xs(2) by (fastforce simp: mapped_def simp flip: swa_slot_def)
  have fin: "finite (mapped s H)" using swa_invD(1) [OF inv] by (simp add: mapped_def)
  have nn: "swa_slot s j > 0" if "j \<in> mapped s H" for j
  proof -
    have "swa_slot s j \<in># image_mset (swa_slot s) (mset_set (mapped s H))" using fin that by simp
    then have "swa_slot s j \<in># mset_set {1..int M}" unfolding i(5) [symmetric] by simp
    then show ?thesis by simp
  qed
  have ws: "mset ?ws = image_mset (swa_slot s) (mset_set (mapped s H \<inter> set xs))"
  proof -
    have "filter (\<lambda>j. swa_slot s j > 0) xs = filter (\<lambda>j. j \<in> mapped s H) xs"
      using nn xs(2) by (intro filter_cong refl) (auto simp: mapped_def simp flip: swa_slot_def)
    then have "?ws = map (swa_slot s) (filter (\<lambda>j. j \<in> mapped s H) xs)" by (simp add: filter_map comp_def)
    moreover have "mset (filter (\<lambda>j. j \<in> mapped s H) xs) = mset_set (mapped s H \<inter> set xs)"
      using xs(1) by (metis (no_types, lifting) distinct_filter mset_set_set set_filter Int_def Collect_cong inf_commute)
    ultimately show ?thesis by (metis mset_map)
  qed
  have "image_mset (swa_slot s) (mset_set (mapped s H))
      = image_mset (swa_slot s') (mset_set (mapped s' H)) + mset ?ws"
  proof -
    have "image_mset (swa_slot s') (mset_set (mapped s' H)) = image_mset (swa_slot s) (mset_set (mapped s H - set xs))"
      unfolding mp using old pos fin by (intro image_mset_cong) (auto simp: mapped_def)
    moreover have "mset_set (mapped s H) = mset_set (mapped s H - set xs) + mset_set (mapped s H \<inter> set xs)"
    proof -
      have "mset_set ((mapped s H - set xs) \<union> (mapped s H \<inter> set xs))
          = mset_set (mapped s H - set xs) + mset_set (mapped s H \<inter> set xs)"
        by (rule mset_set_Union) (use fin in auto)
      then show ?thesis by (metis Un_Diff_Int)
    qed
    ultimately show ?thesis using ws by (simp only: image_mset_union)
  qed
  moreover note tok.free_slots [OF i(1) TrueI, of ?ws]
  ultimately have "token_invar (token_free ?w ?ws)"
    "token_slots (token_free ?w ?ws) + image_mset (swa_slot s') (mset_set (mapped s' H)) = mset_set {1..int M}"
    using i(5) by (simp_all add: ac_simps)
  moreover have "\<forall>i \<in> {1..int N} - H. swa_slot s' i = 0"
  proof
    fix i assume i': "i \<in> {1..int N} - H"
    then have "swa_slot s' i = swa_slot s i" using xs(2) by (intro old) auto
    then show "swa_slot s' i = 0" using inv i' by (simp add: swa_inv_def)
  qed
  ultimately have "swa_inv N M s' H" using inv m(2) i(4) unfolding swa_inv_def s'_def by (auto simp: swa_slot_def)
  moreover have "free_swa s xs = Inr s'"
    using ga m(1) by (simp add: free_swa_def s'_def)
  ultimately show ?thesis using mp by (auto simp: s'_def)
qed

lemma swa_free_inv:
  assumes inv: "swa_inv N M s H" and xs: "distinct xs" "set xs \<subseteq> H"
  shows "\<exists>s'. swa_free s xs = Inr s' \<and> swa_inv N M s' (H - set xs) \<and> mapped s' (H - set xs) = mapped s H - set xs"
proof (cases "xs = []")
  case True
  then show ?thesis using inv by (auto simp: swa_free_def)
next
  case False
  obtain s1 where s1: "free_swa s xs = Inr s1" "swa_inv N M s1 H" "mapped s1 H = mapped s H - set xs"
    "full_attn_allocator s1 = full_attn_allocator s" using free_swa_inv [OF assms] by blast
  let ?f = "full_attn_allocator s"
  define s' where "s' = s1\<lparr>full_attn_allocator := token_free ?f xs\<rparr>"
  have i: "token_invar ?f" "H \<subseteq> {1..int N}" "token_slots ?f = mset_set ({1..int N} - H)" using inv by (simp_all add: swa_inv_def)
  note fr = tok.free_slots [OF i(1) TrueI, of xs]
  have "{1..int N} - (H - set xs) = ({1..int N} - H) \<union> set xs" using xs(2) i(2) by auto
  moreover have "mset_set (({1..int N} - H) \<union> set xs) = mset_set ({1..int N} - H) + mset xs"
    using xs by (subst mset_set_Union) (auto simp: mset_set_set)
  ultimately have sl: "token_slots (token_free ?f xs) = mset_set ({1..int N} - (H - set xs))" using fr i(3) by simp
  have mp: "mapped s' (H - set xs) = mapped s H - set xs" "mapped s1 (H - set xs) = mapped s1 H"
    using s1(3) by (auto simp: s'_def mapped_def)
  have "swa_slot s1 j = 0" if "j \<in> set xs" for j using s1(3) that xs(2) by (auto simp: mapped_def swa_slot_def)
  then have inv': "swa_inv N M s' (H - set xs)"
    using s1(2) sl fr s1(4) mp(2) unfolding swa_inv_def s'_def by (auto simp: swa_slot_def [abs_def] mapped_def)
  have "free_swa (s\<lparr>full_attn_allocator := token_free ?f xs\<rparr>) xs = Inr s'"
    using s1(1) by (auto simp: free_swa_def s'_def bind_r_eq_Inr)
  moreover have "full_available_size s' \<le> kv_size (full_attn_allocator s')" "swa_available_size s' \<le> kv_size (swa_attn_allocator s')"
    using swa_invD(3,4) [OF inv'] inv' by (simp_all add: swa_inv_def)
  ultimately have "swa_free s xs = Inr s'" using False inv by (simp add: swa_free_def swa_inv_def)
  then show ?thesis using inv' mp(1) by blast
qed

lemma swa_init_inv: "swa_inv N M (swa_init N M ns) {}"
proof -
  have "token_clear (token_init n ns) = token_init n ns" for n by (simp add: token_init_def token_clear_def)
  moreover have "kv_size (token_init n ns) = n" for n by (simp add: token_init_def token_clear_def)
  ultimately show ?thesis
    by (auto simp: swa_inv_def swa_init_def swa_clear_def token_init_slots mapped_def swa_slot_def simp del: replicate_Suc)
qed

section \<open>Reachable states\<close>

text \<open>
  A client allocates, returns slots it holds, and drops the sliding-window part of slots it keeps.
\<close>

inductive swa_step :: "swa_alloc \<times> int set \<Rightarrow> swa_alloc \<times> int set \<Rightarrow> bool" where
  swa_alloc_step: "swa_alloc_fn s n = Inr (Some xs, s') \<Longrightarrow> swa_step (s, H) (s', H \<union> set xs)"
| swa_fail_step: "swa_alloc_fn s n = Inr (None, s') \<Longrightarrow> swa_step (s, H) (s', H)"
| swa_free_step: "distinct xs \<Longrightarrow> set xs \<subseteq> H \<Longrightarrow> swa_free s xs = Inr s' \<Longrightarrow> swa_step (s, H) (s', H - set xs)"
| swa_drop_step: "distinct xs \<Longrightarrow> set xs \<subseteq> H \<Longrightarrow> free_swa s xs = Inr s' \<Longrightarrow> swa_step (s, H) (s', H)"

lemma swa_alloc_cases:
  assumes inv: "swa_inv N M s H"
  shows "(\<exists>xs s'. n \<le> full_available_size s \<and> n \<le> swa_available_size s \<and>
      swa_alloc_fn s n = Inr (Some xs, s') \<and> length xs = n \<and> distinct xs \<and> set xs \<inter> H = {} \<and>
      swa_inv N M s' (H \<union> set xs)) \<or>
    ((full_available_size s < n \<or> swa_available_size s < n) \<and> swa_alloc_fn s n = Inr (None, s))"
proof (cases "n \<le> full_available_size s \<and> n \<le> swa_available_size s")
  case True
  then show ?thesis using swa_alloc_inv [OF inv] by blast
next
  case False
  then show ?thesis by (auto simp: swa_alloc_fn_def)
qed

lemma swa_step_inv:
  assumes "swa_step a b" and "swa_inv N M (fst a) (snd a)"
  shows "swa_inv N M (fst b) (snd b)"
  using assms
proof (induction rule: swa_step.induct)
  case (swa_alloc_step s n xs s' H)
  then show ?case using swa_alloc_cases [of N M s H n] by auto
next
  case (swa_fail_step s n s' H)
  then show ?case using swa_alloc_cases [of N M s H n] by auto
next
  case (swa_free_step xs H s s')
  then show ?case using swa_free_inv [of N M s H xs] by auto
next
  case (swa_drop_step xs H s s')
  then show ?case using free_swa_inv [of N M s H xs] by auto
qed

lemma swa_run_inv: "swa_step\<^sup>*\<^sup>* a b \<Longrightarrow> swa_inv N M (fst a) (snd a) \<Longrightarrow> swa_inv N M (fst b) (snd b)"
  by (induction rule: rtranclp_induct) (auto dest: swa_step_inv)

section \<open>Properties\<close>



end
