(* ===== verification/Chunk_Cache.thy ===== *)
theory Chunk_Cache
  imports Radix_Req SWA_Allocator
begin

text \<open>
  \<^verbatim>\<open>mem_cache/chunk_cache.py\<close>: the cache used when prefix matching is off. It keeps the slots of a
  request until the request finishes; with a hybrid allocator it drops the sliding-window slots of
  chunks that attention no longer reads.
\<close>

record chunk_cache =
  chunk_page_size :: nat
  chunk_protected_size :: int

definition chunk_init :: "nat \<Rightarrow> chunk_cache" where
  "chunk_init ps = \<lparr>chunk_page_size = ps, chunk_protected_size = 0\<rparr>"

definition chunk_disable :: "chunk_cache \<Rightarrow> bool" where
  "chunk_disable c = True"

definition chunk_reset :: "chunk_cache \<Rightarrow> chunk_cache" where
  "chunk_reset c = c"

definition chunk_match_prefix :: "chunk_cache \<Rightarrow> radix_key \<Rightarrow> (match_result \<times> chunk_cache) result" where
  "chunk_match_prefix c k = Inr (\<lparr>device_indices = [], last_device_node = None,
     mr_last_host_node = None, mr_host_hit_length = 0\<rparr>, c)"

definition chunk_cache_finished_req ::
    "nat option \<Rightarrow> ('a \<Rightarrow> int list \<Rightarrow> 'a result) \<Rightarrow> chunk_cache \<Rightarrow> req_pool \<Rightarrow> 'a \<Rightarrow> req \<Rightarrow>
     (chunk_cache \<times> req_pool \<times> 'a \<times> req) result" where
  "chunk_cache_finished_req topk free c p a r0 =
     bind_r (pop_committed_kv_cache topk r0) (\<lambda>(kv_committed_len, r).
     bind_r (read_row p (req_pool_idx r) kv_committed_len) (\<lambda>kv_indices.
     bind_r (free_row p (req_pool_idx r)) (\<lambda>p1.
     bind_r (free a kv_indices) (\<lambda>a1.
       Inr (c\<lparr>chunk_protected_size := chunk_protected_size c - int (length (prefix_indices r))\<rparr>, p1, a1, r)))))"

definition chunk_cache_unfinished_req :: "chunk_cache \<Rightarrow> req_pool \<Rightarrow> req \<Rightarrow> (chunk_cache \<times> req) result" where
  "chunk_cache_unfinished_req c p r =
     bind_r (read_row p (req_pool_idx r) (length (fill_ids r))) (\<lambda>kv_indices.
       Inr (c\<lparr>chunk_protected_size := chunk_protected_size c
                + (int (length kv_indices) - int (length (prefix_indices r)))\<rparr>,
            r\<lparr>prefix_indices := kv_indices\<rparr>))"

definition chunk_evict :: "chunk_cache \<Rightarrow> nat \<Rightarrow> chunk_cache" where
  "chunk_evict c num_tokens = c"

definition chunk_inc_lock_ref :: "chunk_cache \<Rightarrow> nat option \<Rightarrow> int" where
  "chunk_inc_lock_ref c n = 0"

definition chunk_dec_lock_ref :: "chunk_cache \<Rightarrow> nat option \<Rightarrow> int" where
  "chunk_dec_lock_ref c n = 0"

definition read_row_slice :: "req_pool \<Rightarrow> int option \<Rightarrow> nat \<Rightarrow> nat \<Rightarrow> int list result" where
  "read_row_slice p i lo hi = bind_r (read_row p i hi) (\<lambda>xs. Inr (drop lo xs))"

definition evict_swa ::
    "req_pool \<Rightarrow> swa_alloc \<Rightarrow> req \<Rightarrow> nat \<Rightarrow> nat \<Rightarrow> (swa_alloc \<times> req) result" where
  "evict_swa p a r prelen attention_chunk_size =
     (if prelen \<ge> evicted_seqlen_local r + attention_chunk_size
      then let new_evicted_seqlen_local = attention_chunk_size * (prelen div attention_chunk_size)
           in bind_r (read_row_slice p (req_pool_idx r) (evicted_seqlen_local r) new_evicted_seqlen_local) (\<lambda>free_slots.
              bind_r (free_swa a free_slots) (\<lambda>a1.
                Inr (a1, r\<lparr>evicted_seqlen_local := new_evicted_seqlen_local\<rparr>)))
      else Inr (a, r))"

section \<open>Properties\<close>

text \<open>
  The sliding-window part of a request: its slots up to \<open>evicted_seqlen_local\<close> have been dropped and the
  later ones have not.
\<close>

definition window_ok :: "nat \<Rightarrow> swa_alloc \<Rightarrow> int list \<Rightarrow> req \<Rightarrow> bool" where
  "window_ok chunk a row r \<longleftrightarrow> chunk dvd evicted_seqlen_local r \<and> evicted_seqlen_local r \<le> length row \<and>
     (\<forall>i < length row. (swa_slot a (row ! i) = 0) = (i < evicted_seqlen_local r))"

lemma mapped_swa_slot: "i \<in> H \<Longrightarrow> i \<in> mapped a H \<longleftrightarrow> swa_slot a i \<noteq> 0"
  by (simp add: mapped_def swa_slot_def)

lemma window_bounds:
  fixes e chunk prelen :: nat
  assumes "0 < chunk" and "chunk dvd e" and "e + chunk \<le> prelen"
  shows "e < chunk * (prelen div chunk)" "chunk * (prelen div chunk) \<le> prelen"
    "prelen < chunk * (prelen div chunk) + chunk"
proof -
  obtain k where k: "e = chunk * k" using assms(2) by blast
  then have "chunk * (k + 1) \<le> prelen" using assms(3) by simp
  then have "k + 1 \<le> prelen div chunk" using assms(1) by (simp add: less_eq_div_iff_mult_less_eq mult.commute)
  then show "e < chunk * (prelen div chunk)" using k assms(1) by simp
  show "chunk * (prelen div chunk) \<le> prelen" by simp
  show "prelen < chunk * (prelen div chunk) + chunk"
    using assms(1) by (metis add_less_cancel_left mod_less_divisor mult_div_mod_eq)
qed

text \<open>
  (C39) Dropping the sliding window is exact: for a request whose slots \<open>row\<close> it holds, \<open>evict_swa\<close> never
  fails, leaves the full slots held, afterwards has dropped exactly the whole chunks before position
  \<open>prelen\<close> (so less than one chunk behind it), and still maps every later slot of the request.
\<close>

theorem evict_swa_exact:
  assumes "swa_inv N M a H" and "read_row p (req_pool_idx r) n = Inr row" and "length row = n" and "distinct row"
    and "set row \<subseteq> H" and "0 < chunk" and "prelen \<le> n" and "window_ok chunk a row r"
  shows "\<exists>a' r'. evict_swa p a r prelen chunk = Inr (a', r') \<and> swa_inv N M a' H \<and> window_ok chunk a' row r' \<and>
    prelen < evicted_seqlen_local r' + chunk \<and>
    swa_available_size a' = swa_available_size a + (evicted_seqlen_local r' - evicted_seqlen_local r)"
proof (cases "evicted_seqlen_local r + chunk \<le> prelen")
  case False
  then show ?thesis using assms by (auto simp: evict_swa_def)
next
  case True
  let ?e = "evicted_seqlen_local r" and ?e' = "chunk * (prelen div chunk)"
  have w: "chunk dvd ?e" "\<And>i. i < n \<Longrightarrow> (swa_slot a (row ! i) = 0) = (i < ?e)"
    using assms(3,8) by (auto simp: window_ok_def)
  note b = window_bounds [OF assms(6) w(1) True]
  have e'n: "?e' \<le> n" by (rule order_trans [OF b(2) assms(7)])
  let ?xs = "drop ?e (take ?e' row)"
  obtain i where i: "req_pool_idx r = Some i" "\<not> (i < 0 \<or> int (length (req_to_token p)) \<le> i)"
    "row = take n (req_to_token p ! nat i)"
    using assms(2) by (auto simp: read_row_def split: option.splits if_splits)
  have rd: "read_row_slice p (req_pool_idx r) ?e ?e' = Inr ?xs"
    using i e'n by (auto simp: read_row_slice_def read_row_def min_absorb1)
  have sub: "distinct ?xs" "set ?xs \<subseteq> H"
    using assms(4,5) by (auto dest!: in_set_dropD in_set_takeD)
  obtain a' where a': "free_swa a ?xs = Inr a'" "swa_inv N M a' H" "mapped a' H = mapped a H - set ?xs"
    using free_swa_inv [OF assms(1) sub] by blast
  have idx: "row ! j \<in> set ?xs \<longleftrightarrow> ?e \<le> j \<and> j < ?e'" if "j < n" for j
  proof -
    have "row ! j \<in> set ?xs \<longleftrightarrow> (\<exists>k. ?e + k < min n ?e' \<and> row ! (?e + k) = row ! j)"
      using assms(3) by (auto simp: in_set_conv_nth less_diff_conv add.commute)
    also have "\<dots> \<longleftrightarrow> ?e \<le> j \<and> j < ?e'"
      using nth_eq_iff_index_eq [OF assms(4)] that assms(3) by (auto simp: le_iff_add)
    finally show ?thesis .
  qed
  have inH: "row ! j \<in> H" if "j < n" for j using that assms(3,5) by auto
  have z: "(swa_slot a' (row ! j) = 0) = (j < ?e')" if "j < n" for j
    using mapped_swa_slot [OF inH [OF that], of a'] mapped_swa_slot [OF inH [OF that], of a] a'(3) idx [OF that]
      w(2) [OF that] b(1) by auto
  have "set ?xs \<subseteq> mapped a H"
  proof
    fix x assume "x \<in> set ?xs"
    then obtain k where "k < length ?xs" "x = ?xs ! k" by (auto simp: in_set_conv_nth)
    then have "x = row ! (?e + k)" "?e + k < n" using assms(3) e'n b(1) by (auto simp: min_absorb2)
    then show "x \<in> mapped a H" using w(2) [of "?e + k"] inH [of "?e + k"] mapped_swa_slot [of x H a] by simp
  qed
  moreover have "card (set ?xs) = ?e' - ?e" using distinct_card [OF sub(1)] e'n assms(3) by (simp add: min_absorb2)
  moreover have "finite (mapped a H)" using swa_invD(1) [OF assms(1)] by (simp add: mapped_def)
  ultimately have card: "card (mapped a' H) = card (mapped a H) - (?e' - ?e)" "?e' - ?e \<le> card (mapped a H)"
    using a'(3) card_mono [of "mapped a H" "set ?xs"] by (simp_all add: card_Diff_subset)
  let ?r = "r\<lparr>evicted_seqlen_local := ?e'\<rparr>"
  have "evict_swa p a r prelen chunk = Inr (a', ?r)" using True rd a'(1) by (simp add: evict_swa_def Let_def)
  moreover have "window_ok chunk a' row ?r" using z e'n assms(3) by (simp add: window_ok_def)
  moreover have "swa_available_size a' = swa_available_size a + (?e' - ?e)"
    using swa_invD(4,6) [OF assms(1)] swa_invD(4) [OF a'(2)] card by simp
  ultimately show ?thesis using a'(2) b(3) by (intro exI [of _ a'] exI [of _ ?r]) simp
qed

theorem evict_swa_exact_witness:
  "\<exists>p a r a' r'. evict_swa p a r 4 2 = Inr (a', r') \<and> 4 < evicted_seqlen_local r' + 2"
proof -
  have av: "4 \<le> full_available_size (swa_init 8 8 False)" "4 \<le> swa_available_size (swa_init 8 8 False)"
    using swa_invD(3,4) [OF swa_init_inv [of 8 8 False]] by (simp_all add: mapped_def)
  obtain xs a where a: "swa_inv 8 8 a (set xs)" "length xs = 4" "distinct xs" "\<forall>i \<in> set xs. swa_slot a i \<noteq> 0"
    using swa_alloc_inv [OF swa_init_inv av] by auto
  let ?p = "\<lparr>rp_size = 1, max_context_len = 4, req_to_token = [xs], free_slots = []\<rparr>"
  let ?r = "demo_req\<lparr>req_pool_idx := Some 0\<rparr>"
  have "read_row ?p (req_pool_idx ?r) 4 = Inr xs" "window_ok 2 a xs ?r"
    using a by (simp_all add: read_row_def window_ok_def demo_req_simps)
  from evict_swa_exact [OF a(1) this(1) a(2,3) _ _ _ this(2), of 4]
  obtain a' r' where "evict_swa ?p a ?r 4 2 = Inr (a', r')" "4 < evicted_seqlen_local r' + 2" by auto
  then show ?thesis by blast
qed

end
