(* ===== verification/Paged_Kernels.thy ===== *)
theory Paged_Kernels
  imports KV_Allocator
begin

text \<open>
  The two Triton kernels of \<^verbatim>\<open>mem_cache/allocator.py\<close>, \<open>alloc_extend_kernel\<close> and
  \<open>alloc_decode_kernel\<close>, with the page counting of \<^verbatim>\<open>utils/common.py\<close>, and the proof that a
  launch computes the slots a sequential reference allocation would. A kernel launch runs one program per
  request; a program reads its lanes and stores into the output tensor. Sequence and prefix
  lengths are natural numbers, slots and pages are \<open>int\<close>s.

  Three things the code does not determine are arguments: \<open>u\<close>, the value of a lane that a
  \<^verbatim>\<open>tl.load\<close> masks off; \<open>oob\<close>, what a load past the end of the free-page tensor reads; and
  \<open>uninit\<close>, the contents of \<^verbatim>\<open>torch.empty\<close>.
\<close>

section \<open>Helpers of utils/common.py\<close>

fun bit_length :: "nat \<Rightarrow> nat" where
  "bit_length n = (if n = 0 then 0 else Suc (bit_length (n div 2)))"

declare bit_length.simps [simp del]

definition next_power_of_2 :: "nat \<Rightarrow> nat" where
  "next_power_of_2 n = (if n > 0 then 2 ^ bit_length (n - 1) else 1)"

definition get_num_new_pages :: "nat list \<Rightarrow> nat \<Rightarrow> nat list option \<Rightarrow> bool \<Rightarrow> nat result" where
  "get_num_new_pages seq_lens ps prefix_lens decode =
     (if prefix_lens = None \<or> decode
      then assert_r decode (Inr (length (filter (\<lambda>s. s mod ps = 1) seq_lens)))
      else Inr (sum_list (map2 (\<lambda>s p. (s + ps - 1) div ps - (p + ps - 1) div ps)
                               seq_lens (the prefix_lens))))"

section \<open>Masked loads and stores\<close>

definition lane :: "nat \<Rightarrow> nat \<Rightarrow> nat list \<Rightarrow> nat \<Rightarrow> nat" where
  "lane u pid xs i = (if i \<le> pid then xs ! i else u)"

definition load_page :: "(nat \<Rightarrow> int) \<Rightarrow> int list \<Rightarrow> nat \<Rightarrow> int" where
  "load_page oob fp i = (if i < length fp then fp ! i else oob i)"

text \<open>\<open>store out start n f\<close> stores \<open>f j\<close> at \<open>start + j\<close> for every offset \<open>j < n\<close>.\<close>

definition store :: "int list \<Rightarrow> nat \<Rightarrow> nat \<Rightarrow> (nat \<Rightarrow> int) \<Rightarrow> int list" where
  "store out start n f = fold (\<lambda>j o'. o'[start + j := f j]) [0..<n] out"

section \<open>The kernels\<close>

definition alloc_extend_kernel ::
    "nat \<Rightarrow> (nat \<Rightarrow> int) \<Rightarrow> nat list \<Rightarrow> nat list \<Rightarrow> int list \<Rightarrow> int list \<Rightarrow>
     nat \<Rightarrow> nat \<Rightarrow> nat \<Rightarrow> nat \<Rightarrow> int list \<Rightarrow> int list" where
  "alloc_extend_kernel u oob pre_lens seq_lens last_locs fp bs_upper ps max_num_ext pid out =
     (let lanes = [0..<bs_upper];
          seq_len = seq_lens ! pid; pre_len = pre_lens ! pid;
          extend_len = seq_len - pre_len;
          sum_extend_lens =
            sum_list (map (\<lambda>i. lane u pid seq_lens i - lane u pid pre_lens i) lanes);
          output_start_loc = sum_extend_lens - extend_len;
          num_new_pages = map (\<lambda>i. (lane u pid seq_lens i + ps - 1) div ps
                                   - (lane u pid pre_lens i + ps - 1) div ps) lanes;
          num_page_start_loc_self = (seq_len + ps - 1) div ps - (pre_len + ps - 1) div ps;
          new_page_start_loc = sum_list num_new_pages - num_page_start_loc_self;
          last_loc = last_locs ! pid;
          num_part1 = min seq_len ((pre_len + ps - 1) div ps * ps) - pre_len;
          out1 = store out output_start_loc (min ps num_part1) (\<lambda>j. last_loc + 1 + int j)
      in if pre_len + num_part1 = seq_len then out1
         else
           let num_part2 = seq_len div ps * ps - (pre_len + ps - 1) div ps * ps;
               out2 = store out1 (output_start_loc + num_part1) (min max_num_ext num_part2)
                 (\<lambda>j. load_page oob fp (new_page_start_loc + j div ps) * int ps + int (j mod ps))
           in if pre_len + num_part1 + num_part2 = seq_len then out2
              else
                let num_part3 = seq_len - seq_len div ps * ps;
                    start_loc = load_page oob fp
                      (new_page_start_loc + num_page_start_loc_self - 1)
                in store out2 (output_start_loc + num_part1 + num_part2) (min ps num_part3)
                     (\<lambda>j. start_loc * int ps + int j))"

definition alloc_decode_kernel ::
    "nat \<Rightarrow> (nat \<Rightarrow> int) \<Rightarrow> nat list \<Rightarrow> int list \<Rightarrow> int list \<Rightarrow> nat \<Rightarrow> nat \<Rightarrow>
     nat \<Rightarrow> int list \<Rightarrow> int list" where
  "alloc_decode_kernel u oob seq_lens last_locs fp bs_upper ps pid out =
     (let lanes = [0..<bs_upper];
          pre = (\<lambda>i. if i \<le> pid then lane u pid seq_lens i - 1 else lane u pid seq_lens i);
          seq_len = seq_lens ! pid; pre_len = seq_len - 1;
          num_new_pages = map (\<lambda>i. (lane u pid seq_lens i + ps - 1) div ps
                                   - (pre i + ps - 1) div ps) lanes;
          num_page_start_loc_self = (seq_len + ps - 1) div ps - (pre_len + ps - 1) div ps;
          new_page_start_loc = sum_list num_new_pages - num_page_start_loc_self
      in if num_page_start_loc_self = 0 then out[pid := last_locs ! pid + 1]
         else out[pid := load_page oob fp new_page_start_loc * int ps])"

section \<open>Reference definitions\<close>

text \<open>
  \<open>extend_slots\<close> says which slots a request that grows from \<open>pre_len\<close> to \<open>seq_len\<close> tokens gets:
  the rest of its open page, then the given pages in order; position \<open>j\<close> of the sequence sits at
  offset \<open>j mod ps\<close> of its page. \<open>batch_extend_slots\<close> serves the requests one after another.
\<close>

definition extend_slots :: "nat \<Rightarrow> nat \<Rightarrow> nat \<Rightarrow> int \<Rightarrow> int list \<Rightarrow> int list" where
  "extend_slots ps pre_len seq_len last_loc pages =
     map (\<lambda>j. if j < ceil_div pre_len ps * ps then last_loc + 1 + int (j - pre_len)
              else pages ! (j div ps - ceil_div pre_len ps) * int ps + int (j mod ps))
       [pre_len..<seq_len]"

definition new_pages :: "nat \<Rightarrow> nat \<Rightarrow> nat \<Rightarrow> nat" where
  "new_pages ps pre_len seq_len = ceil_div seq_len ps - ceil_div pre_len ps"

fun batch_extend_slots :: "nat \<Rightarrow> nat list \<Rightarrow> nat list \<Rightarrow> int list \<Rightarrow> int list \<Rightarrow> int list" where
  "batch_extend_slots ps (p # pre_lens) (q # seq_lens) (l # last_locs) pages =
     extend_slots ps p q l (take (new_pages ps p q) pages)
     @ batch_extend_slots ps pre_lens seq_lens last_locs (drop (new_pages ps p q) pages)"
| "batch_extend_slots ps _ _ _ pages = []"

definition sum_new_pages :: "nat \<Rightarrow> nat list \<Rightarrow> nat list \<Rightarrow> nat" where
  "sum_new_pages ps pre_lens seq_lens = sum_list (map2 (new_pages ps) pre_lens seq_lens)"

fun batch_decode_slots :: "nat \<Rightarrow> nat list \<Rightarrow> int list \<Rightarrow> int list \<Rightarrow> int list" where
  "batch_decode_slots ps (q # seq_lens) (l # last_locs) pages =
     (if q mod ps = 1 then (hd pages * int ps) # batch_decode_slots ps seq_lens last_locs (tl pages)
      else (l + 1) # batch_decode_slots ps seq_lens last_locs pages)"
| "batch_decode_slots ps _ _ pages = []"

text \<open>The page a request already owns partly, if any.\<close>

definition open_page :: "nat \<Rightarrow> nat \<Rightarrow> int \<Rightarrow> int set" where
  "open_page ps pre_len last_loc = (if pre_len mod ps = 0 then {} else {last_loc div int ps})"

fun open_pages :: "nat \<Rightarrow> nat list \<Rightarrow> int list \<Rightarrow> int list" where
  "open_pages ps (p # pre_lens) (l # last_locs) =
     (if p mod ps = 0 then [] else [l div int ps]) @ open_pages ps pre_lens last_locs"
| "open_pages ps _ _ = []"

text \<open>The body of the extend kernel once its offsets into the tensors are known.\<close>

definition extend_stages ::
    "nat \<Rightarrow> nat \<Rightarrow> nat \<Rightarrow> nat \<Rightarrow> int \<Rightarrow> nat \<Rightarrow> (nat \<Rightarrow> int) \<Rightarrow> int \<Rightarrow> int list \<Rightarrow> int list" where
  "extend_stages ps mx p s l off page lp out =
     (let n1 = min s (ceil_div p ps * ps) - p;
          out1 = store out off (min ps n1) (\<lambda>j. l + 1 + int j)
      in if p + n1 = s then out1
         else let n2 = s div ps * ps - ceil_div p ps * ps;
                  out2 = store out1 (off + n1) (min mx n2)
                    (\<lambda>j. page (j div ps) * int ps + int (j mod ps))
           in if p + n1 + n2 = s then out2
              else store out2 (off + n1 + n2) (min ps (s - s div ps * ps))
                     (\<lambda>j. lp * int ps + int j))"

section \<open>Powers of two and stores\<close>

lemma less_two_power_bit_length: "n < 2 ^ bit_length n"
proof (induction n rule: bit_length.induct)
  case (1 n)
  show ?case
  proof (cases "n = 0")
    case True
    then show ?thesis by (simp add: bit_length.simps)
  next
    case False
    with 1 have "n div 2 < 2 ^ bit_length (n div 2)" by simp
    then have "n < 2 * 2 ^ bit_length (n div 2)" by linarith
    with False show ?thesis by (simp add: bit_length.simps [of n])
  qed
qed

lemma le_next_power_of_2: "n \<le> next_power_of_2 n"
  using less_two_power_bit_length [of "n - 1"] by (auto simp: next_power_of_2_def)

lemma store_Suc: "store out start (Suc n) f = (store out start n f)[start + n := f n]"
  by (simp add: store_def)

lemma length_store [simp]: "length (store out start n f) = length out"
  by (induction n) (simp_all add: store_Suc, simp add: store_def)

lemma store_eq:
  "start + n \<le> length out \<Longrightarrow>
   store out start n f = take start out @ map f [0..<n] @ drop (start + n) out"
proof (induction n)
  case 0
  then show ?case by (simp add: store_def)
next
  case (Suc n)
  then have "store out start (Suc n) f
      = (take start out @ map f [0..<n] @ drop (start + n) out)[start + n := f n]"
    by (simp add: store_Suc)
  also have "\<dots> = take start out @ map f [0..<n] @ (drop (start + n) out)[0 := f n]"
    using Suc.prems by (simp add: list_update_append min_def)
  also have "(drop (start + n) out)[0 := f n] = f n # drop (start + Suc n) out"
    using Suc.prems by (simp add: Cons_nth_drop_Suc [symmetric])
  finally show ?case by simp
qed

lemma store_after:
  assumes "o1 + length A + n \<le> length out" and "o1 \<le> length out"
  shows "store (take o1 out @ A @ drop (o1 + length A) out) (o1 + length A) n f
       = take o1 out @ (A @ map f [0..<n]) @ drop (o1 + length (A @ map f [0..<n])) out"
proof -
  let ?o = "take o1 out @ A @ drop (o1 + length A) out"
  have "o1 + length A + n \<le> length ?o" using assms by simp
  then have "store ?o (o1 + length A) n f
      = take (o1 + length A) ?o @ map f [0..<n] @ drop (o1 + length A + n) ?o"
    by (rule store_eq)
  with assms show ?thesis by (simp add: min_absorb2 min_absorb1 ac_simps)
qed

lemma upt_split: "a \<le> b \<Longrightarrow> b \<le> c \<Longrightarrow> [a..<c] = [a..<b] @ [b..<c]"
  by (metis le_add_diff_inverse upt_add_eq_append)

lemma sum_lanes:
  assumes "pid < bu" and g: "\<And>x. g x x = (0::nat)"
  shows "sum_list (map (\<lambda>i. g (lane u pid a i) (lane u pid b i)) [0..<bu])
       = sum_list (map (\<lambda>i. g (a ! i) (b ! i)) [0..<pid]) + g (a ! pid) (b ! pid)"
proof -
  have split: "[0..<bu] = [0..<Suc pid] @ [Suc pid..<bu]"
    using assms(1) by (metis Suc_leI le0 upt_add_eq_append le_add_diff_inverse)
  have z: "map (\<lambda>i. g (lane u pid a i) (lane u pid b i)) [Suc pid..<bu]
      = map (\<lambda>i. 0) [Suc pid..<bu]"
    by (rule map_cong) (auto simp: lane_def g)
  have y: "map (\<lambda>i. g (lane u pid a i) (lane u pid b i)) [0..<Suc pid]
      = map (\<lambda>i. g (a ! i) (b ! i)) [0..<Suc pid]"
    by (rule map_cong) (auto simp: lane_def)
  show ?thesis unfolding split map_append sum_list_append z y by simp
qed

lemma map_upt_shift: "map f [a..<a + n] = map (\<lambda>j. f (a + j)) [0..<n]"
  by (induction n) auto

lemma extend_slots_parts:
  assumes ps: "0 < ps" and le: "pre \<le> seq"
  defines "c \<equiv> ceil_div pre ps"
  shows "seq \<le> c * ps \<Longrightarrow> extend_slots ps pre seq l pages
           = map (\<lambda>j. l + 1 + int j) [0..<seq - pre]"
    and "c * ps < seq \<Longrightarrow> extend_slots ps pre seq l pages
           = map (\<lambda>j. l + 1 + int j) [0..<c * ps - pre]
           @ map (\<lambda>j. pages ! (j div ps) * int ps + int (j mod ps)) [0..<seq div ps * ps - c * ps]
           @ map (\<lambda>j. pages ! (seq div ps - c) * int ps + int j) [0..<seq - seq div ps * ps]"
proof -
  show "extend_slots ps pre seq l pages = map (\<lambda>j. l + 1 + int j) [0..<seq - pre]"
    if "seq \<le> c * ps"
  proof -
    have "[pre..<seq] = [pre..<pre + (seq - pre)]" using le by simp
    then show ?thesis using that
      unfolding extend_slots_def c_def by (simp only: map_upt_shift) (rule map_cong, auto)
  qed
next
  assume gt: "c * ps < seq"
  define F where "F = seq div ps * ps"
  have pc: "pre \<le> c * ps" unfolding c_def by (rule ceil_div_mult_ge [OF ps])
  have cF: "c * ps \<le> F" unfolding F_def
    by (metis gt less_eq_div_iff_mult_less_eq less_imp_le mult_le_mono1 ps)
  have Fs: "F \<le> seq" by (simp add: F_def)
  have eq: "[pre..<seq] = [pre..<pre + (c * ps - pre)] @ [c * ps..<c * ps + (F - c * ps)]
      @ [F..<F + (seq - F)]"
    using pc cF Fs upt_split [of pre "c * ps" seq] upt_split [of "c * ps" F seq] by simp
  have 1: "map (\<lambda>j. if j < c * ps then l + 1 + int (j - pre)
      else pages ! (j div ps - c) * int ps + int (j mod ps)) [pre..<pre + (c * ps - pre)]
    = map (\<lambda>j. l + 1 + int j) [0..<c * ps - pre]"
    unfolding map_upt_shift by (rule map_cong) auto
  have 2: "map (\<lambda>j. if j < c * ps then l + 1 + int (j - pre)
      else pages ! (j div ps - c) * int ps + int (j mod ps)) [c * ps..<c * ps + (F - c * ps)]
    = map (\<lambda>j. pages ! (j div ps) * int ps + int (j mod ps)) [0..<F - c * ps]"
    unfolding map_upt_shift using ps by (intro map_cong) auto
  have 3: "map (\<lambda>j. if j < c * ps then l + 1 + int (j - pre)
      else pages ! (j div ps - c) * int ps + int (j mod ps)) [F..<F + (seq - F)]
    = map (\<lambda>j. pages ! (seq div ps - c) * int ps + int j) [0..<seq - F]"
    unfolding map_upt_shift
  proof (rule map_cong [OF refl])
    fix j assume "j \<in> set [0..<seq - F]"
    then have j: "j < ps" using ps by (simp add: F_def) (metis minus_mult_div_eq_mod mult.commute mod_less_divisor less_trans)
    have d: "(F + j) div ps = seq div ps" and m: "(F + j) mod ps = j"
      using j ps by (simp_all add: F_def)
    show "(if F + j < c * ps then l + 1 + int (F + j - pre)
       else pages ! ((F + j) div ps - c) * int ps + int ((F + j) mod ps))
      = pages ! (seq div ps - c) * int ps + int j"
      using cF by (simp add: d m)
  qed
  show "extend_slots ps pre seq l pages
           = map (\<lambda>j. l + 1 + int j) [0..<c * ps - pre]
           @ map (\<lambda>j. pages ! (j div ps) * int ps + int (j mod ps)) [0..<seq div ps * ps - c * ps]
           @ map (\<lambda>j. pages ! (seq div ps - c) * int ps + int j) [0..<seq - seq div ps * ps]"
    unfolding extend_slots_def c_def [symmetric] eq map_append 1 2 3 by (simp only: F_def)
qed

lemma length_extend_slots [simp]: "length (extend_slots ps pre seq l pages) = seq - pre"
  by (simp add: extend_slots_def)

lemma ceil_div_cases:
  assumes "0 < ps"
  shows "ceil_div n ps = n div ps + (if n mod ps = 0 then 0 else 1)"
proof (cases "n mod ps = 0")
  case True
  then show ?thesis using assms by (simp add: ceil_div_exact dvd_eq_mod_eq_0)
next
  case False
  have "n + ps - 1 = (n mod ps - 1) + (n div ps + 1) * ps"
  proof -
    have "n = n div ps * ps + n mod ps" by simp
    moreover have "(n div ps + 1) * ps = n div ps * ps + ps" by simp
    ultimately show ?thesis using False by linarith
  qed
  moreover have "(n mod ps - 1) div ps = 0" using assms by (simp add: less_imp_diff_less)
  ultimately have "(n + ps - 1) div ps = n div ps + 1"
    using assms by (metis add_0 div_mult_self1 less_numeral_extra(3) add.commute)
  with False show ?thesis by (simp add: ceil_div_def)
qed

lemma load_page_in:
  "pg + n \<le> length fp \<Longrightarrow> k < n \<Longrightarrow> load_page oob fp (pg + k) = take n (drop pg fp) ! k"
  by (simp add: load_page_def)

lemma store_zero [simp]: "store out start 0 f = out"
  by (simp add: store_def)

lemma store3:
  assumes "off + (a + b + d) \<le> length out"
  shows "store (store (store out off a f) (off + a) b g) (off + a + b) d h
       = take off out @ (map f [0..<a] @ map g [0..<b] @ map h [0..<d])
         @ drop (off + (a + b + d)) out"
proof -
  have 1: "store out off a f = take off out @ map f [0..<a] @ drop (off + length (map f [0..<a])) out"
    using assms by (simp add: store_eq)
  have 2: "store (store out off a f) (off + a) b g = take off out @ (map f [0..<a] @ map g [0..<b])
      @ drop (off + length (map f [0..<a] @ map g [0..<b])) out"
    unfolding 1 using assms store_after [of off "map f [0..<a]" b out g] by simp
  show ?thesis
    unfolding 2 using assms store_after [of off "map f [0..<a] @ map g [0..<b]" d out h]
    by (simp add: add.assoc)
qed

lemma alloc_extend_kernel_stages:
  fixes pre seq :: "nat list" and pid ps :: nat
  defines "off \<equiv> sum_list (map (\<lambda>i. seq ! i - pre ! i) [0..<pid])"
    and "pg \<equiv> sum_list (map (\<lambda>i. new_pages ps (pre ! i) (seq ! i)) [0..<pid])"
    and "n \<equiv> new_pages ps (pre ! pid) (seq ! pid)"
  assumes pid: "pid < bu"
  shows "alloc_extend_kernel u oob pre seq ll fp bu ps mx pid out
    = extend_stages ps mx (pre ! pid) (seq ! pid) (ll ! pid) off
        (\<lambda>k. load_page oob fp (pg + k)) (load_page oob fp (pg + n - 1)) out"
proof -
  let ?p = "pre ! pid" and ?s = "seq ! pid"
  have so: "sum_list (map (\<lambda>i. lane u pid seq i - lane u pid pre i) [0..<bu]) - (?s - ?p) = off"
    by (simp add: sum_lanes [OF pid, of "\<lambda>x y. x - y"] off_def)
  have sp: "sum_list (map (\<lambda>i. (lane u pid seq i + ps - 1) div ps
        - (lane u pid pre i + ps - 1) div ps) [0..<bu])
        - ((?s + ps - 1) div ps - (?p + ps - 1) div ps) = pg"
    by (subst sum_lanes [OF pid, of "\<lambda>x y. (x + ps - 1) div ps - (y + ps - 1) div ps"])
      (simp_all add: pg_def new_pages_def ceil_div_def)
  have nn: "(?s + ps - 1) div ps - (?p + ps - 1) div ps = n"
    by (simp add: n_def new_pages_def ceil_div_def)
  show ?thesis
    unfolding alloc_extend_kernel_def extend_stages_def Let_def so sp [unfolded nn] nn
      ceil_div_def by (rule refl)
qed

lemma new_pages_eq:
  assumes ps: "0 < ps" and gt: "ceil_div p ps * ps < s"
  shows "ceil_div p ps * ps \<le> s div ps * ps" and "s < s div ps * ps + ps"
    and "new_pages ps p s = s div ps - ceil_div p ps + (if s = s div ps * ps then 0 else 1)"
proof -
  have c: "ceil_div p ps \<le> s div ps" using gt ps by (simp add: less_eq_div_iff_mult_less_eq)
  then show "ceil_div p ps * ps \<le> s div ps * ps" by simp
  have "s = s div ps * ps + s mod ps" and "s mod ps < ps" using ps by simp_all
  then show "s < s div ps * ps + ps" by linarith
  have "s mod ps = 0 \<longleftrightarrow> s = s div ps * ps" using \<open>s = s div ps * ps + s mod ps\<close> by linarith
  with c show "new_pages ps p s = s div ps - ceil_div p ps + (if s = s div ps * ps then 0 else 1)"
    unfolding new_pages_def ceil_div_cases [OF ps, of s] by simp
qed

lemma extend_stages_short:
  assumes ps: "0 < ps" and le: "p \<le> s" and short: "s \<le> ceil_div p ps * ps"
    and out: "off + (s - p) \<le> length out"
  shows "extend_stages ps mx p s l off page lp out
       = take off out @ extend_slots ps p s l pages @ drop (off + (s - p)) out"
proof -
  have m: "min ps (min s (ceil_div p ps * ps) - p) = s - p"
    using ceil_div_mult_less [OF ps, of p] le short by linarith
  have e: "p + (min s (ceil_div p ps * ps) - p) = s" using short le by simp
  have "extend_stages ps mx p s l off page lp out = store out off (s - p) (\<lambda>j. l + 1 + int j)"
    by (simp only: extend_stages_def Let_def e m simp_thms if_True)
  also have "\<dots> = take off out @ map (\<lambda>j. l + 1 + int j) [0..<s - p] @ drop (off + (s - p)) out"
    by (rule store_eq [OF out])
  also have "map (\<lambda>j. l + 1 + int j) [0..<s - p] = extend_slots ps p s l pages"
    using extend_slots_parts(1) [OF ps le short] by simp
  finally show ?thesis .
qed

lemma extend_stages_unfold:
  assumes C: "ceil_div p ps * ps = C" "p \<le> C" "C < p + ps" "C < s"
    and F: "s div ps * ps = F" "C \<le> F" "F \<le> s" "s < F + ps" and mx: "s - p \<le> mx"
  shows "extend_stages ps mx p s l off page lp out
      = store (store (store out off (C - p) (\<lambda>j. l + 1 + int j)) (off + (C - p)) (F - C)
          (\<lambda>j. page (j div ps) * int ps + int (j mod ps)))
          (off + (C - p) + (F - C)) (s - F) (\<lambda>j. lp * int ps + int j)"
proof -
  have m1: "min s C - p = C - p" and m1': "min ps (C - p) = C - p"
    and m2: "min mx (F - C) = F - C" and m3: "min ps (s - F) = s - F"
    and ne: "(p + (C - p) = s) = False" and e: "(p + (C - p) + (F - C) = s) = (s - F = 0)"
    using C(2-4) F(2-4) mx by (linarith+, auto)
  show ?thesis
    by (cases "s - F = 0")
      (simp_all only: extend_stages_def Let_def C(1) F(1) m1 m1' m2 m3 ne e if_False if_True
        simp_thms store_zero)
qed

lemma extend_stages_pages:
  assumes ps: "0 < ps" and le: "p \<le> s" and gt: "ceil_div p ps * ps < s"
    and out: "off + (s - p) \<le> length out" and mx: "s - p \<le> mx"
    and page: "\<And>k. k < new_pages ps p s \<Longrightarrow> page k = pages ! k"
    and lp: "0 < new_pages ps p s \<Longrightarrow> lp = pages ! (new_pages ps p s - 1)"
  shows "extend_stages ps mx p s l off page lp out
       = take off out @ extend_slots ps p s l pages @ drop (off + (s - p)) out"
proof -
  define c C F n where "c = ceil_div p ps" and "C = c * ps" and "F = s div ps * ps"
    and "n = new_pages ps p s"
  let ?f = "\<lambda>j. l + 1 + int j" and ?g = "\<lambda>j. page (j div ps) * int ps + int (j mod ps)"
    and ?h = "\<lambda>j. lp * int ps + int j"
  have CF: "C \<le> F" "s < F + ps" and n: "n = s div ps - c + (if s = F then 0 else 1)"
    using new_pages_eq [OF ps gt] by (simp_all only: C_def F_def c_def n_def)
  have C: "p \<le> C" "C < p + ps" "C < s"
    using ps gt by (simp_all add: ceil_div_mult_ge ceil_div_mult_less C_def c_def)
  have Fs: "F \<le> s" by (simp add: F_def)
  have sum: "C - p + (F - C) + (s - F) = s - p" using C CF Fs by linarith
  have g: "map ?g [0..<F - C]
      = map (\<lambda>j. pages ! (j div ps) * int ps + int (j mod ps)) [0..<F - C]"
  proof (rule map_cong [OF refl])
    fix j assume "j \<in> set [0..<F - C]"
    then have "j < (s div ps - c) * ps" by (simp add: F_def C_def diff_mult_distrib)
    then have "j div ps < n" using less_mult_imp_div_less n by fastforce
    then show "?g j = pages ! (j div ps) * int ps + int (j mod ps)"
      using page by (simp only: n_def)
  qed
  have h: "map ?h [0..<s - F] = map (\<lambda>j. pages ! (s div ps - c) * int ps + int j) [0..<s - F]"
  proof (cases "s = F")
    case False
    then have "n - 1 = s div ps - c" "0 < n" using n by simp_all
    then show ?thesis using lp by (simp only: n_def)
  qed simp
  have "extend_stages ps mx p s l off page lp out
      = take off out @ (map ?f [0..<C - p] @ map ?g [0..<F - C] @ map ?h [0..<s - F])
        @ drop (off + (s - p)) out"
    unfolding extend_stages_unfold [OF c_def [symmetric, THEN arg_cong [of _ _ "\<lambda>c. c * ps"],
        folded C_def] C F_def [symmetric] CF(1) Fs CF(2) mx]
    using store3 [of off "C - p" "F - C" "s - F" out ?f ?g ?h] out by (simp only: sum)
  also note g
  also note h
  also note extend_slots_parts(2) [OF ps le gt, folded c_def, folded C_def F_def, symmetric]
  finally show ?thesis .
qed

lemma alloc_extend_kernel_eq:
  fixes pre seq :: "nat list" and pid ps :: nat
  defines "off \<equiv> sum_list (map (\<lambda>i. seq ! i - pre ! i) [0..<pid])"
    and "pg \<equiv> sum_list (map (\<lambda>i. new_pages ps (pre ! i) (seq ! i)) [0..<pid])"
    and "n \<equiv> new_pages ps (pre ! pid) (seq ! pid)"
  assumes ps: "0 < ps" and pid: "pid < bu" and le: "pre ! pid \<le> seq ! pid"
    and out: "off + (seq ! pid - pre ! pid) \<le> length out"
    and fp: "pg + n \<le> length fp" and mx: "seq ! pid - pre ! pid \<le> mx"
  shows "alloc_extend_kernel u oob pre seq ll fp bu ps mx pid out
    = take off out @ extend_slots ps (pre ! pid) (seq ! pid) (ll ! pid) (take n (drop pg fp))
      @ drop (off + (seq ! pid - pre ! pid)) out"
proof -
  let ?c = "ceil_div (pre ! pid) ps" and ?pages = "take n (drop pg fp)"
  have K: "alloc_extend_kernel u oob pre seq ll fp bu ps mx pid out
      = extend_stages ps mx (pre ! pid) (seq ! pid) (ll ! pid) off
          (\<lambda>k. load_page oob fp (pg + k)) (load_page oob fp (pg + n - 1)) out"
    unfolding off_def pg_def n_def by (rule alloc_extend_kernel_stages [OF pid])
  have page: "load_page oob fp (pg + k) = ?pages ! k" if "k < n" for k
    using load_page_in [OF fp that] .
  have lp: "load_page oob fp (pg + n - 1) = ?pages ! (n - 1)" if "0 < n"
    using page [of "n - 1"] that by simp
  show ?thesis
  proof (cases "seq ! pid \<le> ?c * ps")
    case True
    show ?thesis unfolding K by (rule extend_stages_short [OF ps le True out])
  next
    case False
    then have "?c * ps < seq ! pid" by simp
    then show ?thesis unfolding K
      by (rule extend_stages_pages [OF ps le _ out mx page [unfolded n_def] lp [unfolded n_def],
          folded n_def])
  qed
qed

lemma sum_list_map2_upt:
  "length xs = length ys \<Longrightarrow>
   sum_list (map2 f xs ys) = sum_list (map (\<lambda>i. f (xs ! i) (ys ! i)) [0..<length xs])"
  by (rule arg_cong [where f = sum_list]) (auto intro: nth_equalityI)

lemma map_upt_Cons: "map f [0..<Suc n] = f 0 # map (\<lambda>i. f (Suc i)) [0..<n]"
  by (rule map_upt_Suc)

lemma batch_extend_slots_take:
  "sum_new_pages ps pre seq \<le> n \<Longrightarrow>
   batch_extend_slots ps pre seq ll (take n fp) = batch_extend_slots ps pre seq ll fp"
proof (induction ps pre seq ll fp arbitrary: n rule: batch_extend_slots.induct)
  case (1 ps p pre q seq l ll fp)
  let ?k = "new_pages ps p q"
  from 1(2) have k: "?k \<le> n" "sum_new_pages ps pre seq \<le> n - ?k"
    by (simp_all add: sum_new_pages_def)
  have "drop ?k (take n fp) = take (n - ?k) (drop ?k fp)" by (simp add: drop_take)
  with 1(1) [OF k(2)] k(1) show ?case by (simp add: min_absorb1)
qed (auto)

lemma concat_segments:
  assumes "length seq = length pre" and "length ll = length pre"
  shows "concat (map (\<lambda>i. extend_slots ps (pre ! i) (seq ! i) (ll ! i)
      (take (new_pages ps (pre ! i) (seq ! i))
        (drop (sum_list (map (\<lambda>i. new_pages ps (pre ! i) (seq ! i)) [0..<i])) fp)))
      [0..<length pre]) = batch_extend_slots ps pre seq ll fp"
  using assms
proof (induction ps pre seq ll fp rule: batch_extend_slots.induct)
  case (1 ps p pre q seq l ll fp)
  then show ?case by (simp add: map_upt_Cons add.commute [of "new_pages ps p q"] del: upt_Suc)
qed auto

lemma extend_launch:
  fixes pre seq :: "nat list" and ps :: nat
  defines "seg \<equiv> \<lambda>fp ll i. extend_slots ps (pre ! i) (seq ! i) (ll ! i)
      (take (new_pages ps (pre ! i) (seq ! i))
        (drop (sum_list (map (\<lambda>i. new_pages ps (pre ! i) (seq ! i)) [0..<i])) fp))"
  assumes ps: "0 < ps" and k: "k \<le> bs" "bs \<le> bu" and le: "\<forall>i < bs. pre ! i \<le> seq ! i"
    and out: "sum_list (map (\<lambda>i. seq ! i - pre ! i) [0..<bs]) \<le> length out"
    and fp: "sum_list (map (\<lambda>i. new_pages ps (pre ! i) (seq ! i)) [0..<bs]) \<le> length fp"
    and mx: "\<forall>i < bs. seq ! i - pre ! i \<le> mx"
  shows "fold (alloc_extend_kernel u oob pre seq ll fp bu ps mx) [0..<k] out
    = concat (map (seg fp ll) [0..<k]) @ drop (sum_list (map (\<lambda>i. seq ! i - pre ! i) [0..<k])) out"
  using k(1)
proof (induction k)
  case 0
  then show ?case by simp
next
  case (Suc k)
  let ?S = "\<lambda>k. sum_list (map (\<lambda>i. seq ! i - pre ! i) [0..<k])"
  let ?P = "\<lambda>k. sum_list (map (\<lambda>i. new_pages ps (pre ! i) (seq ! i)) [0..<k])"
  have mono: "sum_list (map f [0..<Suc k]) \<le> sum_list (map f [0..<bs])" for f :: "nat \<Rightarrow> nat"
    using Suc.prems upt_split [of 0 "Suc k" bs] by simp
  let ?o = "concat (map (seg fp ll) [0..<k]) @ drop (?S k) out"
  have lc: "length (concat (map (seg fp ll) [0..<k])) = ?S k"
    by (simp add: length_concat seg_def comp_def)
  have S1: "?S k + (seq ! k - pre ! k) \<le> length out"
    using mono [of "\<lambda>i. seq ! i - pre ! i"] out by simp
  then have S2: "?S k + (seq ! k - pre ! k) \<le> length ?o" using lc by simp
  have P1: "?P k + new_pages ps (pre ! k) (seq ! k) \<le> length fp"
    using mono [of "\<lambda>i. new_pages ps (pre ! i) (seq ! i)"] fp by simp
  have "fold (alloc_extend_kernel u oob pre seq ll fp bu ps mx) [0..<Suc k] out
      = alloc_extend_kernel u oob pre seq ll fp bu ps mx k ?o"
    using Suc by simp
  also have "\<dots> = take (?S k) ?o @ seg fp ll k @ drop (?S k + (seq ! k - pre ! k)) ?o"
    unfolding seg_def
    by (rule alloc_extend_kernel_eq [OF ps _ _ S2 [unfolded seg_def] P1])
      (use Suc.prems k le mx in auto)
  also have "\<dots> = concat (map (seg fp ll) [0..<Suc k]) @ drop (?S (Suc k)) out"
    using lc by (simp add: add.commute)
  finally show ?case .
qed

lemma new_pages_le:
  assumes "0 < ps" and "p \<le> q"
  shows "new_pages ps p q \<le> (q - p) div ps + 1"
proof -
  have "q + ps - 1 \<le> (p + ps - 1) + ((q - p) div ps + 1) * ps"
  proof -
    have "q - p < ((q - p) div ps + 1) * ps"
    proof -
      have "q - p = (q - p) div ps * ps + (q - p) mod ps" by simp
      moreover have "(q - p) mod ps < ps" using assms(1) by simp
      moreover have "((q - p) div ps + 1) * ps = (q - p) div ps * ps + ps" by simp
      ultimately show ?thesis by linarith
    qed
    then show ?thesis using assms by linarith
  qed
  then have "(q + ps - 1) div ps \<le> ((p + ps - 1) + ((q - p) div ps + 1) * ps) div ps"
    by (rule div_le_mono)
  also have "\<dots> = ((q - p) div ps + 1) + (p + ps - 1) div ps"
    by (rule div_mult_self1) (use assms(1) in simp)
  finally show ?thesis by (simp add: new_pages_def ceil_div_def)
qed

lemma sum_new_pages_le:
  assumes "0 < ps" and "length pre = length seq" and "list_all2 (\<le>) pre seq"
  shows "sum_new_pages ps pre seq \<le> sum_list (map2 (\<lambda>p q. q - p) pre seq) div ps + length pre"
  using assms(2,3)
proof (induction pre seq rule: list_induct2)
  case Nil
  then show ?case by (simp add: sum_new_pages_def)
next
  case (Cons p pre q seq)
  then have "new_pages ps p q \<le> (q - p) div ps + 1"
    using new_pages_le [OF assms(1)] by simp
  moreover have "(q - p) div ps + sum_list (map2 (\<lambda>p q. q - p) pre seq) div ps
      \<le> ((q - p) + sum_list (map2 (\<lambda>p q. q - p) pre seq)) div ps"
    by (subst div_add1_eq) simp
  ultimately show ?case using Cons by (simp add: sum_new_pages_def)
qed

lemma batch_decode_slots_take:
  "length (filter (\<lambda>q. q mod ps = 1) seq) \<le> n \<Longrightarrow>
   batch_decode_slots ps seq ll (take n fp) = batch_decode_slots ps seq ll fp"
proof (induction ps seq ll fp arbitrary: n rule: batch_decode_slots.induct)
  case (1 ps q seq l ll fp)
  show ?case
  proof (cases "q mod ps = 1")
    case True
    with 1(3) obtain m where n: "n = Suc m" by (cases n) auto
    have tl: "tl (take n fp) = take m (tl fp)" by (cases fp) (simp_all add: n)
    have hd: "hd (take n fp) = hd fp" by (cases fp) (simp_all add: n)
    from 1(1) [OF True, of m] 1(3) True n tl hd show ?thesis by simp
  next
    case False
    with 1(2) [OF False, of n] 1(3) show ?thesis by simp
  qed
qed auto

lemma mod_one_iff: "1 < ps \<Longrightarrow> 0 < q \<Longrightarrow> q mod ps = 1 \<longleftrightarrow> (q - 1) mod ps = (0::nat)"
proof -
  assume ps: "1 < ps" and q: "0 < q"
  have "q mod ps = ((q - 1) mod ps + 1) mod ps" using q by (simp add: mod_Suc_eq)
  moreover have "(q - 1) mod ps < ps" using ps by simp
  moreover define r where "r = (q - 1) mod ps"
  ultimately have "q mod ps = (if r + 1 = ps then 0 else r + 1)" by simp
  then show ?thesis using ps unfolding r_def [symmetric] by auto
qed

lemma new_pages_decode:
  assumes "1 < ps" and "0 < q"
  shows "new_pages ps (q - 1) q = (if q mod ps = 1 then 1 else 0)"
proof -
  have "q + ps - 1 = (q - 1) + ps" using assms by simp
  then have a: "ceil_div q ps = (q - 1) div ps + 1"
    unfolding ceil_div_def by (simp only:) (use assms in \<open>simp only: div_add_self2\<close>)
  show ?thesis
    unfolding new_pages_def a mod_one_iff [OF assms] using assms
    by (subst ceil_div_cases) simp_all
qed

lemma decode_kernel_eq:
  fixes seq :: "nat list" and pid ps :: nat
  defines "pg \<equiv> length (filter (\<lambda>q. q mod ps = 1) (take pid seq))"
  assumes ps: "1 < ps" and pid: "pid < bu" "pid < length seq" and pos: "\<forall>q \<in> set seq. 0 < q"
    and fp: "seq ! pid mod ps = 1 \<longrightarrow> pg < length fp"
  shows "alloc_decode_kernel u oob seq ll fp bu ps pid out
    = out[pid := if seq ! pid mod ps = 1 then fp ! pg * int ps else ll ! pid + 1]"
proof -
  let ?np = "\<lambda>q. new_pages ps (q - 1) q"
  have np: "?np q = (if q mod ps = 1 then 1 else 0)" if "q \<in> set seq" for q
    using new_pages_decode [OF ps] pos that by simp
  define f where "f = (\<lambda>i. (lane u pid seq i + ps - 1) div ps -
      ((if i \<le> pid then lane u pid seq i - 1 else lane u pid seq i) + ps - 1) div ps)"
  have sum: "sum_list (map f [0..<bu]) = pg + ?np (seq ! pid)"
  proof -
    have split: "[0..<bu] = [0..<Suc pid] @ [Suc pid..<bu]"
      using pid by (simp only: upt_split)
    have z: "map f [Suc pid..<bu] = map (\<lambda>i. 0) [Suc pid..<bu]"
      by (rule map_cong) (auto simp: f_def lane_def)
    have y: "map f [0..<Suc pid] = map (\<lambda>i. ?np (seq ! i)) [0..<Suc pid]"
      by (rule map_cong) (auto simp: f_def lane_def new_pages_def ceil_div_def)
    have t: "map (\<lambda>i. ?np (seq ! i)) [0..<pid] = map ?np (take pid seq)"
      using pid by (intro nth_equalityI) auto
    have "sum_list (map ?np xs) = length (filter (\<lambda>q. q mod ps = 1) xs)"
      if "set xs \<subseteq> set seq" for xs
      using that by (induction xs) (auto simp: np [unfolded One_nat_def])
    then have "sum_list (map ?np (take pid seq)) = pg"
      unfolding pg_def by (meson set_take_subset)
    then show ?thesis
      unfolding split map_append sum_list_append z y by (simp add: t [unfolded One_nat_def])
  qed
  have self: "(seq ! pid + ps - 1) div ps - (seq ! pid - 1 + ps - 1) div ps = ?np (seq ! pid)"
    by (simp add: new_pages_def ceil_div_def)
  have "alloc_decode_kernel u oob seq ll fp bu ps pid out
      = (if ?np (seq ! pid) = 0 then out[pid := ll ! pid + 1]
         else out[pid := load_page oob fp (sum_list (map f [0..<bu]) - ?np (seq ! pid)) * int ps])"
    unfolding alloc_decode_kernel_def Let_def self f_def by (rule refl)
  also have "\<dots> = out[pid := if seq ! pid mod ps = 1 then fp ! pg * int ps else ll ! pid + 1]"
    unfolding sum using np [of "seq ! pid"] pid fp by (auto simp: load_page_def)
  finally show ?thesis .
qed

lemma decode_launch:
  fixes seq :: "nat list" and ps :: nat
  assumes ps: "1 < ps" and k: "k \<le> length seq" "length seq \<le> bu" and pos: "\<forall>q \<in> set seq. 0 < q"
    and fp: "length (filter (\<lambda>q. q mod ps = 1) seq) \<le> length fp"
    and out: "length out = length seq"
  shows "fold (alloc_decode_kernel u oob seq ll fp bu ps) [0..<k] out
    = map (\<lambda>i. if seq ! i mod ps = 1
               then fp ! length (filter (\<lambda>q. q mod ps = 1) (take i seq)) * int ps
               else ll ! i + 1) [0..<k] @ drop k out"
  using k(1)
proof (induction k)
  case 0
  then show ?case by simp
next
  case (Suc k)
  have "length (filter (\<lambda>q. q mod ps = 1) (take k seq)) < length fp" if "seq ! k mod ps = 1"
  proof -
    have "filter (\<lambda>q. q mod ps = 1) seq
        = filter (\<lambda>q. q mod ps = 1) (take k seq @ seq ! k # drop (Suc k) seq)"
      using Suc.prems by (simp only: id_take_nth_drop [symmetric])
    also have "length \<dots> > length (filter (\<lambda>q. q mod ps = 1) (take k seq))"
      using that by simp
    finally show ?thesis using fp by linarith
  qed
  then have "alloc_decode_kernel u oob seq ll fp bu ps k o'
      = o'[k := if seq ! k mod ps = 1
                then fp ! length (filter (\<lambda>q. q mod ps = 1) (take k seq)) * int ps
                else ll ! k + 1]" for o'
    using Suc.prems k by (intro decode_kernel_eq [OF ps _ _ pos]) auto
  with Suc out show ?case
    by (simp add: list_update_append Cons_nth_drop_Suc [symmetric])
qed

lemma decode_segments:
  assumes "length ll = length seq" and "length (filter (\<lambda>q. q mod ps = 1) seq) \<le> length fp"
  shows "map (\<lambda>i. if seq ! i mod ps = 1
               then fp ! length (filter (\<lambda>q. q mod ps = 1) (take i seq)) * int ps
               else ll ! i + 1) [0..<length seq] = batch_decode_slots ps seq ll fp"
  using assms
proof (induction ps seq ll fp rule: batch_decode_slots.induct)
  case (1 ps q seq l ll fp)
  show ?case
  proof (cases "q mod ps = 1")
    case True
    with 1 obtain f0 fp' where fp: "fp = f0 # fp'" by (cases fp) auto
    from 1(1) True 1(3,4) fp show ?thesis
      by (simp add: map_upt_Cons del: upt_Suc One_nat_def cong: if_cong)
  next
    case False
    with 1 show ?thesis
      by (simp add: map_upt_Cons del: upt_Suc One_nat_def cong: if_cong)
  qed
qed auto

lemma map2_swap_diff: "map2 (\<lambda>s p. f p s) ys xs = map2 f xs ys"
  by (induction ys xs rule: list_induct2') auto

lemma get_num_new_pages_extend:
  "get_num_new_pages seq ps (Some pre) False = Inr (sum_new_pages ps pre seq)"
proof -
  have "map2 (\<lambda>s p. (s + ps - 1) div ps - (p + ps - 1) div ps) seq pre = map2 (new_pages ps) pre seq"
    unfolding new_pages_def ceil_div_def by (rule map2_swap_diff)
  then show ?thesis by (simp only: get_num_new_pages_def sum_new_pages_def) simp
qed

lemma extend_slot_pos:
  fixes pages :: "int list"
  assumes ps: "0 < ps" and j: "pre \<le> j" and al: "(l + 1) mod int ps = int (pre mod ps)"
  defines "x \<equiv> (if j < ceil_div pre ps * ps then l + 1 + int (j - pre)
              else pages ! (j div ps - ceil_div pre ps) * int ps + int (j mod ps))"
  shows "x mod int ps = int (j mod ps)"
    and "x div int ps = (if j < ceil_div pre ps * ps then l div int ps
                         else pages ! (j div ps - ceil_div pre ps))"
    and "j < ceil_div pre ps * ps \<Longrightarrow> pre mod ps \<noteq> 0 \<and> j div ps = pre div ps"
proof -
  let ?c = "ceil_div pre ps"
  have inpage: "pre mod ps \<noteq> 0 \<and> j div ps = pre div ps" if lt: "j < ?c * ps"
  proof -
    have "pre mod ps \<noteq> 0"
    proof
      assume "pre mod ps = 0"
      then have "?c * ps = pre" using ps by (simp add: ceil_div_exact dvd_eq_mod_eq_0)
      with lt j show False by simp
    qed
    then have "?c = pre div ps + 1" by (simp add: ceil_div_cases [OF ps])
    with lt have "j div ps < pre div ps + 1" using ps by (simp add: less_mult_imp_div_less)
    moreover have "pre div ps \<le> j div ps" using j by (rule div_le_mono)
    ultimately show ?thesis using \<open>pre mod ps \<noteq> 0\<close> by simp
  qed
  then show "j < ?c * ps \<Longrightarrow> pre mod ps \<noteq> 0 \<and> j div ps = pre div ps" .
  have A: "x mod int ps = int (j mod ps) \<and> x div int ps = l div int ps" if lt: "j < ?c * ps"
  proof -
    from inpage [OF lt] have nz: "pre mod ps \<noteq> 0" and d: "j div ps = pre div ps" by auto
    have jp: "j - pre = j mod ps - pre mod ps" and le: "pre mod ps \<le> j mod ps"
    proof -
      have "j = pre div ps * ps + j mod ps" using d by (metis div_mult_mod_eq)
      moreover have "pre = pre div ps * ps + pre mod ps" by simp
      ultimately show "j - pre = j mod ps - pre mod ps" "pre mod ps \<le> j mod ps" using j by linarith+
    qed
    have lm: "l mod int ps = int (pre mod ps) - 1"
    proof -
      have "l mod int ps = ((l + 1) mod int ps - 1) mod int ps" by (simp add: mod_diff_left_eq)
      also have "\<dots> = (int (pre mod ps) - 1) mod int ps" using al by simp
      also have "\<dots> = int (pre mod ps) - 1"
      proof (rule mod_pos_pos_trivial)
        show "0 \<le> int (pre mod ps) - 1" using nz by linarith
        show "int (pre mod ps) - 1 < int ps" using mod_less_divisor [OF ps, of pre] by linarith
      qed
      finally show ?thesis .
    qed
    have x: "x = l div int ps * int ps + int (j mod ps)"
    proof -
      have "x = l + 1 + int (j mod ps) - int (pre mod ps)" using lt jp le by (simp add: x_def)
      moreover have "l = l div int ps * int ps + l mod int ps" by simp
      ultimately show ?thesis using lm by linarith
    qed
    show ?thesis unfolding x using ps by (simp add: of_nat_mod [symmetric])
  qed
  have B: "x mod int ps = int (j mod ps) \<and> x div int ps = pages ! (j div ps - ?c)"
    if "\<not> j < ?c * ps"
    using that ps by (simp add: x_def of_nat_mod [symmetric])
  from A B show "x mod int ps = int (j mod ps)"
    and "x div int ps = (if j < ?c * ps then l div int ps else pages ! (j div ps - ?c))" by auto
qed

lemma extend_page_index:
  assumes ps: "0 < ps" and "ceil_div pre ps * ps \<le> j" and "j < seq"
  shows "j div ps - ceil_div pre ps < new_pages ps pre seq"
proof -
  have "ceil_div pre ps \<le> j div ps" using assms by (simp add: less_eq_div_iff_mult_less_eq)
  moreover have "j div ps < ceil_div seq ps"
    using ceil_div_mult_ge [OF ps, of seq] assms(3) by (intro less_mult_imp_div_less) simp
  ultimately show ?thesis by (simp add: new_pages_def)
qed

lemma extend_slots_pages:
  assumes ps: "0 < ps" and al: "(l + 1) mod int ps = int (pre mod ps)"
    and len: "length pages = new_pages ps pre seq"
  shows "(\<lambda>x. x div int ps) ` set (extend_slots ps pre seq l pages) \<subseteq> open_page ps pre l \<union> set pages"
proof
  fix q assume "q \<in> (\<lambda>x. x div int ps) ` set (extend_slots ps pre seq l pages)"
  then obtain j where j: "pre \<le> j" "j < seq" and q: "q = (if j < ceil_div pre ps * ps
      then l + 1 + int (j - pre)
      else pages ! (j div ps - ceil_div pre ps) * int ps + int (j mod ps)) div int ps"
    by (auto simp: extend_slots_def)
  from q extend_slot_pos(2) [OF ps j(1) al]
  have q': "q = (if j < ceil_div pre ps * ps then l div int ps
                 else pages ! (j div ps - ceil_div pre ps))" by simp
  show "q \<in> open_page ps pre l \<union> set pages"
  proof (cases "j < ceil_div pre ps * ps")
    case True
    with q' extend_slot_pos(3) [OF ps j(1) al] show ?thesis by (simp add: open_page_def)
  next
    case False
    with extend_page_index [OF ps _ j(2), of pre] len q' show ?thesis by simp
  qed
qed

lemma extend_slots_distinct:
  assumes ps: "0 < ps" and al: "(l + 1) mod int ps = int (pre mod ps)"
    and len: "length pages = new_pages ps pre seq" and dist: "distinct pages"
    and fresh: "open_page ps pre l \<inter> set pages = {}"
  shows "distinct (extend_slots ps pre seq l pages)"
  unfolding extend_slots_def distinct_map
proof (intro conjI inj_onI)
  let ?c = "ceil_div pre ps"
  let ?x = "\<lambda>j. if j < ?c * ps then l + 1 + int (j - pre)
              else pages ! (j div ps - ?c) * int ps + int (j mod ps)"
  fix i j assume "i \<in> set [pre..<seq]" and "j \<in> set [pre..<seq]" and eq: "?x i = ?x j"
  then have i: "pre \<le> i" "i < seq" and j: "pre \<le> j" "j < seq" by auto
  note I = extend_slot_pos(1,2) [OF ps i(1) al, of pages] extend_slot_pos(3) [OF ps i(1) al]
    and J = extend_slot_pos(1,2) [OF ps j(1) al, of pages] extend_slot_pos(3) [OF ps j(1) al]
  have m: "i mod ps = j mod ps" using I(1) J(1) eq by simp
  have d: "(if i < ?c * ps then l div int ps else pages ! (i div ps - ?c))
         = (if j < ?c * ps then l div int ps else pages ! (j div ps - ?c))"
    using I(2) J(2) eq by simp
  have mem: "pages ! (k div ps - ?c) \<in> set pages" "k div ps - ?c < length pages" "?c \<le> k div ps"
    if "\<not> k < ?c * ps" "k < seq" for k
    using extend_page_index [OF ps _ that(2), of pre] that len ps
    by (simp_all add: less_eq_div_iff_mult_less_eq)
  have "i div ps = j div ps"
  proof (cases "i < ?c * ps")
    case ic: True
    show ?thesis
    proof (cases "j < ?c * ps")
      case True
      with ic I(3) J(3) show ?thesis by simp
    next
      case False
      with ic d mem(1) [OF False j(2)] I(3) fresh show ?thesis by (simp add: open_page_def)
    qed
  next
    case ic: False
    show ?thesis
    proof (cases "j < ?c * ps")
      case True
      with ic d mem(1) [OF ic i(2)] J(3) fresh show ?thesis by (simp add: open_page_def)
    next
      case False
      with ic d mem(2) [OF ic i(2)] mem(2) [OF False j(2)] dist
      have "i div ps - ?c = j div ps - ?c" by (simp add: nth_eq_iff_index_eq)
      with mem(3) [OF ic i(2)] mem(3) [OF False j(2)] show ?thesis by simp
    qed
  qed
  with m show "i = j" by (metis div_mult_mod_eq)
qed simp

lemma batch_extend_slots_distinct:
  assumes "0 < ps" and "list_all2 (\<lambda>l p. (l + 1) mod int ps = int (p mod ps)) ll pre"
    and "length seq = length pre" and "length pages = sum_new_pages ps pre seq"
    and "distinct (open_pages ps pre ll @ pages)"
  shows "distinct (batch_extend_slots ps pre seq ll pages)
    \<and> (\<lambda>x. x div int ps) ` set (batch_extend_slots ps pre seq ll pages)
        \<subseteq> set (open_pages ps pre ll) \<union> set pages"
  using assms
proof (induction ps pre seq ll pages rule: batch_extend_slots.induct)
  case (1 ps p pre q seq l ll pages)
  let ?k = "new_pages ps p q"
  let ?h = "extend_slots ps p q l (take ?k pages)"
  let ?t = "batch_extend_slots ps pre seq ll (drop ?k pages)"
  have al: "(l + 1) mod int ps = int (p mod ps)" using 1(3) by simp
  have kl: "?k + sum_new_pages ps pre seq = length pages" using 1(5) by (simp add: sum_new_pages_def)
  then have lk: "length (take ?k pages) = ?k" by simp
  have dd: "distinct (take ?k pages @ drop ?k pages)" using 1(6) by simp
  have op: "set (open_pages ps (p # pre) (l # ll)) = open_page ps p l \<union> set (open_pages ps pre ll)"
    by (simp add: open_page_def)
  have opd: "open_page ps p l \<inter> set (open_pages ps pre ll) = {}"
    using 1(6) by (auto simp: open_page_def split: if_splits)
  have opp: "open_page ps p l \<inter> set pages = {}" "set (open_pages ps pre ll) \<inter> set pages = {}"
    "distinct (open_pages ps pre ll)"
    using 1(6) by (auto simp: open_page_def split: if_splits)
  have sub: "set (take ?k pages) \<subseteq> set pages" "set (drop ?k pages) \<subseteq> set pages"
    by (simp_all add: set_take_subset set_drop_subset)
  have dis: "set (take ?k pages) \<inter> set (drop ?k pages) = {}" and dk: "distinct (drop ?k pages)"
    "distinct (take ?k pages)"
    using dd by (simp_all add: set_take_disj_set_drop_if_distinct)
  have IH: "distinct ?t \<and> (\<lambda>x. x div int ps) ` set ?t \<subseteq> set (open_pages ps pre ll) \<union> set (drop ?k pages)"
  proof (rule 1(1))
    show "distinct (open_pages ps pre ll @ drop ?k pages)" using opp sub dk by auto
  qed (use 1 kl in auto)
  have H: "distinct ?h"
    by (rule extend_slots_distinct [OF 1(2) al lk dk(2)]) (use opp(1) sub in auto)
  have Hp: "(\<lambda>x. x div int ps) ` set ?h \<subseteq> open_page ps p l \<union> set (take ?k pages)"
    by (rule extend_slots_pages [OF 1(2) al lk])
  have "(open_page ps p l \<union> set (take ?k pages)) \<inter> (set (open_pages ps pre ll) \<union> set (drop ?k pages)) = {}"
    using opd opp sub dis by auto
  with Hp IH have "set ?h \<inter> set ?t = {}" by blast
  with H IH have "distinct (?h @ ?t)" by simp
  moreover have "(\<lambda>x. x div int ps) ` set (?h @ ?t) \<subseteq> set (open_pages ps (p # pre) (l # ll)) \<union> set pages"
    unfolding op using Hp IH sub by auto
  ultimately show ?case by simp
qed auto

lemma torch_unique_length: "length (torch_unique xs) = length xs \<longleftrightarrow> distinct xs"
  by (metis card_distinct distinct_card distinct_torch_unique set_torch_unique)

lemma extend_launch_batch:
  assumes ps: "0 < ps" and le: "list_all2 (\<le>) pre seq" and ll: "length ll = length pre"
    and ext: "ext = sum_list (map2 (\<lambda>p q. q - p) pre seq)" and mx: "ext \<le> mx"
    and n: "sum_new_pages ps pre seq \<le> length fp"
  shows "fold (alloc_extend_kernel u oob pre seq ll fp (next_power_of_2 (length pre)) ps mx)
      [0..<length pre] (map uninit [0..<ext])
    = batch_extend_slots ps pre seq ll (take (sum_new_pages ps pre seq) fp)"
proof -
  have len: "length seq = length pre" using le by (simp add: list_all2_lengthD)
  have sumS: "sum_list (map (\<lambda>i. seq ! i - pre ! i) [0..<length pre]) = ext"
    unfolding ext by (subst sum_list_map2_upt) (simp_all add: len)
  have sumP: "sum_list (map (\<lambda>i. new_pages ps (pre ! i) (seq ! i)) [0..<length pre])
      = sum_new_pages ps pre seq"
    unfolding sum_new_pages_def by (subst sum_list_map2_upt) (simp_all add: len)
  have each: "seq ! i - pre ! i \<le> ext" if "i < length pre" for i
    unfolding sumS [symmetric] by (rule member_le_sum_list) (use that in auto)
  have "fold (alloc_extend_kernel u oob pre seq ll fp (next_power_of_2 (length pre)) ps mx)
      [0..<length pre] (map uninit [0..<ext])
    = concat (map (\<lambda>i. extend_slots ps (pre ! i) (seq ! i) (ll ! i)
      (take (new_pages ps (pre ! i) (seq ! i))
        (drop (sum_list (map (\<lambda>i. new_pages ps (pre ! i) (seq ! i)) [0..<i])) fp)))
      [0..<length pre])"
    by (subst extend_launch [OF ps, of "length pre" "length pre"])
      (use le_next_power_of_2 le len mx each n sumS sumP in
        \<open>auto simp: list_all2_conv_all_nth intro: order_trans\<close>)
  also have "\<dots> = batch_extend_slots ps pre seq ll fp" using concat_segments [OF len ll] by simp
  also have "\<dots> = batch_extend_slots ps pre seq ll (take (sum_new_pages ps pre seq) fp)"
    by (rule batch_extend_slots_take [symmetric]) simp
  finally show ?thesis .
qed

lemma decode_launch_batch:
  assumes ps: "1 < ps" and pos: "\<forall>q \<in> set seq. 0 < q" and ll: "length ll = length seq"
    and n: "n = length (filter (\<lambda>q. q mod ps = 1) seq)" "n \<le> length fp"
  shows "fold (alloc_decode_kernel u oob seq ll fp (next_power_of_2 (length seq)) ps)
      [0..<length seq] (map uninit [0..<length seq])
    = batch_decode_slots ps seq ll (take n fp)"
proof -
  note fp = n(2) [unfolded n(1)]
  have "fold (alloc_decode_kernel u oob seq ll fp (next_power_of_2 (length seq)) ps)
      [0..<length seq] (map uninit [0..<length seq]) = batch_decode_slots ps seq ll fp"
  proof (subst decode_launch)
    show "length (filter (\<lambda>q. q mod ps = 1) seq) \<le> length fp" by (rule fp)
    from decode_segments [OF ll this]
    show "map (\<lambda>i. if seq ! i mod ps = 1
        then fp ! length (filter (\<lambda>q. q mod ps = 1) (take i seq)) * int ps
        else ll ! i + 1) [0..<length seq] @ drop (length seq) (map uninit [0..<length seq])
      = batch_decode_slots ps seq ll fp" by simp
  qed (use ps pos le_next_power_of_2 in auto)
  then show ?thesis using batch_decode_slots_take [of ps seq n ll fp] by (simp add: n(1))
qed

lemma extend_slots_one:
  assumes "1 < ps" and "0 < q"
  shows "extend_slots ps (q - 1) q l pages = [if q mod ps = 1 then pages ! 0 * int ps else l + 1]"
proof -
  have u: "[q - 1..<q] = [q - 1]" using assms(2) by (cases q) simp_all
  have c: "ceil_div (q - 1) ps = (q - 1) div ps + (if q mod ps = 1 then 0 else 1)"
    using ceil_div_cases [of ps "q - 1"] mod_one_iff [OF assms] assms(1) by simp
  show ?thesis
  proof (cases "q mod ps = 1")
    case True
    then have "(q - 1) mod ps = 0" using mod_one_iff [OF assms] by simp
    moreover have "\<not> q - 1 < (q - 1) div ps * ps" by (simp add: not_less)
    ultimately show ?thesis using True by (simp add: extend_slots_def u c del: One_nat_def)
  next
    case False
    have "q - 1 < ((q - 1) div ps + 1) * ps"
      using assms(1) by (metis add.commute dividend_less_div_times less_trans mult.commute mult_Suc_right
          plus_1_eq_Suc zero_less_one)
    then show ?thesis using False by (simp add: extend_slots_def u c del: One_nat_def)
  qed
qed

text \<open>Decoding is extending every request by one token.\<close>

lemma batch_decode_as_extend:
  assumes "1 < ps" and "\<forall>q \<in> set seq. 0 < q" and "length ll = length seq"
    and "length (filter (\<lambda>q. q mod ps = 1) seq) \<le> length pages"
  shows "batch_decode_slots ps seq ll pages = batch_extend_slots ps (map (\<lambda>q. q - 1) seq) seq ll pages"
  using assms
proof (induction ps seq ll pages rule: batch_decode_slots.induct)
  case (1 ps q seq l ll pages)
  have q: "0 < q" using "1.prems"(2) by simp
  note np = new_pages_decode [OF "1.prems"(1) q] and one = extend_slots_one [OF "1.prems"(1) q]
  show ?case
  proof (cases "q mod ps = 1")
    case True
    with "1.prems"(4) obtain p ps' where "pages = p # ps'" by (cases pages) auto
    with True "1.prems" "1.IH"(1) show ?thesis by (simp add: np one del: One_nat_def) simp
  next
    case False
    with "1.prems" "1.IH"(2) show ?thesis by (simp add: np one del: One_nat_def)
  qed
qed auto

end
