(* ===== verification/Paged_Allocator.thy ===== *)
theory Paged_Allocator
  imports Paged_Kernels
begin

text \<open>
  \<open>PagedTokenToKVPoolAllocator\<close> of \<^verbatim>\<open>mem_cache/allocator.py\<close>: whole pages of slots are handed
  out and taken back. The arguments \<open>u\<close>, \<open>oob\<close> and \<open>uninit\<close> are those of the kernels
  (\<^verbatim>\<open>Paged_Kernels\<close>). The allocator is an instance of the pool contract \<open>kv_pool\<close>.
\<close>

section \<open>The paged allocator\<close>

record paged_alloc = kv_alloc +
  num_pages :: nat
  debug_mode :: bool
  seen_max_num_extend_tokens_next_power_of_2 :: nat

definition paged_clear :: "paged_alloc \<Rightarrow> paged_alloc" where
  "paged_clear s = s\<lparr>free_pages := map int [1..<Suc (num_pages s)],
     is_not_in_free_group := True, free_group := [], release_pages := []\<rparr>"

definition paged_init :: "nat \<Rightarrow> nat \<Rightarrow> bool \<Rightarrow> bool \<Rightarrow> paged_alloc" where
  "paged_init sz ps need_sort debug = paged_clear
     \<lparr>kv_size = sz, kv_page_size = ps, kv_need_sort = need_sort, free_pages = [],
      release_pages = [], is_not_in_free_group = True, free_group = [],
      num_pages = sz div ps, debug_mode = debug,
      seen_max_num_extend_tokens_next_power_of_2 = 1\<rparr>"

text \<open>The slots of one page, and of a sequence of pages in order.\<close>

definition page_slots :: "nat \<Rightarrow> int list \<Rightarrow> int list" where
  "page_slots ps pages = concat (map (\<lambda>p. map (\<lambda>j. p * int ps + int j) [0..<ps]) pages)"

definition paged_alloc_fn :: "paged_alloc \<Rightarrow> nat \<Rightarrow> (int list option \<times> paged_alloc) result" where
  "paged_alloc_fn s need_size =
     assert_r (debug_mode s \<longrightarrow> need_size mod kv_page_size s = 0)
     (let n = need_size div kv_page_size s;
          s1 = (if kv_need_sort s \<and> n > length (free_pages s) then merge_and_sort_free s else s)
      in if n > length (free_pages s1) then Inr (None, s1)
         else Inr (Some (page_slots (kv_page_size s) (take n (free_pages s1))),
                   s1\<lparr>free_pages := drop n (free_pages s1)\<rparr>))"

definition alloc_extend ::
    "nat \<Rightarrow> (nat \<Rightarrow> int) \<Rightarrow> (nat \<Rightarrow> int) \<Rightarrow> paged_alloc \<Rightarrow> nat list \<Rightarrow> nat list \<Rightarrow>
     int list \<Rightarrow> nat \<Rightarrow> (int list option \<times> paged_alloc) result" where
  "alloc_extend u oob uninit s prefix_lens seq_lens last_loc extend_num_tokens =
     (let ps = kv_page_size s in
      assert_r (debug_mode s \<longrightarrow>
        list_all2 (\<lambda>l p. (l + 1) mod int ps = int (p mod ps)) last_loc prefix_lens)
      (let s0 = s\<lparr>seen_max_num_extend_tokens_next_power_of_2 :=
             max (seen_max_num_extend_tokens_next_power_of_2 s)
                 (next_power_of_2 extend_num_tokens)\<rparr>;
           bs = length prefix_lens;
           s1 = (if kv_need_sort s0 \<and>
                    extend_num_tokens div ps + bs + 1 > length (free_pages s0)
                 then merge_and_sort_free s0 else s0);
           out_indices = fold (alloc_extend_kernel u oob prefix_lens seq_lens last_loc
               (free_pages s1) (next_power_of_2 bs) ps
               (seen_max_num_extend_tokens_next_power_of_2 s1))
             [0..<bs] (map uninit [0..<extend_num_tokens])
       in assert_r (debug_mode s1 \<longrightarrow>
            length (torch_unique out_indices) = length out_indices)
          (bind_r (get_num_new_pages seq_lens ps (Some prefix_lens) False) (\<lambda>num_new_pages.
             if num_new_pages > length (free_pages s1) then Inr (None, s1)
             else Inr (Some out_indices,
                       s1\<lparr>free_pages := drop num_new_pages (free_pages s1)\<rparr>)))))"

definition alloc_decode ::
    "nat \<Rightarrow> (nat \<Rightarrow> int) \<Rightarrow> (nat \<Rightarrow> int) \<Rightarrow> paged_alloc \<Rightarrow> nat list \<Rightarrow> int list \<Rightarrow>
     (int list option \<times> paged_alloc) result" where
  "alloc_decode u oob uninit s seq_lens last_loc =
     (let ps = kv_page_size s in
      assert_r (debug_mode s \<longrightarrow>
        list_all2 (\<lambda>l q. (l + 2) mod int ps = int (q mod ps)) last_loc seq_lens)
      (let bs = length seq_lens;
           s1 = (if kv_need_sort s \<and> bs > length (free_pages s)
                 then merge_and_sort_free s else s);
           out_indices = fold (alloc_decode_kernel u oob seq_lens last_loc
               (free_pages s1) (next_power_of_2 bs) ps)
             [0..<bs] (map uninit [0..<bs])
       in assert_r (debug_mode s1 \<longrightarrow>
            length (torch_unique out_indices) = length out_indices)
          (bind_r (get_num_new_pages seq_lens ps None True) (\<lambda>num_new_pages.
             if num_new_pages > length (free_pages s1) then Inr (None, s1)
             else Inr (Some out_indices,
                       s1\<lparr>free_pages := drop num_new_pages (free_pages s1)\<rparr>)))))"

definition paged_free :: "paged_alloc \<Rightarrow> int list \<Rightarrow> paged_alloc result" where
  "paged_free s free_index =
     (if length free_index = 0 then Inr s
      else let s1 =
        (if is_not_in_free_group s
         then let free_page_indices = torch_unique (map (\<lambda>i. i div int (kv_page_size s)) free_index)
              in if kv_need_sort s
                 then s\<lparr>release_pages := free_page_indices @ release_pages s\<rparr>
                 else s\<lparr>free_pages := free_page_indices @ free_pages s\<rparr>
         else s\<lparr>free_group := free_group s @ [free_index]\<rparr>)
        in assert_r (debug_mode s1 \<longrightarrow>
             length (torch_unique (free_pages s1)) = length (free_pages s1)) (Inr s1))"

definition paged_free_group_end :: "paged_alloc \<Rightarrow> paged_alloc result" where
  "paged_free_group_end s =
     (let s1 = s\<lparr>is_not_in_free_group := True\<rparr>
      in if free_group s1 \<noteq> [] then paged_free s1 (concat (free_group s1)) else Inr s1)"

section \<open>Invariants\<close>

text \<open>A small allocator with page 1 in use, for the concrete instances below.\<close>

definition demo_paged :: paged_alloc where
  "demo_paged = (paged_init 12 4 False True)\<lparr>free_pages := [2, 3]\<rparr>"

definition paged_wf :: "paged_alloc \<Rightarrow> bool" where
  "paged_wf s \<longleftrightarrow> 0 < kv_page_size s \<and> (\<not> kv_need_sort s \<longrightarrow> release_pages s = [])"

text \<open>A step of the allocator that removes exactly \<open>pages\<close> from the free pages.\<close>

definition takes_pages :: "paged_alloc \<Rightarrow> int list \<Rightarrow> paged_alloc \<Rightarrow> bool" where
  "takes_pages s pages s' \<longleftrightarrow> token_slots s = mset pages + token_slots s' \<and>
     kv_page_size s' = kv_page_size s \<and> kv_need_sort s' = kv_need_sort s \<and>
     debug_mode s' = debug_mode s \<and> is_not_in_free_group s' = is_not_in_free_group s"

text \<open>The state in which the extend kernel runs: the launch bound raised, released pages merged.\<close>

definition extend_prepared :: "paged_alloc \<Rightarrow> nat \<Rightarrow> nat \<Rightarrow> paged_alloc" where
  "extend_prepared s bs ext =
     (let s0 = s\<lparr>seen_max_num_extend_tokens_next_power_of_2 :=
             max (seen_max_num_extend_tokens_next_power_of_2 s) (next_power_of_2 ext)\<rparr>
      in if kv_need_sort s \<and> ext div kv_page_size s + bs + 1 > length (free_pages s)
         then merge_and_sort_free s0 else s0)"

definition paged_slots :: "paged_alloc \<Rightarrow> int multiset" where
  "paged_slots s = mset (page_slots (kv_page_size s) (free_pages s @ release_pages s))"

definition paged_invar :: "paged_alloc \<Rightarrow> bool" where
  "paged_invar s \<longleftrightarrow> paged_wf s \<and> is_not_in_free_group s \<and>
     distinct (free_pages s @ release_pages s)"

definition paged_freeable :: "paged_alloc \<Rightarrow> int list \<Rightarrow> bool" where
  "paged_freeable s xs \<longleftrightarrow> (\<exists>pages. distinct pages \<and>
     set pages \<inter> set (free_pages s @ release_pages s) = {} \<and>
     mset xs = mset (page_slots (kv_page_size s) pages))"

definition ok_or :: "'a \<Rightarrow> 'a result \<Rightarrow> 'a" where
  "ok_or d r = (case r of Inl _ \<Rightarrow> d | Inr v \<Rightarrow> v)"

lemma debug_mode_merge [simp]: "debug_mode (merge_and_sort_free s) = debug_mode s"
  by (simp add: merge_and_sort_free_def)

lemma takes_pages_merge:
  assumes "s1 = s \<or> s1 = merge_and_sort_free s" and "n \<le> length (free_pages s1)"
  shows "takes_pages s (take n (free_pages s1)) (s1\<lparr>free_pages := drop n (free_pages s1)\<rparr>)"
proof -
  have "token_slots s1 = token_slots s" using assms(1) by auto
  moreover have "token_slots s1 = mset (take n (free_pages s1))
      + token_slots (s1\<lparr>free_pages := drop n (free_pages s1)\<rparr>)"
    using take_drop_mset [of "free_pages s1" n] by (simp add: token_slots_def)
  moreover have "debug_mode (merge_and_sort_free s) = debug_mode s"
    by (simp add: merge_and_sort_free_def)
  ultimately show ?thesis using assms(1) by (auto simp: takes_pages_def)
qed

lemma extend_prepared_simps [simp]:
  "token_slots (extend_prepared s bs ext) = token_slots s"
  "debug_mode (extend_prepared s bs ext) = debug_mode s"
  "paged_wf (extend_prepared s bs ext) = paged_wf s"
  by (auto simp: extend_prepared_def Let_def token_slots_def merge_and_sort_free_def paged_wf_def)

lemma extend_prepared_max:
  "ext \<le> seen_max_num_extend_tokens_next_power_of_2 (extend_prepared s bs ext)"
  using le_next_power_of_2 [of ext]
  by (auto simp: extend_prepared_def Let_def merge_and_sort_free_def)

lemma extend_prepared_avail:
  assumes wf: "paged_wf s" and n: "n \<le> ext div kv_page_size s + bs"
  shows "n \<le> size (token_slots s) \<longleftrightarrow> n \<le> length (free_pages (extend_prepared s bs ext))"
  using wf n by (auto simp: extend_prepared_def Let_def token_slots_def paged_wf_def)

lemma extend_prepared_takes:
  assumes "n \<le> length (free_pages (extend_prepared s bs ext))"
  shows "takes_pages s (take n (free_pages (extend_prepared s bs ext)))
    ((extend_prepared s bs ext)\<lparr>free_pages := drop n (free_pages (extend_prepared s bs ext))\<rparr>)"
proof -
  let ?s0 = "s\<lparr>seen_max_num_extend_tokens_next_power_of_2 :=
             max (seen_max_num_extend_tokens_next_power_of_2 s) (next_power_of_2 ext)\<rparr>"
  have "takes_pages ?s0 (take n (free_pages (extend_prepared s bs ext)))
    ((extend_prepared s bs ext)\<lparr>free_pages := drop n (free_pages (extend_prepared s bs ext))\<rparr>)"
    using assms by (intro takes_pages_merge) (auto simp: extend_prepared_def Let_def)
  then show ?thesis by (simp add: takes_pages_def token_slots_def)
qed

lemma alloc_extend_unfold:
  fixes s :: paged_alloc and u ext :: nat and pre seq :: "nat list" and ll :: "int list"
    and oob uninit :: "nat \<Rightarrow> int"
  assumes dbg: "debug_mode s \<longrightarrow> list_all2 (\<lambda>l p. (l + 1) mod int (kv_page_size s)
            = int (p mod kv_page_size s)) ll pre"
  defines "s1 \<equiv> extend_prepared s (length pre) ext"
  defines "n \<equiv> sum_new_pages (kv_page_size s) pre seq"
  defines "out \<equiv> fold (alloc_extend_kernel u oob pre seq ll
               (free_pages s1) (next_power_of_2 (length pre)) (kv_page_size s)
               (seen_max_num_extend_tokens_next_power_of_2 s1))
             [0..<length pre] (map uninit [0..<ext])"
  shows "alloc_extend u oob uninit s pre seq ll ext =
      assert_r (debug_mode s \<longrightarrow> distinct out)
        (if n > length (free_pages s1) then Inr (None, s1)
         else Inr (Some out, s1\<lparr>free_pages := drop n (free_pages s1)\<rparr>))"
proof -
  let ?s0 = "s\<lparr>seen_max_num_extend_tokens_next_power_of_2 :=
             max (seen_max_num_extend_tokens_next_power_of_2 s) (next_power_of_2 ext)\<rparr>"
  have dbg': "(debug_mode s \<longrightarrow> list_all2 (\<lambda>l p. (l + 1) mod int (kv_page_size s)
      = int (p mod kv_page_size s)) ll pre) = True" using dbg by (rule eqTrueI)
  have s1: "(if kv_need_sort ?s0 \<and> ext div kv_page_size s + length pre + 1 > length (free_pages ?s0)
      then merge_and_sort_free ?s0 else ?s0) = s1"
    by (simp add: s1_def extend_prepared_def Let_def)
  have d: "debug_mode s1 = debug_mode s" by (simp add: s1_def)
  show ?thesis
    unfolding alloc_extend_def Let_def s1 dbg' get_num_new_pages_extend n_def [symmetric]
      out_def [symmetric] d torch_unique_length
    by (simp add: assert_r_def)
qed

lemma alloc_extend_cases:
  fixes s :: paged_alloc
  assumes wf: "paged_wf s" and le: "list_all2 (\<le>) pre seq" and ll: "length ll = length pre"
    and ext: "ext = sum_list (map2 (\<lambda>p q. q - p) pre seq)"
    and dbg: "debug_mode s \<Longrightarrow> list_all2 (\<lambda>l p. (l + 1) mod int (kv_page_size s)
            = int (p mod kv_page_size s)) ll pre"
  defines "ps \<equiv> kv_page_size s"
  shows "sum_new_pages ps pre seq \<le> size (token_slots s) \<Longrightarrow>
      \<exists>pages s'. length pages = sum_new_pages ps pre seq \<and> takes_pages s pages s' \<and> paged_wf s' \<and>
        alloc_extend u oob uninit s pre seq ll ext
          = assert_r (debug_mode s \<longrightarrow> distinct (batch_extend_slots ps pre seq ll pages))
              (Inr (Some (batch_extend_slots ps pre seq ll pages), s'))"
    and "size (token_slots s) < sum_new_pages ps pre seq \<Longrightarrow> \<not> debug_mode s \<Longrightarrow>
      \<exists>s'. token_slots s' = token_slots s \<and> alloc_extend u oob uninit s pre seq ll ext = Inr (None, s')"
proof -
  let ?n = "sum_new_pages ps pre seq" and ?s1 = "extend_prepared s (length pre) ext"
  have ps: "0 < ps" using wf by (simp add: paged_wf_def ps_def)
  have "?n \<le> ext div ps + length pre"
    unfolding ext using sum_new_pages_le [OF ps _ le] le by (simp add: list_all2_lengthD)
  then have av: "?n \<le> size (token_slots s) \<longleftrightarrow> ?n \<le> length (free_pages ?s1)"
    unfolding ps_def by (rule extend_prepared_avail [OF wf])
  have "debug_mode s \<longrightarrow> list_all2 (\<lambda>l p. (l + 1) mod int (kv_page_size s)
      = int (p mod kv_page_size s)) ll pre" using dbg by (rule impI)
  note eq = alloc_extend_unfold [OF this, where u = u and oob = oob and uninit = uninit
      and seq = seq and ext = ext, folded ps_def]
  show "\<exists>s'. token_slots s' = token_slots s \<and> alloc_extend u oob uninit s pre seq ll ext = Inr (None, s')"
    if "size (token_slots s) < ?n" "\<not> debug_mode s"
    using that av by (intro exI [of _ ?s1]) (simp add: eq)
  assume "?n \<le> size (token_slots s)"
  then have n: "?n \<le> length (free_pages ?s1)" using av by simp
  let ?pages = "take ?n (free_pages ?s1)" and ?s' = "?s1\<lparr>free_pages := drop ?n (free_pages ?s1)\<rparr>"
  note out = extend_launch_batch [OF ps le ll ext extend_prepared_max n]
  have "paged_wf ?s' = paged_wf ?s1" by (simp add: paged_wf_def)
  then show "\<exists>pages s'. length pages = ?n \<and> takes_pages s pages s' \<and> paged_wf s' \<and>
        alloc_extend u oob uninit s pre seq ll ext
          = assert_r (debug_mode s \<longrightarrow> distinct (batch_extend_slots ps pre seq ll pages))
              (Inr (Some (batch_extend_slots ps pre seq ll pages), s'))"
    using extend_prepared_takes [OF n] n wf
    by (intro exI [of _ ?pages] exI [of _ ?s']) (simp add: eq out)
qed

lemma alloc_decode_cases:
  fixes s :: paged_alloc
  assumes wf: "paged_wf s" and ps1: "1 < kv_page_size s" and pos: "\<forall>q \<in> set seq. 0 < q"
    and ll: "length ll = length seq"
    and dbg: "debug_mode s \<Longrightarrow> list_all2 (\<lambda>l q. (l + 2) mod int (kv_page_size s)
            = int (q mod kv_page_size s)) ll seq"
  defines "ps \<equiv> kv_page_size s"
  defines "n \<equiv> length (filter (\<lambda>q. q mod ps = 1) seq)"
  shows "n \<le> size (token_slots s) \<Longrightarrow>
      \<exists>pages s'. length pages = n \<and> takes_pages s pages s' \<and> paged_wf s' \<and>
        alloc_decode u oob uninit s seq ll
          = assert_r (debug_mode s \<longrightarrow> distinct (batch_decode_slots ps seq ll pages))
              (Inr (Some (batch_decode_slots ps seq ll pages), s'))"
    and "size (token_slots s) < n \<Longrightarrow> \<not> debug_mode s \<Longrightarrow>
      \<exists>s'. token_slots s' = token_slots s \<and> alloc_decode u oob uninit s seq ll = Inr (None, s')"
proof -
  define s1 where "s1 = (if kv_need_sort s \<and> length seq > length (free_pages s)
                 then merge_and_sort_free s else s)"
  define out where "out = fold (alloc_decode_kernel u oob seq ll
               (free_pages s1) (next_power_of_2 (length seq)) ps)
             [0..<length seq] (map uninit [0..<length seq])"
  have dbg': "(debug_mode s \<longrightarrow> list_all2 (\<lambda>l q. (l + 2) mod int ps = int (q mod ps)) ll seq) = True"
    using dbg by (simp add: ps_def)
  have nl: "n \<le> length seq" by (simp add: n_def)
  have sl1: "token_slots s1 = token_slots s" and wf1: "paged_wf s1" and d1: "debug_mode s1 = debug_mode s"
    using wf by (auto simp: s1_def paged_wf_def)
  have av: "n \<le> size (token_slots s) \<longleftrightarrow> n \<le> length (free_pages s1)"
    using wf nl by (auto simp: s1_def token_slots_def paged_wf_def)
  have eq: "alloc_decode u oob uninit s seq ll =
      assert_r (debug_mode s \<longrightarrow> distinct out)
        (if n > length (free_pages s1) then Inr (None, s1)
         else Inr (Some out, s1\<lparr>free_pages := drop n (free_pages s1)\<rparr>))"
    unfolding alloc_decode_def Let_def ps_def [symmetric] dbg' s1_def [symmetric]
      out_def [symmetric] d1 get_num_new_pages_def n_def [symmetric] torch_unique_length
    by (simp add: assert_r_def)
  show "\<exists>s'. token_slots s' = token_slots s \<and> alloc_decode u oob uninit s seq ll = Inr (None, s')"
    if "size (token_slots s) < n" "\<not> debug_mode s"
    using eq sl1 that av by auto
  assume "n \<le> size (token_slots s)"
  then have n: "n \<le> length (free_pages s1)" using av by simp
  let ?pages = "take n (free_pages s1)" and ?s' = "s1\<lparr>free_pages := drop n (free_pages s1)\<rparr>"
  note out = decode_launch_batch [OF ps1 [folded ps_def] pos ll n_def [THEN meta_eq_to_obj_eq] n,
      of u oob uninit, folded out_def]
  have tk: "takes_pages s ?pages ?s'" using n by (intro takes_pages_merge) (auto simp: s1_def)
  have "paged_wf ?s'" using wf1 by (simp add: paged_wf_def)
  with eq n tk out show "\<exists>pages s'. length pages = n \<and> takes_pages s pages s' \<and> paged_wf s' \<and>
        alloc_decode u oob uninit s seq ll
          = assert_r (debug_mode s \<longrightarrow> distinct (batch_decode_slots ps seq ll pages))
              (Inr (Some (batch_decode_slots ps seq ll pages), s'))"
    by (intro exI [of _ ?pages] exI [of _ ?s']) simp
qed

lemma page_slots_append [simp]: "page_slots ps (xs @ ys) = page_slots ps xs @ page_slots ps ys"
  by (simp add: page_slots_def)

lemma mset_page_slots:
  "mset (page_slots ps pages) = (\<Sum>p \<in># mset pages. mset (map (\<lambda>j. p * int ps + int j) [0..<ps]))"
  by (induction pages) (simp_all add: page_slots_def)

lemma length_page_slots [simp]: "length (page_slots ps pages) = length pages * ps"
  by (induction pages) (simp_all add: page_slots_def)

lemma page_slots_div:
  assumes "0 < ps"
  shows "(\<lambda>i. i div int ps) ` set (page_slots ps pages) = set pages"
proof -
  have "(\<lambda>i. i div int ps) ` set (map (\<lambda>j. p * int ps + int j) [0..<ps]) = {p}" for p
    using assms by (auto simp: image_iff)
  then show ?thesis by (induction pages) (simp_all add: page_slots_def image_Un)
qed

lemma distinct_mset_count: "distinct xs \<longleftrightarrow> (\<forall>a. count (mset xs) a \<le> 1)"
proof -
  have "count (mset xs) a = (if a \<in> set xs then 1 else 0) \<longleftrightarrow> count (mset xs) a \<le> 1" for a
  proof (cases "a \<in> set xs")
    case True
    then have "0 < count (mset xs) a" by (simp only: count_greater_zero_iff set_mset_mset)
    with True show ?thesis by (simp only: if_True) linarith
  next
    case False
    then have "count (mset xs) a = 0" by (simp only: count_eq_zero_iff set_mset_mset) simp
    with False show ?thesis by (simp only: if_False) simp
  qed
  then show ?thesis by (simp only: distinct_count_atmost_1)
qed

lemma paged_slots_token: "paged_slots s
    = (\<Sum>p \<in># token_slots s. mset (map (\<lambda>j. p * int (kv_page_size s) + int j) [0..<kv_page_size s]))"
  by (simp add: paged_slots_def mset_page_slots token_slots_def)

lemma distinct_token_slots: "distinct (free_pages s @ release_pages s) \<longleftrightarrow>
    (\<forall>p. count (token_slots s) p \<le> 1)"
proof -
  have "token_slots s = mset (free_pages s @ release_pages s)" by (simp add: token_slots_def)
  then show ?thesis by (simp only: distinct_mset_count)
qed

lemma paged_alloc_fn_cases:
  assumes inv: "paged_invar s" and dvd: "kv_page_size s dvd n"
  shows "n \<le> available_size s \<Longrightarrow> \<exists>pages s'. paged_alloc_fn s n = Inr (Some (page_slots (kv_page_size s) pages), s')
      \<and> length pages * kv_page_size s = n \<and> takes_pages s pages s' \<and> paged_invar s'"
    and "available_size s < n \<Longrightarrow> \<exists>s'. paged_alloc_fn s n = Inr (None, s') \<and> paged_invar s'
      \<and> token_slots s' = token_slots s \<and> kv_page_size s' = kv_page_size s"
proof -
  let ?ps = "kv_page_size s"
  have wf: "paged_wf s" and ps: "0 < ?ps" using inv by (simp_all add: paged_invar_def paged_wf_def)
  define k where "k = n div ?ps"
  have nk: "n = k * ?ps" using dvd by (simp add: k_def)
  define s1 where "s1 = (if kv_need_sort s \<and> k > length (free_pages s) then merge_and_sort_free s else s)"
  have sl1: "token_slots s1 = token_slots s" and wf1: "paged_wf s1"
    and fr: "kv_page_size s1 = kv_page_size s" "is_not_in_free_group s1 = is_not_in_free_group s"
    using wf by (auto simp: s1_def paged_wf_def)
  have av: "k \<le> size (token_slots s) \<longleftrightarrow> k \<le> length (free_pages s1)"
    using wf by (auto simp: s1_def token_slots_def paged_wf_def)
  have avs: "available_size s = size (token_slots s) * ?ps"
    by (simp add: available_size_def token_slots_def)
  have eq: "paged_alloc_fn s n = (if k > length (free_pages s1) then Inr (None, s1)
         else Inr (Some (page_slots ?ps (take k (free_pages s1))),
                   s1\<lparr>free_pages := drop k (free_pages s1)\<rparr>))"
    using dvd unfolding paged_alloc_fn_def Let_def k_def [symmetric] s1_def [symmetric]
    by (simp add: dvd_eq_mod_eq_0)
  have inv1: "paged_invar s1"
    using inv wf1 fr sl1 unfolding paged_invar_def distinct_token_slots by simp
  show "\<exists>s'. paged_alloc_fn s n = Inr (None, s') \<and> paged_invar s'
      \<and> token_slots s' = token_slots s \<and> kv_page_size s' = kv_page_size s" if "available_size s < n"
  proof -
    have "\<not> k \<le> size (token_slots s)" using that avs nk ps by simp
    with av eq inv1 sl1 fr(1) show ?thesis by simp
  qed
  assume "n \<le> available_size s"
  then have k: "k \<le> length (free_pages s1)" using avs nk ps av by simp
  let ?s' = "s1\<lparr>free_pages := drop k (free_pages s1)\<rparr>"
  have "takes_pages s (take k (free_pages s1)) ?s'"
    using k by (intro takes_pages_merge) (auto simp: s1_def)
  moreover have "paged_invar ?s'" using inv1 set_drop_subset [of k "free_pages s1"]
    by (auto simp: paged_invar_def paged_wf_def)
  ultimately show "\<exists>pages s'. paged_alloc_fn s n = Inr (Some (page_slots ?ps pages), s')
      \<and> length pages * ?ps = n \<and> takes_pages s pages s' \<and> paged_invar s'"
    using k eq nk by (intro exI [of _ "take k (free_pages s1)"] exI [of _ ?s']) simp
qed

lemma paged_free_cases:
  assumes inv: "paged_invar s" and fr: "paged_freeable s xs"
  shows "\<exists>s'. paged_free s xs = Inr s' \<and> paged_invar s' \<and> kv_page_size s' = kv_page_size s
      \<and> paged_slots s' = paged_slots s + mset xs"
proof -
  let ?ps = "kv_page_size s"
  obtain pages where d: "distinct pages" "set pages \<inter> set (free_pages s @ release_pages s) = {}"
    and xs: "mset xs = mset (page_slots ?ps pages)"
    using fr by (auto simp: paged_freeable_def)
  have ps: "0 < ?ps" using inv by (simp add: paged_invar_def paged_wf_def)
  define up where "up = torch_unique (map (\<lambda>i. i div int ?ps) xs)"
  have "set xs = set (page_slots ?ps pages)" using xs by (metis set_mset_mset)
  then have sup: "set up = set pages" using page_slots_div [OF ps, of pages] by (simp add: up_def)
  have dup: "distinct up" by (simp add: up_def)
  then have mup: "mset up = mset pages" using sup d(1) by (metis mset_set_set)
  show ?thesis
  proof (cases "xs = []")
    case True
    with inv show ?thesis by (simp add: paged_free_def)
  next
    case False
    define s' where "s' = (if kv_need_sort s then s\<lparr>release_pages := up @ release_pages s\<rparr>
                 else s\<lparr>free_pages := up @ free_pages s\<rparr>)"
    have "paged_invar s'"
      using inv dup sup d(2) by (auto simp: s'_def paged_invar_def paged_wf_def)
    moreover have "paged_slots s' = paged_slots s + mset xs"
      using xs mup by (simp add: s'_def paged_slots_def mset_page_slots)
    moreover have "paged_free s xs = Inr s'"
    proof -
      have "distinct (free_pages s')" using \<open>paged_invar s'\<close> by (simp add: paged_invar_def)
      then show ?thesis
        using False inv unfolding paged_free_def Let_def up_def [symmetric] torch_unique_length
        by (simp add: paged_invar_def s'_def [symmetric])
    qed
    moreover have "kv_page_size s' = ?ps" by (simp add: s'_def)
    ultimately show ?thesis by blast
  qed
qed

interpretation paged: kv_pool "\<lambda>s n. ok_or (None, s) (paged_alloc_fn s n)"
  "\<lambda>s xs. ok_or s (paged_free s xs)" available_size kv_page_size
  paged_freeable paged_slots paged_invar
proof unfold_locales
  fix s :: paged_alloc assume "paged_invar s"
  show "available_size s = size (paged_slots s)"
    by (simp add: available_size_def paged_slots_def add_mult_distrib)
next
  fix s s' :: paged_alloc and n xs
  assume inv: "paged_invar s" and dvd: "kv_page_size s dvd n"
    and al: "ok_or (None, s) (paged_alloc_fn s n) = (Some xs, s')"
  have "n \<le> available_size s"
    using paged_alloc_fn_cases(2) [OF inv dvd] al by (cases "available_size s < n") (auto simp: ok_or_def)
  from paged_alloc_fn_cases(1) [OF inv dvd this] al obtain pages
    where "xs = page_slots (kv_page_size s) pages" "length pages * kv_page_size s = n"
      "takes_pages s pages s'" "paged_invar s'"
    by (auto simp: ok_or_def)
  then show "paged_invar s' \<and> length xs = n \<and> paged_slots s = mset xs + paged_slots s'"
    by (simp add: paged_slots_token takes_pages_def mset_page_slots)
next
  fix s s' :: paged_alloc and n
  assume inv: "paged_invar s" and dvd: "kv_page_size s dvd n"
    and al: "ok_or (None, s) (paged_alloc_fn s n) = (None, s')"
  have lt: "available_size s < n"
    using paged_alloc_fn_cases(1) [OF inv dvd] al by (cases "n \<le> available_size s") (auto simp: ok_or_def)
  from paged_alloc_fn_cases(2) [OF inv dvd this] al lt
  show "paged_invar s' \<and> paged_slots s' = paged_slots s \<and> available_size s < n"
    by (auto simp: ok_or_def paged_slots_token)
next
  fix s :: paged_alloc and xs
  assume "paged_invar s" and "paged_freeable s xs"
  from paged_free_cases [OF this]
  show "paged_invar (ok_or s (paged_free s xs)) \<and>
    paged_slots (ok_or s (paged_free s xs)) = paged_slots s + mset xs"
    by (auto simp: ok_or_def)
qed

lemma decode_alignment:
  assumes "(l + 2) mod int ps = int (q mod ps)" and "0 < q"
  shows "(l + 1) mod int ps = int ((q - 1) mod ps)"
proof -
  have "(l + 2) mod int ps = int q mod int ps" using assms(1) by (simp add: zmod_int)
  then have "(l + 2 - 1) mod int ps = (int q - 1) mod int ps" by (metis mod_diff_left_eq)
  also have "int q - 1 = int (q - 1)" using assms(2) by simp
  finally show ?thesis by (simp add: zmod_int add.commute)
qed

lemma sum_new_pages_decode:
  assumes "1 < ps" and "\<forall>q \<in> set seq. 0 < q"
  shows "sum_new_pages ps (map (\<lambda>q. q - 1) seq) seq = length (filter (\<lambda>q. q mod ps = 1) seq)"
  using assms(2)
proof (induction seq)
  case (Cons q seq)
  then show ?case using new_pages_decode [OF assms(1), of q] by (simp add: sum_new_pages_def)
qed (simp add: sum_new_pages_def)

lemma takes_pages_distinct:
  assumes "paged_invar s" and "takes_pages s pages s'"
  shows "distinct pages"
  unfolding distinct_mset_count
proof
  fix a
  have "count (mset pages) a \<le> count (token_slots s) a" using assms(2) by (simp add: takes_pages_def)
  also have "\<dots> \<le> 1" using assms(1) by (simp only: paged_invar_def distinct_token_slots)
  finally show "count (mset pages) a \<le> 1" .
qed

lemma page_slots_upt: "page_slots ps (map int [1..<Suc n]) = map int [ps..<ps * Suc n]"
proof (induction n)
  case 0
  then show ?case by (simp add: page_slots_def)
next
  case (Suc n)
  have "map (\<lambda>j. int (Suc n) * int ps + int j) [0..<ps] = map int [ps * Suc n..<ps * Suc n + ps]"
    using map_upt_shift [of int "ps * Suc n" ps] by (simp add: algebra_simps)
  then have one: "page_slots ps [int (Suc n)] = map int [ps * Suc n..<ps * Suc (Suc n)]"
    by (simp add: page_slots_def algebra_simps)
  have "map int [1..<Suc (Suc n)] = map int [1..<Suc n] @ [int (Suc n)]" by simp
  then have "page_slots ps (map int [1..<Suc (Suc n)])
      = map int ([ps..<ps * Suc n] @ [ps * Suc n..<ps * Suc (Suc n)])"
    by (simp only: page_slots_append Suc.IH one map_append)
  also have "[ps..<ps * Suc n] @ [ps * Suc n..<ps * Suc (Suc n)] = [ps..<ps * Suc (Suc n)]"
    by (rule upt_split [symmetric]) simp_all
  finally show ?case .
qed

lemma paged_init_invar: "0 < ps \<Longrightarrow> paged_invar (paged_init sz ps need_sort debug)"
  by (simp add: paged_invar_def paged_wf_def paged_init_def paged_clear_def distinct_map)

lemma paged_init_slots:
  "paged_slots (paged_init sz ps need_sort debug) = mset_set (int ` {ps..<ps * Suc (sz div ps)})"
proof -
  have "mset (map int [ps..<ps * Suc (sz div ps)]) = mset_set (int ` {ps..<ps * Suc (sz div ps)})"
    by (subst mset_set_set [symmetric]) (simp_all add: distinct_map)
  then show ?thesis
    using page_slots_upt [of ps "sz div ps"]
    by (simp add: paged_slots_def paged_init_def paged_clear_def)
qed

lemma paged_run_page_size:
  assumes "pool_run (\<lambda>s n. ok_or (None, s) (paged_alloc_fn s n)) (\<lambda>s xs. ok_or s (paged_free s xs))
    kv_page_size paged_freeable (s, out) (s', out')"
  shows "kv_page_size s' = kv_page_size s"
  using assms
proof (induction "(s', out')" arbitrary: s' out' rule: rtranclp_induct)
  case (step y)
  obtain t o1 where y: "y = (t, o1)" by (cases y)
  have "kv_page_size s' = kv_page_size t"
    using step.hyps(2) unfolding y
    by (cases rule: pool_step.cases)
      (auto simp: ok_or_def paged_alloc_fn_def paged_free_def assert_r_def Let_def
        split: if_splits sum.splits)
  with step.hyps(3) y show ?case by simp
qed simp

section \<open>Properties of the paged allocator\<close>

text \<open>
  (C18) In every state the paged allocator reaches from its construction by allocations and by frees
  of whole held pages, an allocation of a multiple of the page size raises nothing, fails exactly
  when fewer slots are available, and otherwise returns that many distinct slots of pages
  \<open>1..num_pages\<close>, none of them held by a client; the available size is always the slots of these
  pages less the slots held. In debug mode its assertions hold throughout.
\<close>

theorem paged_pool_exact:
  assumes "0 < ps"
    and run: "pool_run (\<lambda>s n. ok_or (None, s) (paged_alloc_fn s n)) (\<lambda>s xs. ok_or s (paged_free s xs))
      kv_page_size paged_freeable (paged_init sz ps need_sort debug, {#}) (s, out)"
    and n: "ps dvd n"
  shows "available_size s + size out = sz div ps * ps \<and>
    (case paged_alloc_fn s n of
       Inl e \<Rightarrow> False
     | Inr (None, s') \<Rightarrow> available_size s < n \<and> paged_slots s' = paged_slots s
     | Inr (Some xs, s') \<Rightarrow> length xs = n \<and> n \<le> available_size s \<and> distinct xs \<and>
         set xs \<subseteq> int ` {ps..<ps * Suc (sz div ps)} \<and> set xs \<inter> set_mset out = {} \<and>
         available_size s' = available_size s - n)"
proof -
  note init = paged_init_invar [OF assms(1), of sz need_sort debug]
  have psz: "kv_page_size s = ps"
    using paged_run_page_size [OF run] by (simp add: paged_init_def paged_clear_def)
  with n have gran: "kv_page_size s dvd n" by simp
  have "card (int ` {ps..<ps * Suc (sz div ps)}) = sz div ps * ps"
    by (simp add: card_image algebra_simps)
  note exact = paged.run_alloc_exact [OF run init paged_init_slots gran, unfolded this]
  have "paged_invar s" using paged.run_invar_conserve [OF run init] by simp
  then have "\<exists>r. paged_alloc_fn s n = Inr r"
    using paged_alloc_fn_cases [OF _ gran] by (cases "available_size s < n") fastforce+
  with exact show ?thesis by (auto simp: ok_or_def split: option.splits)
qed

lemma paged_demo_run:
  "pool_run (\<lambda>s n. ok_or (None, s) (paged_alloc_fn s n)) (\<lambda>s xs. ok_or s (paged_free s xs))
      kv_page_size paged_freeable (paged_init 7 2 False True, {#})
      (snd (ok_or (None, paged_init 7 2 False True) (paged_alloc_fn (paged_init 7 2 False True) 4)),
       {#2, 3, 4, 5#})"
proof -
  let ?s = "paged_init 7 2 False True"
  let ?a = "ok_or (None, ?s) (paged_alloc_fn ?s 4)"
  have "?a = (Some [2, 3, 4, 5], snd ?a)"
    by (simp add: ok_or_def paged_alloc_fn_def paged_init_def paged_clear_def page_slots_def
        assert_r_def upt_rec)
  from pool_step.step_alloc [of kv_page_size ?s 4 "\<lambda>s n. ok_or (None, s) (paged_alloc_fn s n)",
      OF _ this, of "\<lambda>s xs. ok_or s (paged_free s xs)" paged_freeable "{#}"]
  show ?thesis by (simp add: paged_init_def paged_clear_def r_into_rtranclp)
qed

theorem paged_pool_exact_witness:
  "available_size (snd (ok_or (None, paged_init 7 2 False True)
      (paged_alloc_fn (paged_init 7 2 False True) 4))) = 2"
  using paged_pool_exact [OF _ paged_demo_run, of 2] by simp


lemma demo_paged_simps:
  "paged_invar demo_paged" "kv_page_size demo_paged = 4" "token_slots demo_paged = {#2, 3#}"
  by (simp_all add: demo_paged_def paged_init_def paged_clear_def paged_invar_def paged_wf_def
      token_slots_def)


text \<open>
  (C14) Decoding one token for a batch, with pages of more than one slot. Under the same conditions
  on the last slots and open pages, \<open>alloc_decode\<close> gives each request the slot after its last one,
  or the first slot of a new page when its last page is full: exactly the reference extension of
  every request by one token. It takes one page per full request, the slots are distinct and the
  debug assertions hold; with too few pages it returns \<open>None\<close> and keeps every free page.
\<close>

theorem alloc_decode_correct:
  fixes s :: paged_alloc
  defines "ps \<equiv> kv_page_size s"
  assumes inv: "paged_invar s" and ps: "1 < kv_page_size s" and pos: "\<forall>q \<in> set seq. 0 < q"
    and al: "list_all2 (\<lambda>l q. (l + 2) mod int ps = int (q mod ps)) ll seq"
    and op: "distinct (open_pages ps (map (\<lambda>q. q - 1) seq) ll)"
      "set (open_pages ps (map (\<lambda>q. q - 1) seq) ll) \<inter> set_mset (token_slots s) = {}"
  shows "if length (filter (\<lambda>q. q mod ps = 1) seq) \<le> size (token_slots s)
    then \<exists>pages s'. alloc_decode u oob uninit s seq ll
           = Inr (Some (batch_extend_slots ps (map (\<lambda>q. q - 1) seq) seq ll pages), s') \<and>
         length pages = length (filter (\<lambda>q. q mod ps = 1) seq) \<and> takes_pages s pages s' \<and>
         distinct (batch_extend_slots ps (map (\<lambda>q. q - 1) seq) seq ll pages)
    else debug_mode s \<or>
      (\<exists>s'. alloc_decode u oob uninit s seq ll = Inr (None, s') \<and> token_slots s' = token_slots s)"
proof -
  let ?n = "length (filter (\<lambda>q. q mod ps = 1) seq)" and ?pre = "map (\<lambda>q. q - 1) seq"
  have wf: "paged_wf s" using inv by (simp add: paged_invar_def)
  have ll: "length ll = length seq" using al by (simp add: list_all2_lengthD)
  have ps1: "1 < ps" using ps by (simp add: ps_def)
  note cases = alloc_decode_cases [OF wf ps pos ll al [unfolded ps_def], of u oob uninit, folded ps_def]
  have al': "list_all2 (\<lambda>l p. (l + 1) mod int ps = int (p mod ps)) ll ?pre"
    using al pos by (auto simp: list_all2_conv_all_nth intro!: decode_alignment [unfolded One_nat_def])
  show ?thesis
  proof (cases "?n \<le> size (token_slots s)")
    case True
    from cases(1) [OF True] obtain pages s' where pages: "length pages = ?n" "takes_pages s pages s'"
      and eq: "alloc_decode u oob uninit s seq ll
          = assert_r (debug_mode s \<longrightarrow> distinct (batch_decode_slots ps seq ll pages))
              (Inr (Some (batch_decode_slots ps seq ll pages), s'))" by blast
    have "batch_decode_slots ps seq ll pages = batch_extend_slots ps ?pre seq ll pages"
      by (rule batch_decode_as_extend) (use ps1 pos ll pages in simp_all)
    moreover have "distinct (open_pages ps ?pre ll @ pages)"
      using op takes_pages_distinct [OF inv pages(2)] pages(2) by (auto simp: takes_pages_def)
    then have "distinct (batch_extend_slots ps ?pre seq ll pages)"
      using batch_extend_slots_distinct [OF _ al'] sum_new_pages_decode [OF ps1 pos] ps1 pages(1) by simp
    ultimately show ?thesis using eq pages True by (auto simp: assert_r_def)
  next
    case False
    then show ?thesis using cases(2) by fastforce
  qed
qed

theorem alloc_decode_correct_witness:
  "\<exists>pages s'. alloc_decode 0 (\<lambda>_. 0) (\<lambda>_. 0) demo_paged [3, 5] [5, 19]
     = Inr (Some (batch_extend_slots 4 [2, 4] [3, 5] [5, 19] pages), s') \<and>
     takes_pages demo_paged pages s' \<and> length pages = 1"
  using alloc_decode_correct [OF demo_paged_simps(1), of "[3, 5]" "[5, 19]" 0 "\<lambda>_. 0" "\<lambda>_. 0"]
  by (auto simp: demo_paged_simps simp del: batch_extend_slots.simps)

end
