(* ===== verification/Radix_Properties.thy ===== *)
theory Radix_Properties
  imports Radix_Req
begin

text \<open>
  The properties of the radix cache: longest-prefix matching, the content after an insertion, the
  accounting invariant in every reachable state, the guarantees of eviction, and the conservation of
  KV slots when a request is finished or continued.
\<close>

section \<open>Total size\<close>

lemma total_size_loop_spec:
  assumes wf: "rc_wf c" and "apart c stack" and "set stack \<subseteq> {..<counter c}" and "card (under c stack) \<le> fuel"
    and val: "\<And>n. n \<in> under c stack \<Longrightarrow> get_value c n = Inr (slots_of c n)"
  shows "total_size_loop fuel c stack tot = Inr (tot + (\<Sum>n \<in> under c stack. length (slots_of c n)))"
  using assms(2-)
proof (induction fuel arbitrary: stack tot)
  case 0
  then have "under c stack = {}" using finite_under [OF wf] by simp
  then have "stack = []" using reach_self by (auto simp: under_def) (metis all_not_in_conv set_empty)
  then show ?case by (subst total_size_loop.simps) (auto simp: under_def)
next
  case (Suc fuel)
  show ?case
  proof (cases stack rule: rev_exhaust)
    case Nil
    then show ?thesis by (subst total_size_loop.simps) (auto simp: under_def)
  next
    case (snoc S n)
    let ?T = "S @ map snd (kids c n)"
    note pop = apart_pop [OF wf Suc.prems(1) [unfolded snoc]]
    have bl: "under c stack = Set.insert n (under c ?T)"
      using under_node [of c n] by (simp add: snoc under_append)
    have T: "set ?T \<subseteq> {..<counter c}" using Suc.prems(2) kids_bound [OF wf, of n] by (simp add: snoc)
    then have card: "card (under c ?T) \<le> fuel"
      using Suc.prems(3) pop(2) finite_under [OF wf T] by (simp add: bl)
    have kids: "filter (\<lambda>m. \<not> evicted (nodes c m)) (map snd (kids c n)) = map snd (kids c n)"
      using wf_edgeD(8) [OF wf] by (fastforce simp: evicted_def filter_id_conv)
    have "total_size_loop (Suc fuel) c stack tot = total_size_loop fuel c ?T (tot + length (slots_of c n))"
      using Suc.prems(4) [of n] bl by (subst total_size_loop.simps) (simp add: snoc kids)
    also have "\<dots> = Inr (tot + length (slots_of c n) + (\<Sum>n \<in> under c ?T. length (slots_of c n)))"
      using Suc.prems(4) bl by (intro Suc.IH [OF pop(1) T card]) auto
    finally show ?thesis using pop(2) finite_under [OF wf T] by (simp add: bl)
  qed
qed

lemma live_locked_sum:
  assumes "rc_inv c L"
  shows "int (\<Sum>n \<in> live c. length (slots_of c n)) = evictable_size c + protected_size c"
proof -
  have wf: "rc_wf c" using assms by (simp add: rc_inv_def)
  have "int (length (slots_of c n)) = unlocked_len (nodes c n) + locked_len (nodes c n)" if "n \<in> live c" for n
    using slots_of_live [OF wf that] by (simp add: unlocked_len_def locked_len_def node_len_def)
  then have "int (\<Sum>n \<in> live c. length (slots_of c n)) = live_sum c unlocked_len + live_sum c locked_len"
    by (simp add: live_sum_def flip: sum.distrib)
  then show ?thesis using assms by (simp add: rc_inv_def size_inv_def)
qed

lemma total_size_spec:
  assumes "rc_inv c L"
  shows "\<exists>n. total_size c = Inr n \<and> int n = evictable_size c + protected_size c"
proof -
  have wf: "rc_wf c" using assms by (simp add: rc_inv_def)
  have un: "under c [root_node c] = Set.insert (root_node c) (live c)"
    by (auto simp: under_def live_def intro: reach_self)
  have root: "root_node c \<notin> live c" "slots_of c (root_node c) = []" "get_value c (root_node c) = Inr []"
    using rc_wfD(4) [OF wf] by (simp_all add: live_def slots_of_def get_value_def)
  have "card (live c) < counter c"
    using psubset_card_mono [of "{..<counter c}" "live c"] live_bound [OF wf] root(1) rc_wfD(2) [OF wf] by auto
  moreover have "apart c [root_node c]" by (simp add: apart_def)
  moreover have "get_value c n = Inr (slots_of c n)" if "n \<in> under c [root_node c]" for n
    using that slots_of_live [OF wf] root by (auto simp: un)
  ultimately have "total_size c = Inr (\<Sum>n \<in> live c. length (slots_of c n))"
    using total_size_loop_spec [OF wf, of "[root_node c]" "counter c" 0] un root rc_wfD(2) [OF wf]
      finite_live [OF wf] by (simp add: total_size_def)
  then show ?thesis using live_locked_sum [OF assms] by auto
qed

section \<open>Reachable states\<close>

text \<open>
  The operations of the cache as its clients use them: \<open>L\<close> is the multiset of nodes on which a lock is
  held and only a held lock is released. The freed slots are collected in a list.
\<close>

inductive radix_step :: "radix_cache \<times> nat multiset \<Rightarrow> radix_cache \<times> nat multiset \<Rightarrow> bool" where
  do_match: "match_prefix c k = Inr (vs, n, c') \<Longrightarrow> radix_step (c, L) (c', L)"
| do_insert: "\<not> disable c \<Longrightarrow> page_size c dvd length (key_convert_fn c (token_ids k)) \<Longrightarrow>
    length (insert_value c k v) = length (key_convert_fn c (token_ids k)) \<Longrightarrow>
    rc_insert c k (Some v) = Inr (m, c') \<Longrightarrow> radix_step (c, L) (c', L)"
| do_lock: "\<not> disable c \<Longrightarrow> match_prefix c k = Inr (vs, n, c1) \<Longrightarrow> inc_lock_ref c1 n = Inr (d, c') \<Longrightarrow>
    radix_step (c, L) (c', add_mset n L)"
| do_unlock: "\<not> disable c \<Longrightarrow> dec_lock_ref c n = Inr (d, c') \<Longrightarrow> radix_step (c, add_mset n L) (c', L)"
| do_evict: "\<not> disable c \<Longrightarrow> evict (\<lambda>a v. Inr (a @ v)) c [] num = Inr (c', freed) \<Longrightarrow> radix_step (c, L) (c', L)"

lemma radix_step_inv:
  assumes "radix_step s s'" and "rc_inv (fst s) (snd s)"
  shows "rc_inv (fst s') (snd s')"
  using assms
proof (induction rule: radix_step.induct)
  case (do_match c k vs n c' L)
  then show ?case using match_prefix_inv(1) [of c L k vs n c'] by simp
next
  case (do_insert c k v m c' L)
  then show ?case using insert_inv(1) [of c L k v m c'] by simp
next
  case (do_lock c k vs n c1 d c' L)
  have inv: "rc_inv c L" using do_lock.prems by simp
  note mi = match_prefix_inv [OF inv do_lock.hyps(2)]
  have "\<not> disable c1" using conf_eqD(2) [OF mi(3)] do_lock.hyps(1) by simp
  from inc_lock_ref_spec [OF mi(1,4) this] do_lock.hyps(3) show ?case by (metis Pair_inject sum.inject(2) fst_conv snd_conv)
next
  case (do_unlock c n d c' L)
  from dec_lock_ref_spec [of c n L] do_unlock show ?case by (metis Pair_inject sum.inject(2) fst_conv snd_conv)
next
  case (do_evict c num c' freed L)
  have inv: "rc_inv c L" using do_evict.prems by simp
  obtain xs c1 where "evict (\<lambda>a v. Inr (a @ v)) c [] num = Inr (c1, fold (\<lambda>x a. a @ slots_of c x) xs [])"
    "evict_run c xs c1"
    by (rule evict_spec [OF inv do_evict.hyps(1), where free = "\<lambda>a v. Inr (a @ v)" and fr = "(@)" and a = "[]" and num = num])
      auto
  then show ?case using evict_run_spec [of c xs c1 L] inv do_evict.hyps(2) by simp
qed

lemma radix_run_inv: "radix_step\<^sup>*\<^sup>* s s' \<Longrightarrow> rc_inv (fst s) (snd s) \<Longrightarrow> rc_inv (fst s') (snd s')"
  by (induction rule: rtranclp_induct) (auto dest: radix_step_inv)

section \<open>An example\<close>

definition demo_radix :: "radix_cache result" where
  "demo_radix = radix_init 1 False False ''LRU'' False (\<lambda>n. int n) (\<lambda>_. 0)"

lemma demo_radix_ok:
  obtains c where "demo_radix = Inr c" "rc_inv c {#}" "rc_wf c" "\<not> disable c" "page_size c = 1" "\<not> is_eagle c"
proof -
  have "parse_policy ''LRU'' = Inr LRUStrategy" by code_simp
  then obtain c where c: "demo_radix = Inr c" by (simp add: demo_radix_def radix_init_def)
  note i = radix_init_inv(1) [OF c [unfolded demo_radix_def]] radix_init_spec [OF c [unfolded demo_radix_def]]
  show thesis using that [OF c] i by simp
qed

section \<open>Matching and inserting\<close>

text \<open>
  (C3) \<open>match_prefix\<close> always succeeds on a well-formed cache and returns the longest page-aligned prefix
  of the key that the cache stores, with the KV indices stored for it; splitting nodes on the way does
  not change what is stored.
\<close>

theorem match_prefix_longest:
  assumes "rc_wf c" and "\<not> disable c"
  shows "\<exists>vs n c'. match_prefix c k = Inr (vs, n, c') \<and> page_size c dvd length vs \<and>
    stored c (extra_key k) (take (length vs) (cache_tokens c k)) vs \<and>
    (\<forall>m us. m \<le> length (cache_tokens c k) \<and> page_size c dvd m \<and>
      stored c (extra_key k) (take m (cache_tokens c k)) us \<longrightarrow> m \<le> length vs) \<and>
    rc_wf c' \<and> (\<forall>y ts us. stored c' y ts us \<longleftrightarrow> stored c y ts us)"
proof -
  obtain vs n c' where m: "match_prefix c k = Inr (vs, n, c')" "reshapes c c'"
    "longest_match c (extra_key k) (root_node c) (cache_tokens c k) vs"
    using match_prefix_spec [OF assms(1), of k] assms(2) by auto
  have "stored c' y ts us \<longleftrightarrow> stored c y ts us" for y ts us
    using reshapes_stored_from [OF m(2) assms(1) rc_wfD(2) [OF assms(1)]] reshapes_conf [OF m(2)] conf_eqD(5) by metis
  then show ?thesis using m reshapes_wf [OF m(2) assms(1)] by (auto simp: longest_match_def)
qed

theorem match_prefix_longest_witness:
  "\<exists>c. demo_radix = Inr c \<and> (\<exists>vs n c'. match_prefix c \<lparr>token_ids = [TInt 5], extra_key = None\<rparr> = Inr (vs, n, c'))"
  using match_prefix_longest by (metis demo_radix_ok)

text \<open>
  (C4) An inserted sequence is found again: after inserting a key with its KV indices, matching the key
  returns an index for every token; the indices of the part that was already cached are the cached ones,
  and the rest are the inserted ones. Everything stored before stays stored.
\<close>

theorem insert_then_match:
  assumes "rc_wf c" and "\<not> disable c" and "page_size c dvd length (key_convert_fn c (token_ids k))"
    and "length (insert_value c k V) = length (key_convert_fn c (token_ids k))"
  shows "\<exists>m c' us n c''. rc_insert c k (Some V) = Inr (m, c') \<and> match_prefix c' k = Inr (us, n, c'') \<and>
    length us = length (key_convert_fn c (token_ids k)) \<and> drop m us = drop m (insert_value c k V) \<and>
    stored c (extra_key k) (take m (key_convert_fn c (token_ids k))) (take m us) \<and>
    (\<forall>y ts ws. stored c y ts ws \<longrightarrow> stored c'' y ts ws)"
proof -
  let ?K = "key_convert_fn c (token_ids k)" and ?W = "insert_value c k V"
  obtain us c' where ins: "rc_insert c k (Some V) = Inr (length us, c')" "rc_wf c'" "conf c' = conf c"
    "longest_match c (extra_key k) (root_node c) ?K us"
    "\<And>y ts ws. stored c' y ts ws \<longleftrightarrow> stored c y ts ws \<or> (y = extra_key k \<and>
       (\<exists>m \<le> length ?K. ts = take m ?K \<and> ws = take m (us @ drop (length us) ?W)))"
    using insert_content [OF assms] by metis
  note cf = conf_eqD [OF ins(3)]
  let ?new = "us @ drop (length us) ?W"
  have lu: "length us \<le> length ?K" using ins(4) by (simp add: longest_match_def)
  have new: "stored c' (extra_key k) ?K ?new"
    unfolding ins(5) using lu assms(4) by (intro disjI2 conjI refl exI [of _ "length ?K"]) simp_all
  have ct: "cache_tokens c' k = ?K"
    using assms(3) cf by (simp add: cache_tokens_def Let_def key_convert_fn_def)
  obtain vs n c'' where m: "match_prefix c' k = Inr (vs, n, c'')" "reshapes c' c''"
    "longest_match c' (extra_key k) (root_node c') ?K vs"
    using match_prefix_spec [OF ins(2), of k] assms(2) cf(2) ct by auto
  have "length vs = length ?K"
    using m(3) new assms(3) cf(1) unfolding longest_match_def by (metis dual_order.antisym dual_order.refl take_all)
  then have vs: "vs = ?new"
    using stored_from_unique [OF ins(2) _ new] longest_match_stored [OF m(3)] assms(3) cf(1) by simp
  have "stored c y ts ws \<Longrightarrow> stored c'' y ts ws" for y ts ws
    using reshapes_stored_from [OF m(2) ins(2) rc_wfD(2) [OF ins(2)]] reshapes_conf [OF m(2)] conf_eqD(5) ins(5) by metis
  then show ?thesis
    using ins(1) m(1) vs \<open>length vs = length ?K\<close> longest_match_stored [OF ins(4)] by auto
qed

theorem insert_then_match_witness:
  "\<exists>c m c' us n c''. demo_radix = Inr c \<and>
    rc_insert c \<lparr>token_ids = [TInt 5, TInt 6], extra_key = None\<rparr> (Some [11, 12]) = Inr (m, c') \<and>
    match_prefix c' \<lparr>token_ids = [TInt 5, TInt 6], extra_key = None\<rparr> = Inr (us, n, c'') \<and> length us = 2"
proof -
  obtain c where c: "demo_radix = Inr c" "rc_wf c" "\<not> disable c" "page_size c = 1" "\<not> is_eagle c"
    by (rule demo_radix_ok) blast
  then show ?thesis
    using insert_then_match [of c "\<lparr>token_ids = [TInt 5, TInt 6], extra_key = None\<rparr>" "[11, 12]"]
    by (force simp: key_convert_fn_def insert_value_def)
qed

section \<open>Accounting\<close>

text \<open>
  (C9) In every state reachable from construction by matching, inserting, locking, unlocking and
  evicting, the tree is well formed, a node's lock counter is the number of locks held at or below it,
  \<open>evictable_size\<close> counts exactly the tokens of unlocked nodes and \<open>protected_size\<close> those of locked
  nodes, and \<open>total_size\<close> returns their sum.
\<close>

theorem radix_accounting:
  assumes "radix_init ps dis events policy eagle clk h = Inr c0" and "0 < ps"
    and "radix_step\<^sup>*\<^sup>* (c0, {#}) (c, L)"
  shows "rc_wf c \<and> (\<forall>n \<in> live c. lock_ref (nodes c n) = int (size {#m \<in># L. reach c n m#})) \<and>
    evictable_size c = (\<Sum>n \<in> {n \<in> live c. lock_ref (nodes c n) = 0}. int (length (toks c n))) \<and>
    protected_size c = (\<Sum>n \<in> {n \<in> live c. lock_ref (nodes c n) \<noteq> 0}. int (length (toks c n))) \<and>
    (\<exists>n. total_size c = Inr n \<and> int n = evictable_size c + protected_size c)"
proof -
  have inv: "rc_inv c L"
    using radix_run_inv [OF assms(3)] radix_init_inv(1) [OF assms(1,2)] by simp
  have wf: "rc_wf c" using inv by (simp add: rc_inv_def)
  have "live_sum c unlocked_len = (\<Sum>n \<in> {n \<in> live c. lock_ref (nodes c n) = 0}. int (length (toks c n)))"
    "live_sum c locked_len = (\<Sum>n \<in> {n \<in> live c. lock_ref (nodes c n) \<noteq> 0}. int (length (toks c n)))"
    unfolding live_sum_def sum.inter_filter [OF finite_live [OF wf]]
    by (intro sum.cong refl; simp add: unlocked_len_def locked_len_def node_len_def)+
  then show ?thesis
    using inv total_size_spec [OF inv] by (simp add: rc_inv_def size_inv_def lock_inv_def)
qed

theorem radix_accounting_witness:
  "\<exists>c0 c d. demo_radix = Inr c0 \<and> inc_lock_ref c0 (root_node c0) = Inr (d, c) \<and> rc_wf c \<and>
     (\<exists>n. total_size c = Inr n \<and> int n = evictable_size c + protected_size c)"
proof -
  obtain c0 where c0: "demo_radix = Inr c0" "rc_inv c0 {#}" "\<not> disable c0" by (rule demo_radix_ok) blast
  let ?k = "\<lparr>token_ids = [], extra_key = None\<rparr>"
  have m: "match_prefix c0 ?k = Inr ([], root_node c0, c0)"
    by (simp add: match_prefix_def key_convert_fn_def convert_to_bigram_key_def)
  obtain d c where l: "inc_lock_ref c0 (root_node c0) = Inr (d, c)"
    using inc_lock_ref_spec [OF c0(2) _ c0(3), of "root_node c0"] by metis
  have "radix_step\<^sup>*\<^sup>* (c0, {#}) (c, {#root_node c0#})" using do_lock [OF c0(3) m l] by blast
  then show ?thesis using radix_accounting [OF c0(1) [unfolded demo_radix_def]] c0(1) l by fastforce
qed

text \<open>
  (C20) Releasing a lock undoes taking it: \<open>dec_lock_ref\<close> after \<open>inc_lock_ref\<close> on the same node returns the
  opposite delta and restores both sizes, every lock counter and everything that is stored.
\<close>

theorem lock_roundtrip:
  assumes "rc_inv c L" and "n = root_node c \<or> n \<in> live c" and "\<not> disable c"
  shows "\<exists>d c1 c2. inc_lock_ref c n = Inr (d, c1) \<and> dec_lock_ref c1 n = Inr (- d, c2) \<and>
    evictable_size c2 = evictable_size c \<and> protected_size c2 = protected_size c \<and>
    (\<forall>a \<in> live c. lock_ref (nodes c2 a) = lock_ref (nodes c a)) \<and>
    (\<forall>y ts us. stored c2 y ts us \<longleftrightarrow> stored c y ts us)"
proof -
  obtain c1 where c1: "inc_lock_ref c n = Inr (evictable_size c1 - evictable_size c, c1)"
    "rc_inv c1 (add_mset n L)" "touched_locks c c1" by (rule inc_lock_ref_spec [OF assms])
  note t1 = touched_locksD [OF c1(3)]
  have "\<not> disable c1" using conf_eqD(2) [OF t1(3)] assms(3) by simp
  then obtain c2 where c2: "dec_lock_ref c1 n = Inr (evictable_size c2 - evictable_size c1, c2)"
    "rc_inv c2 L" "touched_locks c1 c2" by (rule dec_lock_ref_spec [OF c1(2)])
  note t2 = touched_locksD [OF c2(3)]
  have lv: "live c2 = live c" using t1(1) t2(1) by simp
  have lk: "lock_ref (nodes c2 a) = lock_ref (nodes c a)" if "a \<in> live c" for a
    using that lock_invD(2) [of c2 L a] lock_invD(2) [of c L a] c2(2) assms(1) lv t1(6) t2(6)
    by (simp add: rc_inv_def)
  have ky: "key (nodes c2 a) = key (nodes c a)" for a
    using c1(3) c2(3) by (auto simp: touched_locks_def relocksD)
  have "live_sum c2 unlocked_len = live_sum c unlocked_len" "live_sum c2 locked_len = live_sum c locked_len"
    unfolding live_sum_def lv by (intro sum.cong refl; simp add: unlocked_len_def locked_len_def node_len_def lk ky)+
  then have "evictable_size c2 = evictable_size c" "protected_size c2 = protected_size c"
    using c2(2) assms(1) by (simp_all add: rc_inv_def size_inv_def)
  then show ?thesis using c1(1) c2(1) lk t1(4,5) t2(4,5) by auto
qed

theorem lock_roundtrip_witness:
  "\<exists>c d c1 c2. demo_radix = Inr c \<and> inc_lock_ref c (root_node c) = Inr (d, c1) \<and>
     dec_lock_ref c1 (root_node c) = Inr (- d, c2)"
proof -
  obtain c where "demo_radix = Inr c" "rc_inv c {#}" "\<not> disable c" by (rule demo_radix_ok) blast
  then show ?thesis using lock_roundtrip [of c "{#}" "root_node c"] by blast
qed

text \<open>
  A node of another tree is refused: when the walk to the root meets a node without parent that is
  not the root, \<open>inc_lock_ref\<close> fails on the missing parent and \<open>dec_lock_ref\<close> on its assertion.
\<close>

lemma lock_foreign_node:
  assumes "\<not> disable c" and "n \<noteq> root_node c" and "parent (nodes c n) = None" and "0 < counter c"
  shows "inc_lock_ref c n = Inl AttributeError \<and> dec_lock_ref c n = Inl AssertionError"
proof -
  obtain f where f: "counter c = Suc f" using assms(4) by (cases "counter c") auto
  have "inc_lock_loop f c' None d = Inl AttributeError" for f c' d by (subst inc_lock_loop.simps) simp
  then have "inc_lock_loop (Suc f) c (Some n) 0 = Inl AttributeError"
    using assms(2,3) by (subst inc_lock_loop.simps) (simp add: Let_def upd_node_def)
  moreover have "dec_lock_loop (Suc f) c n 0 = Inl AssertionError"
    using assms(2,3) by (subst dec_lock_loop.simps) (simp add: Let_def upd_node_def)
  ultimately show ?thesis using assms(1) f by (simp add: inc_lock_ref_def dec_lock_ref_def)
qed

lemma lock_foreign_node_witness:
  "\<exists>c. demo_radix = Inr c \<and> inc_lock_ref c 7 = Inl AttributeError \<and> dec_lock_ref c 7 = Inl AssertionError"
proof -
  have pp: "parse_policy ''LRU'' = Inr LRUStrategy" by code_simp
  then obtain c where c: "demo_radix = Inr c" by (simp add: demo_radix_def radix_init_def)
  then have "\<not> disable c" "7 \<noteq> root_node c" "parent (nodes c 7) = None" "0 < counter c"
    using pp by (auto simp: demo_radix_def radix_init_def reset_def new_tree_node_def
        record_all_cleared_event_def tree_node_init_def upd_node_def)
  then show ?thesis using lock_foreign_node [of c 7] c by blast
qed

section \<open>Eviction\<close>

text \<open>
  (C2) Eviction ends and delivers: \<open>evict\<close> with any total \<open>free\<close> returns, has freed at least the demanded
  tokens or everything that is not locked, never goes on after the demand is met, hands each freed slot
  to the allocator exactly once, and leaves the sizes consistent.
\<close>

theorem evict_guarantee:
  assumes "rc_inv c L" and "\<not> disable c"
  shows "\<exists>xs c'. evict (\<lambda>a v. Inr (fr a v)) c a num = Inr (c', fold (\<lambda>x a. fr a (slots_of c x)) xs a) \<and>
    min num (evictable_size c) \<le> int (length (concat (map (slots_of c) xs))) \<and>
    (xs \<noteq> [] \<longrightarrow> int (length (concat (map (slots_of c) (butlast xs)))) < num) \<and>
    tree_slots c = tree_slots c' + mset (concat (map (slots_of c) xs)) \<and>
    evictable_size c' = evictable_size c - int (length (concat (map (slots_of c) xs))) \<and>
    protected_size c' = protected_size c \<and> rc_inv c' L"
proof (rule evict_spec [OF assms, of "\<lambda>a v. Inr (fr a v)" fr a num])
  fix xs c'
  assume e: "evict (\<lambda>a v. Inr (fr a v)) c a num = Inr (c', fold (\<lambda>x a. fr a (slots_of c x)) xs a)"
    "evict_run c xs c'" "num \<le> int (length (concat (map (slots_of c) xs))) \<or> unlocked_leaves c' = {}"
    "xs \<noteq> [] \<Longrightarrow> int (length (concat (map (slots_of c) (butlast xs)))) < num"
  note r = evict_run_spec [OF e(2) assms(1)]
  have "min num (evictable_size c) \<le> int (length (concat (map (slots_of c) xs)))"
    using e(3) no_unlocked_leaves(1) [of c' L] r by auto
  then show ?thesis using e(1,4) r by blast
qed simp

theorem evict_guarantee_witness:
  "\<exists>c xs c'. demo_radix = Inr c \<and>
    evict (\<lambda>a v. Inr (a @ v)) c [] 4 = Inr (c', fold (\<lambda>x a. a @ slots_of c x) xs [])"
proof -
  obtain c where "demo_radix = Inr c" "rc_inv c {#}" "\<not> disable c" by (rule demo_radix_ok) blast
  then show ?thesis using evict_guarantee [of c "{#}" "(@)" "[]" 4] by blast
qed

text \<open>
  (C17) The heap-based loop implements the eviction policy: the evicted nodes are, one after the other,
  unlocked leaves of the tree of their moment, and each has the least priority among all of them.
\<close>

theorem evict_in_order:
  assumes "rc_inv c L" and "\<not> disable c" and "evict (\<lambda>a v. Inr (fr a v)) c a num = Inr (c', a')"
  shows "\<exists>xs. evict_run c xs c' \<and> a' = fold (\<lambda>x a. fr a (slots_of c x)) xs a \<and> distinct xs \<and>
    live c' = live c - set xs"
proof (rule evict_spec [OF assms(1,2), of "\<lambda>a v. Inr (fr a v)" fr a num])
  fix xs c1
  assume e: "evict (\<lambda>a v. Inr (fr a v)) c a num = Inr (c1, fold (\<lambda>x a. fr a (slots_of c x)) xs a)" "evict_run c xs c1"
  then show ?thesis using assms(3) evict_run_spec [OF e(2) assms(1)] by auto
qed simp

theorem evict_in_order_witness:
  "\<exists>c c' a' xs. demo_radix = Inr c \<and> evict (\<lambda>a v. Inr (a @ v)) c [] 4 = Inr (c', a') \<and> evict_run c xs c'"
proof -
  obtain c where c: "demo_radix = Inr c" "rc_inv c {#}" "\<not> disable c" by (rule demo_radix_ok) blast
  obtain c' a' where e: "evict (\<lambda>a v. Inr (a @ v)) c [] 4 = Inr (c', a')"
    by (rule evict_spec [OF c(2,3), of "\<lambda>a v. Inr (a @ v)" "(@)" "[]" 4]) auto
  show ?thesis using evict_in_order [OF c(2,3) e] c(1) e by blast
qed

text \<open>
  (C12) Eviction is safe for running requests: the path to every locked node, with its tokens and KV
  indices, survives, and nothing is stored afterwards that was not stored before.
\<close>

theorem evict_keeps_locked:
  assumes "rc_inv c L" and "\<not> disable c" and "evict (\<lambda>a v. Inr (fr a v)) c a num = Inr (c', a')"
  shows "(\<forall>m \<in># L. \<forall>y ts vs. path c y (root_node c) m ts vs \<longrightarrow> path c' y (root_node c) m ts vs) \<and>
    (\<forall>y ts vs. stored c' y ts vs \<longrightarrow> stored c y ts vs)"
proof (rule evict_spec [OF assms(1,2), of "\<lambda>a v. Inr (fr a v)" fr a num])
  fix xs c1
  assume e: "evict (\<lambda>a v. Inr (fr a v)) c a num = Inr (c1, fold (\<lambda>x a. fr a (slots_of c x)) xs a)" "evict_run c xs c1"
  then have c1: "c1 = c'" using assms(3) by simp
  note r = evict_run_spec [OF e(2) assms(1)] and ct = evict_run_content [OF e(2) assms(1)]
  have root: "root_node c1 = root_node c" using r conf_eqD(5) by blast
  have "m \<notin> set xs" if "m \<in># L" for m
    using locked_pos [OF assms(1) that reach_self] r by fastforce
  then show ?thesis using ct root unfolding c1 stored_from_def by metis
qed simp

theorem evict_keeps_locked_witness:
  "\<exists>c c' a'. demo_radix = Inr c \<and> evict (\<lambda>a v. Inr (a @ v)) c [] 4 = Inr (c', a') \<and>
     (\<forall>y ts vs. stored c' y ts vs \<longrightarrow> stored c y ts vs)"
proof -
  obtain c where c: "demo_radix = Inr c" "rc_inv c {#}" "\<not> disable c" by (rule demo_radix_ok) blast
  obtain c' a' where e: "evict (\<lambda>a v. Inr (a @ v)) c [] 4 = Inr (c', a')"
    by (rule evict_spec [OF c(2,3), of "\<lambda>a v. Inr (a @ v)" "(@)" "[]" 4]) auto
  show ?thesis using evict_keeps_locked [OF c(2,3) e] c(1) e by blast
qed

section \<open>Requests\<close>

text \<open>
  A request with row \<open>i\<close> and lock on node \<open>n\<close> whose cached tokens \<open>ids\<close> occupy the slots \<open>kv\<close>; the
  locks \<open>L\<close> belong to other requests.
\<close>

definition req_cached ::
    "radix_cache \<Rightarrow> nat multiset \<Rightarrow> req_pool \<Rightarrow> req \<Rightarrow> nat \<Rightarrow> int \<Rightarrow> int list \<Rightarrow> int list \<Rightarrow> bool" where
  "req_cached c L p r n i ids kv \<longleftrightarrow> rc_inv c (add_mset n L) \<and> \<not> disable c \<and> last_node r = Some n \<and>
     req_pool_idx r = Some i \<and> (is_eagle c \<longrightarrow> ids \<noteq> []) \<and> req_ready p r ids kv \<and> holds_prefix c r ids kv"

definition demo_running :: "nat \<Rightarrow> req" where
  "demo_running n = demo_req\<lparr>req_pool_idx := Some 0, last_node := Some n, kv_committed_len := 3,
     fill_ids := [10, 11, 1]\<rparr>"

definition demo_pool :: req_pool where
  "demo_pool = \<lparr>rp_size = 1, max_context_len = 4, req_to_token = [[21, 22, 23, 0]], free_slots = []\<rparr>"

lemma demo_cached:
  assumes "rc_inv c {#}" "\<not> disable c" "page_size c = 1" "\<not> is_eagle c"
  shows "req_cached c {#} demo_pool (demo_running (root_node c)) (root_node c) 0 [10, 11, 1] [21, 22, 23]"
proof -
  have "rc_inv c {#root_node c#}"
    using relock_inv [OF assms(1) chain_root, of 0 1 "{#root_node c#}"] by simp
  then show ?thesis using assms(2-)
    by (simp add: req_cached_def req_ready_def read_row_def holds_prefix_def old_len_def old_prefix_len_def
        demo_running_def demo_pool_def demo_req_simps)
qed

text \<open>
  (C1) Finishing a request conserves KV slots: \<open>cache_finished_req\<close> never fails, returns the request's
  row, releases its lock, and every slot that the request owned beyond its cached prefix ends up exactly
  once, either in the tree or freed; the tokens of the request are cached up to the last whole page and
  nothing that was stored is lost.
\<close>

theorem finish_req_conserves:
  assumes "req_cached c L p r n i ids kv" and "topk = None \<or> topk = Some 1" and "\<not> kv_committed_freed r"
    and "ids = take (kv_committed_len r) (origin_input_ids r @ output_ids r)" and "length ids = kv_committed_len r"
  shows "\<exists>c' dup tail r' us. cache_finished_req topk (\<lambda>a v. Inr (fr a v)) c p a r True
      = Inr (c', rp_free p (FreeOne i), fr (fr a dup) tail, r') \<and>
    tree_slots c' + mset dup + mset tail = tree_slots c + mset (drop (old_len c r) kv) \<and>
    rc_inv c' L \<and> kv_committed_freed r' \<and>
    stored c' (req_extra_key r) (take (aligned c (length ids)) (full_key c ids)) us \<and>
    (\<forall>y ts ws. stored c y ts ws \<longrightarrow> stored c' y ts ws)"
proof -
  have h: "rc_inv c (add_mset n L)" "\<not> disable c" "last_node r = Some n" "req_pool_idx r = Some i"
    "is_eagle c \<longrightarrow> ids \<noteq> []" "req_ready p r ids kv" "holds_prefix c r ids kv"
    using assms(1) by (simp_all add: req_cached_def)
  have kv: "length kv = length ids" using h(6) by (simp add: req_ready_def)
  show ?thesis
  proof (rule cache_finished_spec [OF h(1-3) assms(2-5) h(5,6,4,7), where free = "\<lambda>a v. Inr (fr a v)" and fr = fr and a = a])
    fix c' m us
    assume e: "cache_finished_req topk (\<lambda>a v. Inr (fr a v)) c p a r True = Inr (c', rp_free p (FreeOne i),
        fr (fr a (drop (old_len c r) (take m kv))) (drop (aligned c (length ids)) kv), r\<lparr>kv_committed_freed := True\<rparr>)"
      "old_len c r \<le> m" "m \<le> aligned c (length ids)" "aligned c (length ids) \<le> length ids" "rc_inv c' L"
      "tree_slots c' = tree_slots c + mset (drop m (take (aligned c (length ids)) kv))"
      "stored c' (req_extra_key r) (take (aligned c (length ids)) (full_key c ids))
         (us @ drop m (take (aligned c (length ids)) kv))"
      "\<And>y ts ws. stored c y ts ws \<Longrightarrow> stored c' y ts ws"
    have "tree_slots c' + mset (drop (old_len c r) (take m kv)) + mset (drop (aligned c (length ids)) kv)
        = tree_slots c + mset (drop (old_len c r) kv)"
      using mset_three_parts [OF e(2,3), of kv] e(4,6) kv by (simp add: ac_simps)
    then show ?thesis
      using e(1,5,7,8) by (intro exI [of _ c'] exI [of _ "drop (old_len c r) (take m kv)"] exI conjI) auto
  qed simp
qed

theorem finish_req_conserves_witness:
  "\<exists>c c' p' dup tail r'. demo_radix = Inr c \<and>
    cache_finished_req None (\<lambda>a v. Inr (a @ v)) c demo_pool [] (demo_running (root_node c)) True
      = Inr (c', p', ([] @ dup) @ tail, r') \<and> tree_slots c' + mset dup + mset tail = {#21, 22, 23#}"
proof -
  obtain c where c: "demo_radix = Inr c" "rc_inv c {#}" "\<not> disable c" "page_size c = 1" "\<not> is_eagle c"
    by (rule demo_radix_ok) blast
  have "tree_slots c = {#}" using radix_init_inv(3) [OF c(1) [unfolded demo_radix_def]] by simp
  moreover have "old_len c (demo_running (root_node c)) = 0"
    using c(5) by (simp add: old_len_def old_prefix_len_def demo_running_def demo_req_simps)
  ultimately show ?thesis
    using c(1) finish_req_conserves [OF demo_cached [OF c(2-5)], of None "(@)" "[]"]
    by (fastforce simp: demo_running_def demo_req_simps)
qed

text \<open>
  (C6) Continuing a request conserves KV slots: \<open>cache_unfinished_req\<close> never fails, moves the request's
  lock to the node of its longer prefix, frees exactly the duplicates, and afterwards the request's prefix
  indices are the ones that the tree stores for its tokens, also in its row of the request table.
\<close>

theorem continue_req_conserves:
  assumes "req_cached c L p r n i (fill_ids r) kv"
  shows "\<exists>c' p' dup r' n'. cache_unfinished_req (\<lambda>a v. Inr (fr a v)) c p a r = Inr (c', p', fr a dup, r') \<and>
    tree_slots c' + mset dup + mset (drop (aligned c (length (fill_ids r))) kv)
      = tree_slots c + mset (drop (old_len c r) kv) \<and>
    rc_inv c' (add_mset n' L) \<and> last_node r' = Some n' \<and>
    last_matched_prefix_len r' = aligned c (length (fill_ids r)) \<and>
    stored c' (req_extra_key r) (take (last_matched_prefix_len r') (full_key c (fill_ids r)))
      (take (last_matched_prefix_len r') (prefix_indices r')) \<and>
    write_slice p i (int (old_len c r)) (int (last_matched_prefix_len r'))
      (drop (old_len c r) (take (last_matched_prefix_len r') (prefix_indices r'))) = Inr p'"
proof -
  let ?ids = "fill_ids r"
  have h: "rc_inv c (add_mset n L)" "\<not> disable c" "last_node r = Some n" "req_pool_idx r = Some i"
    "is_eagle c \<longrightarrow> ?ids \<noteq> []" "req_ready p r ?ids kv" "holds_prefix c r ?ids kv"
    using assms(1) by (simp_all add: req_cached_def)
  have kv: "length kv = length ?ids" using h(6) by (simp add: req_ready_def)
  have n: "is_eagle c \<longrightarrow> 0 < length ?ids" using h(5) by simp
  have ps: "0 < page_size c" using h(1) rc_wfD(1) by (simp add: rc_inv_def)
  note al = aligned_props(2) [OF ps n]
  show ?thesis
  proof (rule cache_unfinished_spec [OF h(1-3,5,6,4,7), where free = "\<lambda>a v. Inr (fr a v)" and fr = fr and a = a])
    fix c' p' m us n' r'
    let ?new = "us @ drop m (take (aligned c (length ?ids)) kv)"
    assume e: "cache_unfinished_req (\<lambda>a v. Inr (fr a v)) c p a r = Inr (c', p', fr a (drop (old_len c r) (take m kv)), r')"
      "old_len c r \<le> m" "m \<le> aligned c (length ?ids)" "rc_inv c' (add_mset n' L)" "last_node r' = Some n'" "length us = m"
      "tree_slots c' = tree_slots c + mset (drop m (take (aligned c (length ?ids)) kv))"
      "stored c' (req_extra_key r) (take (aligned c (length ?ids)) (full_key c ?ids)) ?new"
      "write_slice p i (int (old_len c r)) (int (aligned c (length ?ids))) (drop (old_len c r) ?new) = Inr p'"
      "last_matched_prefix_len r' = aligned c (length ?ids)"
      "take (aligned c (length ?ids)) (prefix_indices r') = ?new"
    have "tree_slots c' + mset (drop (old_len c r) (take m kv)) + mset (drop (aligned c (length ?ids)) kv)
        = tree_slots c + mset (drop (old_len c r) kv)"
      using mset_three_parts [OF e(2,3), of kv] al kv e(7) by (simp add: ac_simps)
    then show ?thesis using e(1,4,5,8-) by (intro exI conjI) auto
  qed simp
qed

theorem continue_req_conserves_witness:
  "\<exists>c c' p' dup r'. demo_radix = Inr c \<and>
    cache_unfinished_req (\<lambda>a v. Inr (a @ v)) c demo_pool [] (demo_running (root_node c)) = Inr (c', p', [] @ dup, r')"
proof -
  obtain c where c: "demo_radix = Inr c" "rc_inv c {#}" "\<not> disable c" "page_size c = 1" "\<not> is_eagle c"
    by (rule demo_radix_ok) blast
  have "fill_ids (demo_running (root_node c)) = [10, 11, 1]" by (simp add: demo_running_def)
  then show ?thesis
    using c(1) continue_req_conserves [of c "{#}" demo_pool "demo_running (root_node c)" "root_node c" 0 "[21, 22, 23]" "(@)" "[]"]
      demo_cached [OF c(2-5)] by fastforce
qed

end
