(* ===== verification/Cache_Common.thy ===== *)
theory Cache_Common
  imports Chunk_Cache Paged_Allocator Radix_Properties
begin

text \<open>
  \<^verbatim>\<open>mem_cache/common.py\<close>: the operations that the scheduler uses to get and release KV slots. They
  combine a prefix cache, an allocator and the request table: evict what is missing, allocate, write the
  slots to the rows of the requests. The Triton kernels are modelled program by program and lane by lane.
\<close>

section \<open>The memory state\<close>

datatype allocator = TokenAlloc kv_alloc | PagedAlloc paged_alloc | SWAAlloc swa_alloc

datatype prefix_cache = RadixTree radix_cache | Chunk chunk_cache | SWAChunk chunk_cache

record mem_state =
  tree_cache :: prefix_cache
  kv_allocator :: allocator
  req_to_token_pool :: req_pool

fun allocator_free :: "allocator \<Rightarrow> int list \<Rightarrow> allocator result" where
  "allocator_free (TokenAlloc s) xs = Inr (TokenAlloc (token_free s xs))"
| "allocator_free (PagedAlloc s) xs = bind_r (paged_free s xs) (\<lambda>s'. Inr (PagedAlloc s'))"
| "allocator_free (SWAAlloc s) xs = bind_r (swa_free s xs) (\<lambda>s'. Inr (SWAAlloc s'))"

fun allocator_available_size :: "allocator \<Rightarrow> nat result" where
  "allocator_available_size (TokenAlloc s) = Inr (token_available_size s)"
| "allocator_available_size (PagedAlloc s) = Inr (available_size s)"
| "allocator_available_size (SWAAlloc s) = swa_base_available_size s"

fun allocator_alloc :: "allocator \<Rightarrow> nat \<Rightarrow> (int list option \<times> allocator) result" where
  "allocator_alloc (TokenAlloc s) n = (case token_alloc s n of (r, s') \<Rightarrow> Inr (r, TokenAlloc s'))"
| "allocator_alloc (PagedAlloc s) n = bind_r (paged_alloc_fn s n) (\<lambda>(r, s'). Inr (r, PagedAlloc s'))"
| "allocator_alloc (SWAAlloc s) n = bind_r (swa_alloc_fn s n) (\<lambda>(r, s'). Inr (r, SWAAlloc s'))"

fun allocator_page_size :: "allocator \<Rightarrow> nat" where
  "allocator_page_size (TokenAlloc s) = kv_page_size s"
| "allocator_page_size (PagedAlloc s) = kv_page_size s"
| "allocator_page_size (SWAAlloc s) = 1"

fun allocator_backup_state :: "allocator \<Rightarrow> (int list \<times> int list) list" where
  "allocator_backup_state (TokenAlloc s) = [backup_state s]"
| "allocator_backup_state (PagedAlloc s) = [backup_state s]"
| "allocator_backup_state (SWAAlloc s) = swa_backup_state s"

text \<open>The page size of the cache object.\<close>

fun cache_page_size :: "prefix_cache \<Rightarrow> nat" where
  "cache_page_size (RadixTree c) = page_size c"
| "cache_page_size (Chunk c) = chunk_page_size c"
| "cache_page_size (SWAChunk c) = chunk_page_size c"

section \<open>Writing the request table\<close>

definition BLOCK_SIZE :: nat where
  "BLOCK_SIZE = 512"

text \<open>
  \<open>block_store\<close> is a loop over blocks with a masked store per lane: \<^verbatim>\<open>for i in range(cdiv(n, B))\<close>,
  offset \<open>i * B + lane\<close>, mask \<open>offset < n\<close>.
\<close>

definition block_store :: "nat \<Rightarrow> int list \<Rightarrow> nat \<Rightarrow> nat \<Rightarrow> (nat \<Rightarrow> int) \<Rightarrow> int list" where
  "block_store B mem base n f =
     fold (\<lambda>i mem. fold (\<lambda>lane mem.
         let offset = lane + i * B in if offset < n then mem[base + offset := f offset] else mem)
       [0..<B] mem) [0..<ceil_div n B] mem"

definition write_req_to_token_pool_triton ::
    "nat list \<Rightarrow> int list list \<Rightarrow> nat list \<Rightarrow> nat list \<Rightarrow> nat list \<Rightarrow> int list \<Rightarrow> nat \<Rightarrow> nat \<Rightarrow> int list \<Rightarrow> int list" where
  "write_req_to_token_pool_triton req_pool_indices prefix_tensors pre_lens seq_lens extend_lens
       out_cache_loc stride pid mem =
     (let req_pool_index = req_pool_indices ! pid;
          pre_len = pre_lens ! pid;
          seq_len = seq_lens ! pid;
          mem1 = block_store BLOCK_SIZE mem (req_pool_index * stride) pre_len
            (\<lambda>j. to_int32 (prefix_tensors ! pid ! j));
          cumsum_start = fold (\<lambda>i acc. acc + extend_lens ! i) [0..<pid] 0
      in block_store BLOCK_SIZE mem1 (req_pool_index * stride + pre_len) (seq_len - pre_len)
           (\<lambda>j. to_int32 (out_cache_loc ! (cumsum_start + j))))"

text \<open>The rows of the table as they lie in memory, and back.\<close>

fun rows_of :: "nat \<Rightarrow> nat \<Rightarrow> int list \<Rightarrow> int list list" where
  "rows_of 0 stride mem = []"
| "rows_of (Suc n) stride mem = take stride mem # rows_of n stride (drop stride mem)"

definition launch_write ::
    "req_pool \<Rightarrow> nat list \<Rightarrow> int list list \<Rightarrow> nat list \<Rightarrow> nat list \<Rightarrow> nat list \<Rightarrow> int list \<Rightarrow> req_pool" where
  "launch_write p idx prefix_tensors pre_lens seq_lens extend_lens out_cache_loc =
     (let stride = length (hd (req_to_token p));
          mem = fold (write_req_to_token_pool_triton idx prefix_tensors pre_lens seq_lens extend_lens
                  out_cache_loc stride) [0..<length idx] (concat (req_to_token p))
      in p\<lparr>req_to_token := rows_of (length (req_to_token p)) stride mem\<rparr>)"

text \<open>The path without Triton.\<close>

fun write_cache_indices_torch ::
    "req_pool \<Rightarrow> nat list \<Rightarrow> int list list \<Rightarrow> nat list \<Rightarrow> nat list \<Rightarrow> nat list \<Rightarrow> int list \<Rightarrow> nat \<Rightarrow> req_pool result" where
  "write_cache_indices_torch p (r # idx) (t # prefix_tensors) (pre # pre_lens) (seq # seq_lens)
       (ext # extend_lens) out_cache_loc pt =
     bind_r (write_slice p (int r) 0 (int pre) t) (\<lambda>p1.
     bind_r (write_slice p1 (int r) (int pre) (int seq) (take ext (drop pt out_cache_loc))) (\<lambda>p2.
       write_cache_indices_torch p2 idx prefix_tensors pre_lens seq_lens extend_lens out_cache_loc (pt + ext)))"
| "write_cache_indices_torch p _ _ _ _ _ out_cache_loc pt = Inr p"

definition write_cache_indices ::
    "bool \<Rightarrow> req_pool \<Rightarrow> nat list \<Rightarrow> int list list \<Rightarrow> nat list \<Rightarrow> nat list \<Rightarrow> nat list \<Rightarrow> int list \<Rightarrow> req_pool result" where
  "write_cache_indices support_triton p idx prefix_tensors pre_lens seq_lens extend_lens out_cache_loc =
     (if support_triton
      then Inr (launch_write p idx prefix_tensors pre_lens seq_lens extend_lens out_cache_loc)
      else write_cache_indices_torch p idx prefix_tensors pre_lens seq_lens extend_lens out_cache_loc 0)"

section \<open>Last locations\<close>

text \<open>\<^verbatim>\<open>torch.where\<close> evaluates the gather for every request; index -1 reads the last column.\<close>

fun get_last_loc_torch :: "int list list \<Rightarrow> nat list \<Rightarrow> nat list \<Rightarrow> int list result" where
  "get_last_loc_torch table [] [] = Inr []"
| "get_last_loc_torch table (r # idx) (pre # pre_lens) =
     bind_r (torch_index (length table) (int r)) (\<lambda>i.
     bind_r (torch_index (length (table ! i)) (int pre - 1)) (\<lambda>j.
     bind_r (get_last_loc_torch table idx pre_lens) (\<lambda>ls.
       Inr ((if 0 < pre then table ! i ! j else -1) # ls))))"
| "get_last_loc_torch table _ _ = Inl RuntimeError"

definition get_last_loc_kernel ::
    "int list \<Rightarrow> nat list \<Rightarrow> nat list \<Rightarrow> nat \<Rightarrow> nat \<Rightarrow> nat \<Rightarrow> nat \<Rightarrow> int list \<Rightarrow> int list" where
  "get_last_loc_kernel mem idx pre_lens num_tokens stride B pid res =
     fold (\<lambda>lane res.
       let offset = lane + pid * B;
           mask = offset < num_tokens;
           pre = (if mask then pre_lens ! offset else 0);
           r = (if mask then idx ! offset else 0);
           tok = (if 0 < pre then mem ! (r * stride + (pre - 1)) else -1)
       in if mask then res[offset := tok] else res) [0..<B] res"

definition get_last_loc_triton :: "(nat \<Rightarrow> int) \<Rightarrow> int list list \<Rightarrow> nat list \<Rightarrow> nat list \<Rightarrow> int list" where
  "get_last_loc_triton uninit table idx pre_lens =
     (let B = 256; num_tokens = length pre_lens
      in fold (get_last_loc_kernel (concat table) idx pre_lens num_tokens (length (hd table)) B)
           [0..<ceil_div num_tokens B] (map uninit [0..<num_tokens]))"

definition get_last_loc :: "string \<Rightarrow> (nat \<Rightarrow> int) \<Rightarrow> int list list \<Rightarrow> nat list \<Rightarrow> nat list \<Rightarrow> int list result" where
  "get_last_loc backend uninit table idx pre_lens =
     (if backend \<noteq> ''ascend'' \<and> backend \<noteq> ''torch_native''
      then Inr (get_last_loc_triton uninit table idx pre_lens)
      else get_last_loc_torch table idx pre_lens)"

section \<open>Allocating slots\<close>

definition evict_from_tree_cache :: "mem_state \<Rightarrow> nat \<Rightarrow> mem_state result" where
  "evict_from_tree_cache m num_tokens =
     (case tree_cache m of
        Chunk _ \<Rightarrow> Inr m
      | SWAChunk _ \<Rightarrow> Inr m
      | RadixTree c \<Rightarrow>
          (case kv_allocator m of
             SWAAlloc s \<Rightarrow>
               if full_available_size s < num_tokens \<or> swa_available_size s < num_tokens
               then Inl TypeError else Inr m
           | a \<Rightarrow>
               bind_r (allocator_available_size a) (\<lambda>av.
                 if av < num_tokens
                 then bind_r (evict allocator_free c a (int num_tokens)) (\<lambda>(c', a').
                        Inr (m\<lparr>tree_cache := RadixTree c', kv_allocator := a'\<rparr>))
                 else Inr m)))"

definition alloc_token_slots ::
    "mem_state \<Rightarrow> nat \<Rightarrow> bool \<Rightarrow> (int list \<times> (int list \<times> int list) list option \<times> mem_state) result" where
  "alloc_token_slots m num_tokens backup =
     bind_r (evict_from_tree_cache m num_tokens) (\<lambda>m1.
     let state = (if backup then Some (allocator_backup_state (kv_allocator m1)) else None)
     in bind_r (allocator_alloc (kv_allocator m1) num_tokens) (\<lambda>(r, a').
        case r of None \<Rightarrow> Inl RuntimeError
        | Some out_cache_loc \<Rightarrow> Inr (out_cache_loc, state, m1\<lparr>kv_allocator := a'\<rparr>)))"

text \<open>What the Triton kernels see of masked lanes and uninitialised memory.\<close>

record kernel_env =
  masked_lane :: nat
  out_of_range :: "nat \<Rightarrow> int"
  uninitialised :: "nat \<Rightarrow> int"

definition alloc_paged_token_slots_extend ::
    "kernel_env \<Rightarrow> mem_state \<Rightarrow> nat list \<Rightarrow> nat list \<Rightarrow> int list \<Rightarrow> nat \<Rightarrow> bool \<Rightarrow>
     (int list \<times> (int list \<times> int list) list option \<times> mem_state) result" where
  "alloc_paged_token_slots_extend e m prefix_lens seq_lens last_loc extend_num_tokens backup =
     bind_r (evict_from_tree_cache m
       (extend_num_tokens + length seq_lens * allocator_page_size (kv_allocator m))) (\<lambda>m1.
     let state = (if backup then Some (allocator_backup_state (kv_allocator m1)) else None)
     in case kv_allocator m1 of
          PagedAlloc s \<Rightarrow>
            bind_r (alloc_extend (masked_lane e) (out_of_range e) (uninitialised e) s prefix_lens seq_lens
                      last_loc extend_num_tokens) (\<lambda>(r, s').
              case r of None \<Rightarrow> Inl RuntimeError
              | Some out_cache_loc \<Rightarrow> Inr (out_cache_loc, state, m1\<lparr>kv_allocator := PagedAlloc s'\<rparr>))
        | _ \<Rightarrow> Inl NotImplementedError)"

definition alloc_paged_token_slots_decode ::
    "kernel_env \<Rightarrow> mem_state \<Rightarrow> nat list \<Rightarrow> int list \<Rightarrow> (int list \<times> mem_state) result" where
  "alloc_paged_token_slots_decode e m seq_lens last_loc =
     bind_r (evict_from_tree_cache m (length seq_lens * allocator_page_size (kv_allocator m))) (\<lambda>m1.
       case kv_allocator m1 of
         PagedAlloc s \<Rightarrow>
           bind_r (alloc_decode (masked_lane e) (out_of_range e) (uninitialised e) s seq_lens last_loc) (\<lambda>(r, s').
             case r of None \<Rightarrow> Inl RuntimeError
             | Some out_cache_loc \<Rightarrow> Inr (out_cache_loc, m1\<lparr>kv_allocator := PagedAlloc s'\<rparr>))
       | _ \<Rightarrow> Inl NotImplementedError)"

definition alloc_req_slots :: "req_pool \<Rightarrow> nat \<Rightarrow> (int list \<times> req_pool) result" where
  "alloc_req_slots p num_reqs =
     (case rp_alloc p num_reqs of (None, _) \<Rightarrow> Inl RuntimeError | (Some idx, p') \<Rightarrow> Inr (idx, p'))"

fun evict_swa_all ::
    "req_pool \<Rightarrow> swa_alloc \<Rightarrow> (req \<times> nat) list \<Rightarrow> nat \<Rightarrow> (swa_alloc \<times> req list) result" where
  "evict_swa_all p a [] chunk = Inr (a, [])"
| "evict_swa_all p a ((r, pre) # rest) chunk =
     bind_r (evict_swa p a r pre chunk) (\<lambda>(a1, r1).
     bind_r (evict_swa_all p a1 rest chunk) (\<lambda>(a2, rs). Inr (a2, r1 # rs)))"

definition drop_window :: "mem_state \<Rightarrow> (req \<times> nat) list \<Rightarrow> nat \<Rightarrow> (mem_state \<times> req list) result" where
  "drop_window m rs chunk =
     (case (tree_cache m, kv_allocator m) of
        (SWAChunk _, SWAAlloc a) \<Rightarrow>
          bind_r (evict_swa_all (req_to_token_pool m) a rs chunk) (\<lambda>(a', rs').
            Inr (m\<lparr>kv_allocator := SWAAlloc a'\<rparr>, rs'))
      | (SWAChunk _, _) \<Rightarrow> Inl AttributeError
      | _ \<Rightarrow> Inr (m, map fst rs))"

definition last_locs :: "int list list \<Rightarrow> int list" where
  "last_locs prefix_tensors = map (\<lambda>t. if t \<noteq> [] then last t else -1) prefix_tensors"

definition alloc_for_extend ::
    "bool \<Rightarrow> kernel_env \<Rightarrow> nat \<Rightarrow> mem_state \<Rightarrow> req list \<Rightarrow> nat list \<Rightarrow> nat list \<Rightarrow> nat list \<Rightarrow> nat \<Rightarrow>
     (int list \<times> int list \<times> req list \<times> mem_state) result" where
  "alloc_for_extend support_triton e chunk m reqs prefix_lens extend_lens seq_lens extend_num_tokens =
     bind_r (drop_window m (zip reqs prefix_lens) chunk) (\<lambda>(m1, reqs1).
     let prefix_tensors = map prefix_indices reqs1
     in bind_r (alloc_req_slots (req_to_token_pool m1) (length reqs1)) (\<lambda>(idx, p1).
        let m2 = m1\<lparr>req_to_token_pool := p1\<rparr>
        in bind_r (if cache_page_size (tree_cache m2) = 1 then alloc_token_slots m2 extend_num_tokens False
             else alloc_paged_token_slots_extend e m2 prefix_lens seq_lens (last_locs prefix_tensors)
                    extend_num_tokens False) (\<lambda>(out_cache_loc, _, m3).
           bind_r (write_cache_indices support_triton (req_to_token_pool m3) (map nat idx) prefix_tensors
                     prefix_lens seq_lens extend_lens out_cache_loc) (\<lambda>p2.
             Inr (out_cache_loc, idx, reqs1, m3\<lparr>req_to_token_pool := p2\<rparr>)))))"

definition gather_points :: "req_pool \<Rightarrow> int list \<Rightarrow> int list \<Rightarrow> int list result" where
  "gather_points p rows cols =
     fold (\<lambda>(r, c) acc. bind_r acc (\<lambda>vs. bind_r (torch_index (length (req_to_token p)) r) (\<lambda>i.
             bind_r (torch_index (length (req_to_token p ! i)) c) (\<lambda>j. Inr (vs @ [req_to_token p ! i ! j])))))
       (zip rows cols) (Inr [])"

definition alloc_for_decode ::
    "kernel_env \<Rightarrow> nat \<Rightarrow> mem_state \<Rightarrow> req list \<Rightarrow> int list \<Rightarrow> nat list \<Rightarrow> nat list option \<Rightarrow> nat \<Rightarrow>
     (int list \<times> req list \<times> mem_state) result" where
  "alloc_for_decode e chunk m reqs req_pool_indices seq_lens encoder_lens token_per_req =
     bind_r (drop_window m (map (\<lambda>r. (r, seqlen r - 1)) reqs) chunk) (\<lambda>(m1, reqs1).
     bind_r (if cache_page_size (tree_cache m1) = 1
        then bind_r (alloc_token_slots m1 (length seq_lens * token_per_req) False) (\<lambda>(out, _, m2). Inr (out, m2))
        else bind_r (gather_points (req_to_token_pool m1) req_pool_indices (map (\<lambda>s. int s - 1) seq_lens)) (\<lambda>last_loc.
             alloc_paged_token_slots_decode e m1 (map (\<lambda>s. s + token_per_req) seq_lens) last_loc)) (\<lambda>(out_cache_loc, m2).
     let locs = (case encoder_lens of None \<Rightarrow> map int seq_lens
                 | Some es \<Rightarrow> map2 (\<lambda>x s. int x + int s) es seq_lens)
     in bind_r (write_points (req_to_token_pool m2) req_pool_indices locs out_cache_loc) (\<lambda>p.
          Inr (out_cache_loc, reqs1, m2\<lparr>req_to_token_pool := p\<rparr>))))"

section \<open>Releasing a request\<close>

definition cache_finished ::
    "nat option \<Rightarrow> mem_state \<Rightarrow> req \<Rightarrow> bool \<Rightarrow> (mem_state \<times> req) result" where
  "cache_finished topk m r is_insert =
     (case tree_cache m of
        RadixTree c \<Rightarrow>
          bind_r (cache_finished_req topk allocator_free c (req_to_token_pool m) (kv_allocator m) r is_insert)
            (\<lambda>(c', p', a', r'). Inr (m\<lparr>tree_cache := RadixTree c', kv_allocator := a', req_to_token_pool := p'\<rparr>, r'))
      | Chunk c \<Rightarrow>
          bind_r (chunk_cache_finished_req topk allocator_free c (req_to_token_pool m) (kv_allocator m) r)
            (\<lambda>(c', p', a', r'). Inr (m\<lparr>tree_cache := Chunk c', kv_allocator := a', req_to_token_pool := p'\<rparr>, r'))
      | SWAChunk c \<Rightarrow>
          bind_r (chunk_cache_finished_req topk allocator_free c (req_to_token_pool m) (kv_allocator m) r)
            (\<lambda>(c', p', a', r'). Inr (m\<lparr>tree_cache := SWAChunk c', kv_allocator := a', req_to_token_pool := p'\<rparr>, r')))"

definition ceil_align :: "nat \<Rightarrow> nat \<Rightarrow> nat" where
  "ceil_align x y = (x + y - 1) div y * y"

text \<open>\<open>spec\<close>: a speculative algorithm is configured; \<open>ps\<close>: the server's page size.\<close>

definition release_kv_cache ::
    "nat option \<Rightarrow> bool \<Rightarrow> nat \<Rightarrow> mem_state \<Rightarrow> req \<Rightarrow> bool \<Rightarrow> (mem_state \<times> req) result" where
  "release_kv_cache topk spec ps m r is_insert =
     bind_r (cache_finished topk m r is_insert) (\<lambda>(m1, r1).
     bind_r (pop_overallocated_kv_cache r1) (\<lambda>((start_p, end_p), r2).
     assert_r (spec \<or> start_p = end_p)
       (let start_p' = (if ps > 1 then ceil_align start_p ps else start_p)
        in if start_p' \<ge> end_p then Inr (m1, r2)
           else bind_r (read_row_slice (req_to_token_pool m1) (req_pool_idx r2) start_p' end_p) (\<lambda>indices_to_free.
                bind_r (allocator_free (kv_allocator m1) indices_to_free) (\<lambda>a'.
                  Inr (m1\<lparr>kv_allocator := a'\<rparr>, r2))))))"

section \<open>The kernel that writes the table\<close>

lemma nested_fold_upt:
  "fold (\<lambda>i m. fold (\<lambda>l m. g (l + i * B) m) [0..<B] m) [0..<k] m = fold g [0..<k * B] (m :: 'a)"
proof (induction k)
  case (Suc k)
  have "[0..<Suc k * B] = [0..<k * B] @ map (\<lambda>l. l + k * B) [0..<B]"
    using upt_add_eq_append [of 0 "k * B" B] by (simp add: map_add_upt add.commute)
  then show ?case using Suc.IH by (simp add: fold_map comp_def)
qed simp

lemma masked_fold_upt:
  assumes "n \<le> K"
  shows "fold (\<lambda>j m. if j < n then g j m else m) [0..<K] m = fold g [0..<n] (m :: 'a)"
proof -
  have "[0..<K] = [0..<n] @ [n..<K]" using assms by (rule upt_split [OF le0])
  moreover have "(\<forall>j \<in> set js. n \<le> j) \<Longrightarrow> fold (\<lambda>j m. if j < n then g j m else m) js m = m" for js m
    by (induction js) auto
  moreover have "fold (\<lambda>j m. if j < n then g j m else m) [0..<n] m = fold g [0..<n] m"
    by (intro fold_cong refl) auto
  ultimately show ?thesis by (metis (no_types, lifting) atLeastLessThan_iff comp_apply fold_append set_upt)
qed

lemma rows_update_length:
  "\<forall>r \<in> set rows. length r = st \<Longrightarrow> length r' = st \<Longrightarrow> \<forall>r \<in> set (rows[i := r']). length r = st"
  by (auto dest!: set_update_subset_insert [THEN subsetD])

lemma block_store_store: "0 < B \<Longrightarrow> block_store B mem base n f = store mem base n f"
  unfolding block_store_def Let_def
    nested_fold_upt [of "\<lambda>j m. if j < n then m[base + j := f j] else m"] store_def
  by (rule masked_fold_upt) (rule ceil_div_mult_ge)

lemma concat_update:
  assumes "\<forall>r \<in> set rows. length r = st" and "i < length rows" and "length r' = st"
  shows "concat (rows[i := r']) = take (i * st) (concat rows) @ r' @ drop (i * st + st) (concat rows)"
  using assms
proof (induction rows arbitrary: i)
  case (Cons r rows)
  then show ?case by (cases i) (auto simp: add.commute)
qed simp

lemma concat_row:
  "\<forall>r \<in> set rows. length r = st \<Longrightarrow> i < length rows \<Longrightarrow> take st (drop (i * st) (concat rows)) = rows ! i"
proof (induction rows arbitrary: i)
  case (Cons r rows)
  then show ?case by (cases i) auto
qed simp

lemma length_concat_rows: "\<forall>r \<in> set rows. length r = st \<Longrightarrow> length (concat rows) = length rows * st"
  by (induction rows) auto

lemma store_row:
  assumes rows: "\<forall>r \<in> set rows. length r = st" and i: "i < length rows" and n: "a + n \<le> st"
  shows "store (concat rows) (i * st + a) n f
    = concat (rows[i := take a (rows ! i) @ map f [0..<n] @ drop (a + n) (rows ! i)])"
proof -
  have "i * st + st \<le> length rows * st" using i by (metis Suc_leI add.commute mult_Suc mult_le_mono1)
  then have len: "i * st + a + n \<le> length (concat rows)" using n length_concat_rows [OF rows] by linarith
  let ?c = "concat rows" and ?r = "rows ! i"
  have r: "?r = take st (drop (i * st) ?c)" using concat_row [OF rows i] by simp
  have "take (i * st + a) ?c = take (i * st) ?c @ take a ?r" using n by (simp add: r take_add min_def)
  moreover have "drop (i * st + a + n) ?c = drop (a + n) ?r @ drop (i * st + st) ?c"
  proof -
    have "drop (i * st) ?c = ?r @ drop (i * st + st) ?c" using r by (metis append_take_drop_id add.commute drop_drop)
    then have "drop (a + n) (drop (i * st) ?c) = drop (a + n) (?r @ drop (i * st + st) ?c)" by (rule arg_cong)
    moreover have "length ?r = st" using rows i by simp
    ultimately show ?thesis using n by (simp add: ac_simps)
  qed
  ultimately show ?thesis
    using concat_update [OF rows i, of "take a ?r @ map f [0..<n] @ drop (a + n) ?r"] store_eq [OF len, of f] rows i n
    by simp
qed

lemma rows_of_concat: "\<forall>r \<in> set rows. length r = st \<Longrightarrow> rows_of (length rows) st (concat rows) = rows"
  by (induction rows) auto

text \<open>What one program does to the rows.\<close>

definition row_update ::
    "nat list \<Rightarrow> int list list \<Rightarrow> nat list \<Rightarrow> nat list \<Rightarrow> nat list \<Rightarrow> int list \<Rightarrow> nat \<Rightarrow> int list list \<Rightarrow> int list list" where
  "row_update idx pts pre seq ext out i rows =
     rows[idx ! i := map to_int32 (pts ! i) @ map to_int32 (take (ext ! i) (drop (sum_list (take i ext)) out))
       @ drop (seq ! i) (rows ! (idx ! i))]"

definition batch_ok :: "nat \<Rightarrow> int list list \<Rightarrow> nat list \<Rightarrow> int list list \<Rightarrow> nat list \<Rightarrow> nat list \<Rightarrow> nat list \<Rightarrow> int list \<Rightarrow> bool" where
  "batch_ok st rows idx pts pre seq ext out \<longleftrightarrow> (\<forall>r \<in> set rows. length r = st) \<and>
     length pts = length idx \<and> length pre = length idx \<and> length seq = length idx \<and> length ext = length idx \<and>
     sum_list ext = length out \<and> (\<forall>i < length idx. idx ! i < length rows \<and> length (pts ! i) = pre ! i \<and>
       pre ! i \<le> seq ! i \<and> seq ! i \<le> st \<and> ext ! i = seq ! i - pre ! i)"

lemma batch_okD:
  assumes "batch_ok st rows idx pts pre seq ext out" and "i < length idx"
  shows "idx ! i < length rows" "length (pts ! i) = pre ! i" "pre ! i \<le> seq ! i" "seq ! i \<le> st"
    "ext ! i = seq ! i - pre ! i" "length (take (ext ! i) (drop (sum_list (take i ext)) out)) = ext ! i"
    "length (rows ! (idx ! i)) = st" "sum_list (take i ext) + ext ! i \<le> length out"
proof -
  show i: "idx ! i < length rows" "length (pts ! i) = pre ! i" "pre ! i \<le> seq ! i" "seq ! i \<le> st"
    "ext ! i = seq ! i - pre ! i" "length (rows ! (idx ! i)) = st"
    using assms by (auto simp: batch_ok_def)
  have e: "length ext = length idx" "sum_list ext = length out" using assms(1) by (simp_all add: batch_ok_def)
  have "sum_list ext = sum_list (take i ext) + (ext ! i + sum_list (drop (Suc i) ext))"
    using e(1) assms(2) by (metis append_take_drop_id Cons_nth_drop_Suc sum_list.Cons sum_list.append)
  then show "sum_list (take i ext) + ext ! i \<le> length out"
    and "length (take (ext ! i) (drop (sum_list (take i ext)) out)) = ext ! i" using e(2) by simp_all
qed

lemma batch_ok_update:
  assumes "batch_ok st rows idx pts pre seq ext out" and "i < length idx"
  shows "batch_ok st (row_update idx pts pre seq ext out i rows) idx pts pre seq ext out"
proof -
  note d = batch_okD [OF assms]
  have "length (map to_int32 (pts ! i) @ map to_int32 (take (ext ! i) (drop (sum_list (take i ext)) out))
       @ drop (seq ! i) (rows ! (idx ! i))) = st" using d by simp
  then have "\<forall>r \<in> set (row_update idx pts pre seq ext out i rows). length r = st"
    unfolding row_update_def using assms(1) by (intro rows_update_length) (simp_all add: batch_ok_def)
  moreover have "length (row_update idx pts pre seq ext out i rows) = length rows" by (simp add: row_update_def)
  ultimately show ?thesis using assms(1) unfolding batch_ok_def by (elim conjE) (intro conjI; simp only:)
qed

lemma kernel_row_update:
  assumes "batch_ok st rows idx pts pre seq ext out" and "i < length idx"
  shows "write_req_to_token_pool_triton idx pts pre seq ext out st i (concat rows)
    = concat (row_update idx pts pre seq ext out i rows)"
proof -
  note d = batch_okD [OF assms]
  have rows: "\<forall>r \<in> set rows. length r = st" using assms(1) by (simp add: batch_ok_def)
  let ?r = "rows ! (idx ! i)" and ?cs = "sum_list (take i ext)"
  have cs: "fold (\<lambda>i acc. acc + ext ! i) [0..<i] 0 = ?cs"
  proof -
    have "i \<le> length ext" using assms by (simp add: batch_ok_def)
    then show ?thesis
    proof (induction i)
      case (Suc i)
      then show ?case by (simp add: take_Suc_conv_app_nth)
    qed simp
  qed
  let ?r1 = "map (\<lambda>j. to_int32 (pts ! i ! j)) [0..<pre ! i] @ drop (pre ! i) ?r"
  have m1: "map (\<lambda>j. to_int32 (pts ! i ! j)) [0..<pre ! i] = map to_int32 (pts ! i)"
    using d(2) by (intro nth_equalityI) auto
  have "store (concat rows) (idx ! i * st) (pre ! i) (\<lambda>j. to_int32 (pts ! i ! j)) = concat (rows[idx ! i := ?r1])"
    using store_row [OF rows d(1), of 0 "pre ! i"] d(3,4) by simp
  moreover have "\<forall>r \<in> set (rows[idx ! i := ?r1]). length r = st"
    using d by (intro rows_update_length [OF rows]) simp
  from store_row [OF this, of "idx ! i" "pre ! i" "seq ! i - pre ! i" "\<lambda>j. to_int32 (out ! (?cs + j))"]
  have "store (concat (rows[idx ! i := ?r1])) (idx ! i * st + pre ! i) (seq ! i - pre ! i) (\<lambda>j. to_int32 (out ! (?cs + j)))
     = concat (rows[idx ! i := map to_int32 (pts ! i) @ map (\<lambda>j. to_int32 (out ! (?cs + j))) [0..<ext ! i] @ drop (seq ! i) ?r])"
    using d by (simp add: m1)
  moreover have "map (\<lambda>j. to_int32 (out ! (?cs + j))) [0..<ext ! i] = map to_int32 (take (ext ! i) (drop ?cs out))"
    using d(6,8) by (intro nth_equalityI) auto
  ultimately show ?thesis
    by (simp add: write_req_to_token_pool_triton_def Let_def cs block_store_store BLOCK_SIZE_def row_update_def)
qed

lemma launch_rows:
  assumes "batch_ok st rows idx pts pre seq ext out" and "k \<le> length idx"
  shows "fold (write_req_to_token_pool_triton idx pts pre seq ext out st) [0..<k] (concat rows)
      = concat (fold (row_update idx pts pre seq ext out) [0..<k] rows) \<and>
    batch_ok st (fold (row_update idx pts pre seq ext out) [0..<k] rows) idx pts pre seq ext out"
  using assms(2)
proof (induction k)
  case (Suc k)
  then show ?case using kernel_row_update [of st _ idx pts pre seq ext out k] batch_ok_update [of st _ idx pts pre seq ext out k] by simp
qed (use assms(1) in simp)

lemma torch_rows:
  assumes "batch_ok st (req_to_token p) idx pts pre seq ext out" and "k \<le> length idx"
  shows "write_cache_indices_torch p (drop k idx) (drop k pts) (drop k pre) (drop k seq) (drop k ext) out
      (sum_list (take k ext))
    = Inr (p\<lparr>req_to_token := fold (row_update idx pts pre seq ext out) [k..<length idx] (req_to_token p)\<rparr>)"
  using assms
proof (induction "length idx - k" arbitrary: k p)
  case 0
  then show ?case by simp
next
  case (Suc n)
  then have k: "k < length idx" by simp
  note d = batch_okD [OF Suc.prems(1) k]
  have l: "length pts = length idx" "length pre = length idx" "length seq = length idx" "length ext = length idx"
    using Suc.prems(1) by (simp_all add: batch_ok_def)
  let ?i = "idx ! k" and ?r = "req_to_token p ! (idx ! k)" and ?ch = "take (ext ! k) (drop (sum_list (take k ext)) out)"
  let ?p1 = "p\<lparr>req_to_token := (req_to_token p)[?i := map to_int32 (pts ! k) @ drop (pre ! k) ?r]\<rparr>"
  let ?p2 = "p\<lparr>req_to_token := row_update idx pts pre seq ext out k (req_to_token p)\<rparr>"
  have w1: "write_slice p (int ?i) 0 (int (pre ! k)) (pts ! k) = Inr ?p1"
    using write_slice_exact [of p "int ?i" 0 "pre ! k" "pts ! k"] d by (simp add: row_ok_def row_of_def)
  have w2: "write_slice ?p1 (int ?i) (int (pre ! k)) (int (seq ! k)) ?ch = Inr ?p2"
    using write_slice_exact [of ?p1 "int ?i" "pre ! k" "seq ! k" ?ch] d
    by (simp add: row_ok_def row_of_def row_update_def)
  have "write_cache_indices_torch p (drop k idx) (drop k pts) (drop k pre) (drop k seq) (drop k ext) out (sum_list (take k ext))
     = write_cache_indices_torch ?p2 (drop (Suc k) idx) (drop (Suc k) pts) (drop (Suc k) pre) (drop (Suc k) seq)
         (drop (Suc k) ext) out (sum_list (take (Suc k) ext))"
    using k l w1 w2 by (simp add: Cons_nth_drop_Suc [symmetric] take_Suc_conv_app_nth)
  also have "\<dots> = Inr (p\<lparr>req_to_token := fold (row_update idx pts pre seq ext out) [Suc k..<length idx]
      (row_update idx pts pre seq ext out k (req_to_token p))\<rparr>)"
    using Suc.hyps(1) [of "Suc k" ?p2] Suc.hyps(2) batch_ok_update [OF Suc.prems(1) k] k by simp
  finally show ?case using k by (simp add: upt_conv_Cons)
qed

lemma fold_row_update:
  assumes ok: "batch_ok st rows idx pts pre seq ext out" and d: "distinct idx" and "k \<le> length idx"
  shows "(\<forall>i < k. fold (row_update idx pts pre seq ext out) [0..<k] rows ! (idx ! i)
      = map to_int32 (pts ! i) @ map to_int32 (take (ext ! i) (drop (sum_list (take i ext)) out))
        @ drop (seq ! i) (rows ! (idx ! i))) \<and>
    (\<forall>j. j \<notin> set (take k idx) \<longrightarrow> fold (row_update idx pts pre seq ext out) [0..<k] rows ! j = rows ! j)"
  using assms(3)
proof (induction k)
  case (Suc k)
  let ?R = "fold (row_update idx pts pre seq ext out) [0..<k] rows"
  have k: "k < length idx" using Suc.prems by simp
  have len: "length ?R = length rows"
    by (induction k) (simp_all add: row_update_def)
  have nk: "idx ! k \<notin> set (take k idx)" using d k by (auto simp: in_set_conv_nth nth_eq_iff_index_eq)
  have ik: "idx ! i \<noteq> idx ! k" if "i < k" for i using d k that by (simp add: nth_eq_iff_index_eq)
  have tk: "set (take (Suc k) idx) = Set.insert (idx ! k) (set (take k idx))" using k by (simp add: take_Suc_conv_app_nth)
  have "?R ! (idx ! k) = rows ! (idx ! k)" using Suc nk by simp
  moreover have "idx ! k < length ?R" using batch_okD(1) [OF ok k] len by simp
  moreover have "fold (row_update idx pts pre seq ext out) [0..<Suc k] rows = row_update idx pts pre seq ext out k ?R" by simp
  moreover have "\<forall>i < k. ?R ! (idx ! i)
      = map to_int32 (pts ! i) @ map to_int32 (take (ext ! i) (drop (sum_list (take i ext)) out))
        @ drop (seq ! i) (rows ! (idx ! i))" "\<forall>j. j \<notin> set (take k idx) \<longrightarrow> ?R ! j = rows ! j"
    using Suc by simp_all
  ultimately show ?case
    unfolding row_update_def [of idx pts pre seq ext out k] tk using ik by (simp add: less_Suc_eq) (metis nth_list_update_neq)
qed simp

section \<open>Eviction through the memory state\<close>

lemma evict_loop_hom:
  assumes "\<And>a v. free (h a) v = bind_r (free' a v) (\<lambda>a'. Inr (h a'))"
  shows "evict_loop fuel free num c (h a) heap ev
    = bind_r (evict_loop fuel free' num c a heap ev) (\<lambda>(n, c', a'). Inr (n, c', h a'))"
proof (induction fuel arbitrary: c a heap ev)
  case 0
  show ?case by (subst (1 2) evict_loop.simps) simp
next
  case (Suc fuel)
  show ?case
    by (subst (1 2) evict_loop.simps)
      (auto simp: bind_r_def Let_def assms Suc.IH split: sum.splits option.splits prod.splits)
qed

lemma evict_hom:
  assumes "\<And>a v. free (h a) v = bind_r (free' a v) (\<lambda>a'. Inr (h a'))"
  shows "evict free c (h a) num = bind_r (evict free' c a num) (\<lambda>(c', a'). Inr (c', h a'))"
  by (auto simp: evict_def evict_loop_hom [of free h free', OF assms] bind_r_def split: sum.splits prod.splits)

lemma evict_token:
  assumes inv: "rc_inv c L" and en: "\<not> disable c" and s: "token_invar s"
  shows "\<exists>c' s'. evict allocator_free c (TokenAlloc s) num = Inr (c', TokenAlloc s') \<and> rc_inv c' L \<and> token_invar s' \<and>
    conf c' = conf c \<and> token_slots s' + tree_slots c' = token_slots s + tree_slots c \<and> token_slots s \<subseteq># token_slots s' \<and>
    evictable_size c' \<ge> 0 \<and> int (size (token_slots s')) + evictable_size c' = int (size (token_slots s)) + evictable_size c \<and>
    (num \<le> int (size (token_slots s')) \<or> evictable_size c' = 0)"
proof -
  have hom: "allocator_free (TokenAlloc s) v = bind_r (Inr (token_free s v)) (\<lambda>s'. Inr (TokenAlloc s'))" for s v by simp
  obtain xs c' where e: "evict (\<lambda>s v. Inr (token_free s v)) c s num = Inr (c', fold (\<lambda>x s. token_free s (slots_of c x)) xs s)"
    "evict_run c xs c'" "num \<le> int (length (concat (map (slots_of c) xs))) \<or> unlocked_leaves c' = {}"
    by (rule evict_spec [OF inv en, where free = "\<lambda>s v. Inr (token_free s v)" and fr = token_free and a = s and num = num]) auto
  let ?s' = "fold (\<lambda>x s. token_free s (slots_of c x)) xs s"
  have s': "token_invar ?s' \<and> token_slots ?s' = token_slots s + mset (concat (map (slots_of c) xs))"
  proof (induction xs rule: rev_induct)
    case (snoc x xs)
    then show ?case using tok.free_slots [of "fold (\<lambda>x s. token_free s (slots_of c x)) xs s" "slots_of c x"] by simp
  qed (simp add: s)
  note r = evict_run_spec [OF e(2) inv]
  have "evictable_size c' \<ge> 0"
    using r by (auto simp: rc_inv_def size_inv_def live_sum_def unlocked_len_def node_len_def intro!: sum_nonneg)
  moreover have "evict allocator_free c (TokenAlloc s) num = Inr (c', TokenAlloc ?s')"
    using evict_hom [of allocator_free TokenAlloc, OF hom, of c s num] e(1) by simp
  moreover have "int (size (token_slots ?s')) + evictable_size c' = int (size (token_slots s)) + evictable_size c"
    using s' r by simp
  moreover have "num \<le> int (size (token_slots ?s')) \<or> evictable_size c' = 0"
    using e(3) s' no_unlocked_leaves(1) [of c' L] r by auto
  ultimately show ?thesis using s' r by (intro exI [of _ c'] exI [of _ ?s']) (simp add: ac_simps)
qed

section \<open>Writing and allocating for a batch\<close>

lemma write_cache_indices_spec:
  assumes "batch_ok st (req_to_token p) idx pts pre seq ext out" and "req_to_token p \<noteq> []" and "distinct idx"
  shows "\<exists>p'. write_cache_indices True p idx pts pre seq ext out = Inr p' \<and>
    write_cache_indices False p idx pts pre seq ext out = Inr p' \<and>
    (\<forall>i < length idx. req_to_token p' ! (idx ! i)
      = map to_int32 (pts ! i) @ map to_int32 (take (ext ! i) (drop (sum_list (take i ext)) out))
        @ drop (seq ! i) (req_to_token p ! (idx ! i))) \<and>
    (\<forall>j. j \<notin> set idx \<longrightarrow> req_to_token p' ! j = req_to_token p ! j)"
proof -
  let ?R = "fold (row_update idx pts pre seq ext out) [0..<length idx] (req_to_token p)"
  have rows: "\<forall>r \<in> set (req_to_token p). length r = st" using assms(1) by (simp add: batch_ok_def)
  then have st: "length (hd (req_to_token p)) = st" using assms(2) by simp
  note la = launch_rows [OF assms(1) order_refl]
  have len: "length ?R = length (req_to_token p)"
  proof -
    have "length (fold (row_update idx pts pre seq ext out) js rows) = length rows" for js rows
      by (induction js arbitrary: rows) (simp_all add: row_update_def)
    then show ?thesis .
  qed
  have "rows_of (length (req_to_token p)) st (concat ?R) = ?R"
    using rows_of_concat [of ?R st] la len by (simp add: batch_ok_def)
  then have "write_cache_indices True p idx pts pre seq ext out = Inr (p\<lparr>req_to_token := ?R\<rparr>)"
    using la by (simp add: write_cache_indices_def launch_write_def Let_def st)
  moreover have "write_cache_indices False p idx pts pre seq ext out = Inr (p\<lparr>req_to_token := ?R\<rparr>)"
    using torch_rows [OF assms(1), of 0] by (simp add: write_cache_indices_def)
  ultimately show ?thesis using fold_row_update [OF assms(1,3) order_refl] by auto
qed

text \<open>
  \<open>token_mem m c s L\<close>: the memory is a radix tree \<open>c\<close> with locks \<open>L\<close> over a token allocator \<open>s\<close>.
  \<open>mem_tokens\<close> is what can be allocated: free or evictable.
\<close>

definition token_mem :: "mem_state \<Rightarrow> radix_cache \<Rightarrow> kv_alloc \<Rightarrow> nat multiset \<Rightarrow> bool" where
  "token_mem m c s L \<longleftrightarrow> tree_cache m = RadixTree c \<and> kv_allocator m = TokenAlloc s \<and> rc_inv c L \<and> \<not> disable c \<and>
     token_invar s"

definition mem_tokens :: "radix_cache \<Rightarrow> kv_alloc \<Rightarrow> int" where
  "mem_tokens c s = int (token_available_size s) + evictable_size c"

lemma token_memD:
  assumes "token_mem m c s L"
  shows "tree_cache m = RadixTree c" "kv_allocator m = TokenAlloc s" "rc_inv c L" "\<not> disable c" "token_invar s"
    "token_available_size s = size (token_slots s)" "0 \<le> evictable_size c"
proof -
  show *: "tree_cache m = RadixTree c" "kv_allocator m = TokenAlloc s" "rc_inv c L" "\<not> disable c" "token_invar s"
    using assms by (simp_all add: token_mem_def)
  show "token_available_size s = size (token_slots s)" by (rule tok.avail_slots [OF *(5)])
  show "0 \<le> evictable_size c"
    using *(3) by (auto simp: rc_inv_def size_inv_def live_sum_def unlocked_len_def node_len_def intro!: sum_nonneg)
qed

lemma evict_from_tree_cache_token:
  assumes "token_mem m c s L"
  shows "\<exists>c' s'. evict_from_tree_cache m n = Inr (m\<lparr>tree_cache := RadixTree c', kv_allocator := TokenAlloc s'\<rparr>) \<and>
    token_mem (m\<lparr>tree_cache := RadixTree c', kv_allocator := TokenAlloc s'\<rparr>) c' s' L \<and> conf c' = conf c \<and>
    token_slots s' + tree_slots c' = token_slots s + tree_slots c \<and> mem_tokens c' s' = mem_tokens c s \<and>
    token_available_size s \<le> token_available_size s' \<and> (n \<le> token_available_size s' \<or> evictable_size c' = 0)"
proof (cases "token_available_size s < n")
  case True
  note d = token_memD [OF assms]
  obtain c' s' where e: "evict allocator_free c (TokenAlloc s) (int n) = Inr (c', TokenAlloc s')" "rc_inv c' L" "token_invar s'"
    "conf c' = conf c" "token_slots s' + tree_slots c' = token_slots s + tree_slots c" "token_slots s \<subseteq># token_slots s'"
    "int (size (token_slots s')) + evictable_size c' = int (size (token_slots s)) + evictable_size c"
    "n \<le> size (token_slots s') \<or> evictable_size c' = 0"
    using evict_token [OF d(3,4,5), of "int n"] by auto
  have m: "token_mem (m\<lparr>tree_cache := RadixTree c', kv_allocator := TokenAlloc s'\<rparr>) c' s' L"
    using e conf_eqD [OF e(4)] d(4) by (simp add: token_mem_def)
  note d' = token_memD [OF m]
  show ?thesis
    using True e m d d' size_mset_mono [OF e(6)]
    by (intro exI [of _ c'] exI [of _ s']) (simp add: evict_from_tree_cache_def mem_tokens_def)
next
  case False
  then show ?thesis
    using assms token_memD [OF assms]
    by (intro exI [of _ c] exI [of _ s]) (simp add: evict_from_tree_cache_def token_mem_def)
qed

lemma alloc_token_slots_spec:
  assumes mem: "token_mem m c s L"
  shows "if int n \<le> mem_tokens c s
    then \<exists>out st c' s'. alloc_token_slots m n backup
        = Inr (out, st, m\<lparr>tree_cache := RadixTree c', kv_allocator := TokenAlloc s'\<rparr>) \<and>
      token_mem (m\<lparr>tree_cache := RadixTree c', kv_allocator := TokenAlloc s'\<rparr>) c' s' L \<and> conf c' = conf c \<and>
      length out = n \<and> mset out + token_slots s' + tree_slots c' = token_slots s + tree_slots c
    else alloc_token_slots m n backup = Inl RuntimeError"
proof -
  obtain c' s' where e: "evict_from_tree_cache m n = Inr (m\<lparr>tree_cache := RadixTree c', kv_allocator := TokenAlloc s'\<rparr>)"
    "token_mem (m\<lparr>tree_cache := RadixTree c', kv_allocator := TokenAlloc s'\<rparr>) c' s' L" "conf c' = conf c"
    "token_slots s' + tree_slots c' = token_slots s + tree_slots c" "mem_tokens c' s' = mem_tokens c s"
    "n \<le> token_available_size s' \<or> evictable_size c' = 0"
    using evict_from_tree_cache_token [OF mem] by blast
  note d = token_memD [OF e(2)]
  have gran: "kv_page_size s' dvd n" using d(5) by (simp add: token_invar_def)
  obtain r s'' where al: "token_alloc s' n = (r, s'')" by fastforce
  show ?thesis
  proof (cases r)
    case None
    then have "\<not> n \<le> token_available_size s'" using tok.alloc_enough [OF d(5) gran] al by auto
    moreover from this have "\<not> int n \<le> mem_tokens c s" using e(5,6) by (simp add: mem_tokens_def)
    ultimately show ?thesis using al e(1) None by (simp add: alloc_token_slots_def)
  next
    case (Some out)
    note t = tok.alloc_Some [OF d(5) gran al [unfolded Some]]
    have "n \<le> size (token_slots s')" using t by (metis size_mset size_union le_add1)
    then have "int n \<le> mem_tokens c s" using d(6,7) e(5) by (simp add: mem_tokens_def)
    moreover have "mset out + token_slots s'' + tree_slots c' = token_slots s + tree_slots c" using t e(4) by simp
    moreover have "token_mem (m\<lparr>tree_cache := RadixTree c', kv_allocator := TokenAlloc s''\<rparr>) c' s'' L"
      using d t by (simp add: token_mem_def)
    moreover have "alloc_token_slots m n backup = Inr (out, if backup then Some (allocator_backup_state (TokenAlloc s')) else None,
        m\<lparr>tree_cache := RadixTree c', kv_allocator := TokenAlloc s''\<rparr>)"
      using al e(1) Some by (simp add: alloc_token_slots_def)
    ultimately show ?thesis using t e(3) by auto
  qed
qed

section \<open>Properties\<close>

text \<open>
  (C26) The Triton kernel is equivalent to the reference loop: for a batch whose rows fit, both ways of
  writing the request table give the same table, and when the rows are distinct, the row of each request
  then holds its prefix slots followed by its share of the newly allocated slots, while all other rows
  are untouched.
\<close>

theorem write_cache_indices_correct:
  assumes "batch_ok st (req_to_token p) idx pts pre seq ext out" and "req_to_token p \<noteq> []" and "distinct idx"
  shows "\<exists>p'. write_cache_indices True p idx pts pre seq ext out = Inr p' \<and>
    write_cache_indices False p idx pts pre seq ext out = Inr p' \<and>
    (\<forall>i < length idx. req_to_token p' ! (idx ! i)
      = map to_int32 (pts ! i) @ map to_int32 (take (ext ! i) (drop (sum_list (take i ext)) out))
        @ drop (seq ! i) (req_to_token p ! (idx ! i))) \<and>
    (\<forall>j. j \<notin> set idx \<longrightarrow> req_to_token p' ! j = req_to_token p ! j)"
  by (rule write_cache_indices_spec [OF assms])

theorem write_cache_indices_correct_witness:
  "\<exists>p'. write_cache_indices True demo_pool [0] [[21, 22]] [2] [3] [1] [9] = Inr p' \<and>
    write_cache_indices False demo_pool [0] [[21, 22]] [2] [3] [1] [9] = Inr p' \<and>
    req_to_token p' ! 0 = [21, 22, 9, 0]"
  using write_cache_indices_correct [of 4 demo_pool "[0]" "[[21, 22]]" "[2]" "[3]" "[1]" "[9]"]
  by (auto simp: demo_pool_def batch_ok_def)

text \<open>
  (C24) Allocating token slots succeeds exactly when it can: with a radix cache, \<open>alloc_token_slots\<close>
  returns the demanded number of slots, evicting what is missing, whenever free and evictable tokens
  suffice, and raises otherwise. A successful call conserves every slot: what was free or cached is now
  handed out, free or cached.
\<close>

theorem alloc_token_slots_exact:
  assumes "rc_inv c L" and "\<not> disable c" and "token_invar s"
    and "tree_cache m = RadixTree c" and "kv_allocator m = TokenAlloc s"
  shows "if int n \<le> int (token_available_size s) + evictable_size c
    then \<exists>out st c' s'. alloc_token_slots m n backup
        = Inr (out, st, m\<lparr>tree_cache := RadixTree c', kv_allocator := TokenAlloc s'\<rparr>) \<and>
      length out = n \<and> mset out + token_slots s' + tree_slots c' = token_slots s + tree_slots c \<and>
      rc_inv c' L \<and> token_invar s'
    else alloc_token_slots m n backup = Inl RuntimeError"
proof -
  have m: "token_mem m c s L" using assms by (simp add: token_mem_def)
  show ?thesis
    using alloc_token_slots_spec [OF m, of n backup] by (fastforce simp: mem_tokens_def token_mem_def split: if_splits)
qed

theorem alloc_token_slots_exact_witness:
  "\<exists>c out st m'. demo_radix = Inr c \<and> alloc_token_slots \<lparr>tree_cache = RadixTree c,
     kv_allocator = TokenAlloc (token_init 4 False), req_to_token_pool = demo_pool\<rparr> 3 False = Inr (out, st, m') \<and> length out = 3"
proof -
  obtain c where c: "demo_radix = Inr c" "rc_inv c {#}" "\<not> disable c" by (rule demo_radix_ok) blast
  have "evictable_size c = 0" using radix_init_spec(6) [OF c(1) [unfolded demo_radix_def]] by simp
  then show ?thesis
    using c(1) alloc_token_slots_exact [OF c(2,3) token_init_invar [of 4 False],
        of "\<lparr>tree_cache = RadixTree c, kv_allocator = TokenAlloc (token_init 4 False), req_to_token_pool = demo_pool\<rparr>" 3 False]
    by (fastforce simp: token_available_size_def token_init_def token_clear_def)
qed

text \<open>
  A request is released once: after \<open>release_kv_cache\<close> has succeeded, releasing the same request
  again raises an assertion error in every state of the memory, before any slot is returned.
\<close>

lemma release_once:
  assumes "topk = None \<or> topk = Some 1" and "release_kv_cache topk spec ps m r is_insert = Inr (m', r')"
  shows "release_kv_cache topk spec ps m'' r' is_insert' = Inl AssertionError"
proof -
  have pop: "kv_committed_freed r2" if "pop_committed_kv_cache topk r1 = Inr (k, r2)" for r1 r2 k
    using that assms(1) by (auto simp: pop_committed_kv_cache_def assert_r_eq_Inr)
  have "kv_committed_freed r1" if "cache_finished topk m r is_insert = Inr (m1, r1)" for m1 r1
    using that by (auto simp: cache_finished_def cache_finished_req_def chunk_cache_finished_req_def bind_r_eq_Inr Let_def
        intro: pop split: prefix_cache.splits if_splits)
  then have "kv_committed_freed r'"
    using assms(2) by (auto simp: release_kv_cache_def bind_r_eq_Inr pop_overallocated_kv_cache_def assert_r_eq_Inr Let_def
        split: if_splits)
  then have "pop_committed_kv_cache topk r' = Inl AssertionError"
    using assms(1) by (auto simp: pop_committed_kv_cache_def assert_r_def)
  then show ?thesis
    by (simp add: release_kv_cache_def cache_finished_def cache_finished_req_def chunk_cache_finished_req_def
        split: prefix_cache.split)
qed

end
