(* ===== verification/Schedule_Policy.thy ===== *)
theory Schedule_Policy
  imports Cache_Common
begin

text \<open>
  The order of the waiting queue, \<^verbatim>\<open>SchedulePolicy\<close> of \<^verbatim>\<open>managers/schedule_policy.py\<close>: policies,
  prefix matching of the whole queue with in-batch prefix caching, and the five sorts. Python's sort is
  stable, as is \<open>sort_key\<close>. The claims are that sorting loses and duplicates no request under any policy
  and that the longest-prefix order is the promised one.
\<close>

section \<open>Policies\<close>

datatype policy = LPM | DFS_WEIGHT | FCFS | LOF | RANDOM

definition cache_aware :: "policy \<Rightarrow> bool" where
  "cache_aware p \<longleftrightarrow> p = LPM \<or> p = DFS_WEIGHT"

text \<open>The module reads its thresholds from the environment, with these defaults.\<close>

record sched_env =
  CLIP_MAX_NEW_TOKENS :: int
  CHECK_THRESHOLD :: int
  DEPRIORITIZE_THRESHOLD :: int

definition default_env :: sched_env where
  "default_env = \<lparr>CLIP_MAX_NEW_TOKENS = 4096, CHECK_THRESHOLD = 32, DEPRIORITIZE_THRESHOLD = 32\<rparr>"

record schedule_policy =
  active_policy :: policy
  enable_hierarchical_cache :: bool
  enable_priority_scheduling :: bool
  schedule_low_priority_values_first :: bool
  waiting_queue_radix_tree :: radix_cache

fun cache_disabled :: "prefix_cache \<Rightarrow> bool" where
  "cache_disabled (RadixTree c) = disable c"
| "cache_disabled (Chunk c) = chunk_disable c"
| "cache_disabled (SWAChunk c) = chunk_disable c"

definition validate_and_adjust_policy :: "string \<Rightarrow> prefix_cache \<Rightarrow> policy result" where
  "validate_and_adjust_policy name t =
     (if name = ''lpm'' then Inr (if cache_disabled t then FCFS else LPM)
      else if name = ''dfs-weight'' then Inr (if cache_disabled t then FCFS else DFS_WEIGHT)
      else if name = ''fcfs'' then Inr FCFS
      else if name = ''lof'' then Inr LOF
      else if name = ''random'' then Inr RANDOM
      else Inl ValueError)"

definition schedule_policy_init ::
    "string \<Rightarrow> prefix_cache \<Rightarrow> bool \<Rightarrow> bool \<Rightarrow> bool \<Rightarrow> (nat \<Rightarrow> int) \<Rightarrow> (token list \<Rightarrow> int) \<Rightarrow> schedule_policy result" where
  "schedule_policy_init name t hier prio low clk h =
     bind_r (validate_and_adjust_policy name t) (\<lambda>p.
     bind_r (radix_init 1 False False ''lru'' False clk h) (\<lambda>w.
       Inr \<lparr>active_policy = p, enable_hierarchical_cache = hier, enable_priority_scheduling = prio,
            schedule_low_priority_values_first = low, waiting_queue_radix_tree = w\<rparr>))"

definition determine_active_policy :: "schedule_policy \<Rightarrow> req list \<Rightarrow> policy" where
  "determine_active_policy sp queue =
     (if active_policy sp = LPM \<and> 128 < length queue then FCFS else active_policy sp)"

section \<open>Prefix matches of the queue\<close>

fun cache_match :: "prefix_cache \<Rightarrow> radix_key \<Rightarrow> (match_result \<times> prefix_cache) result" where
  "cache_match (RadixTree c) k =
     bind_r (match_prefix c k) (\<lambda>(vs, n, c').
       Inr (\<lparr>device_indices = vs, last_device_node = Some n, mr_last_host_node = Some n,
             mr_host_hit_length = 0\<rparr>, RadixTree c'))"
| "cache_match (Chunk c) k = bind_r (chunk_match_prefix c k) (\<lambda>(m, c'). Inr (m, Chunk c'))"
| "cache_match (SWAChunk c) k = bind_r (chunk_match_prefix c k) (\<lambda>(m, c'). Inr (m, SWAChunk c'))"

definition apply_match :: "req \<Rightarrow> match_result \<Rightarrow> req" where
  "apply_match r m = r\<lparr>prefix_indices := device_indices m, last_node := last_device_node m,
     last_host_node := mr_last_host_node m, host_hit_length := mr_host_hit_length m\<rparr>"

definition queue_key :: "req \<Rightarrow> radix_key" where
  "queue_key r = \<lparr>token_ids = map TInt (origin_input_ids r @ output_ids r), extra_key = req_extra_key r\<rparr>"

text \<open>
  The in-batch check of one request against the tree of the queue. The inserted value is an
  uninitialised tensor, read from \<open>u\<close>; only its length matters.
\<close>

definition in_batch_check ::
    "sched_env \<Rightarrow> (nat \<Rightarrow> int) \<Rightarrow> req \<Rightarrow> string set \<Rightarrow> radix_cache \<Rightarrow> (string set \<times> radix_cache) result" where
  "in_batch_check e u r D w =
     (if int (length (prefix_indices r)) \<le> CHECK_THRESHOLD e
      then bind_r (match_prefix w (queue_key r)) (\<lambda>(vs, _, w1).
           if int (length vs) \<ge> DEPRIORITIZE_THRESHOLD e then Inr (Set.insert (rid r) D, w1)
           else bind_r (rc_insert w1 (queue_key r) (Some (map u [0..<length (token_ids (queue_key r))]))) (\<lambda>(_, w2).
                Inr (D, w2)))
      else Inr (D, w))"

fun match_queue ::
    "sched_env \<Rightarrow> (nat \<Rightarrow> int) \<Rightarrow> prefix_cache \<Rightarrow> radix_cache \<Rightarrow> string set \<Rightarrow> req list \<Rightarrow>
     (req list \<times> string set \<times> prefix_cache \<times> radix_cache) result" where
  "match_queue e u t w D [] = Inr ([], D, t, w)"
| "match_queue e u t w D (r # rs) =
     bind_r (cache_match t (queue_key r)) (\<lambda>(m, t1).
     bind_r (in_batch_check e u (apply_match r m) D w) (\<lambda>(D1, w1).
     bind_r (match_queue e u t1 w1 D1 rs) (\<lambda>(rs', D', t', w').
       Inr (apply_match r m # rs', D', t', w'))))"

definition compute_prefix_matches ::
    "sched_env \<Rightarrow> (nat \<Rightarrow> int) \<Rightarrow> schedule_policy \<Rightarrow> prefix_cache \<Rightarrow> req list \<Rightarrow>
     (req list \<times> string set \<times> schedule_policy \<times> prefix_cache) result" where
  "compute_prefix_matches e u sp t queue =
     bind_r (match_queue e u t (reset (waiting_queue_radix_tree sp)) {} queue) (\<lambda>(rs, D, t', w).
       Inr (rs, D, sp\<lparr>waiting_queue_radix_tree := w\<rparr>, t'))"

section \<open>The sorts\<close>

text \<open>The key of a request put off is infinite: it is above every match length.\<close>

definition prefix_rank :: "string set \<Rightarrow> req \<Rightarrow> bool \<times> int" where
  "prefix_rank D r = (if rid r \<notin> D then (False, - int (length (prefix_indices r))) else (True, 0))"

definition sort_by_longest_prefix :: "string set \<Rightarrow> req list \<Rightarrow> req list" where
  "sort_by_longest_prefix D queue = sort_key (prefix_rank D) queue"

fun calc_weight :: "nat \<Rightarrow> radix_cache \<Rightarrow> nat \<Rightarrow> (nat \<Rightarrow> nat) \<Rightarrow> (nat \<Rightarrow> nat) result" where
  "calc_weight 0 c n w = Inl NonTermination"
| "calc_weight (Suc fuel) c n w =
     fold (\<lambda>m acc. bind_r acc (\<lambda>w. bind_r (calc_weight fuel c m w) (\<lambda>w'. Inr (w'(n := w' n + w' m)))))
       (map snd (kids c n)) (Inr w)"

fun get_dfs_priority :: "nat \<Rightarrow> radix_cache \<Rightarrow> nat \<Rightarrow> (nat \<Rightarrow> nat) \<Rightarrow> (nat \<Rightarrow> 'r list) \<Rightarrow> 'r list \<Rightarrow> 'r list result" where
  "get_dfs_priority 0 c n w grp q = Inl NonTermination"
| "get_dfs_priority (Suc fuel) c n w grp q =
     bind_r (fold (\<lambda>m acc. bind_r acc (get_dfs_priority fuel c m w grp))
               (sort_key (\<lambda>m. - int (w m)) (map snd (kids c n))) (Inr q)) (\<lambda>q'.
       Inr (q' @ grp n))"

definition reqs_at :: "req list \<Rightarrow> nat \<Rightarrow> req list" where
  "reqs_at queue n = filter (\<lambda>r. last_node r = Some n) queue"

fun sort_by_dfs_weight :: "prefix_cache \<Rightarrow> req list \<Rightarrow> req list result" where
  "sort_by_dfs_weight (RadixTree c) queue =
     bind_r (calc_weight (counter c) c (root_node c) (\<lambda>n. length (reqs_at queue n))) (\<lambda>w.
       get_dfs_priority (counter c) c (root_node c) w (reqs_at queue) [])"
| "sort_by_dfs_weight _ queue = Inl AttributeError"

text \<open>
  The priorities as sort keys. Negating a missing priority is a type error. Without negation a queue
  that mixes missing and present priorities compares them, which is a type error too, while missing ones
  compare equal among themselves.
\<close>

definition priority_keys :: "bool \<Rightarrow> req list \<Rightarrow> (req \<Rightarrow> int) result" where
  "priority_keys low queue =
     (if list_all (\<lambda>r. priority r \<noteq> None) queue
      then Inr (\<lambda>r. if low then the (priority r) else - the (priority r))
      else if low \<and> list_all (\<lambda>r. priority r = None) queue then Inr (\<lambda>_. 0)
      else Inl TypeError)"

definition sort_by_priority_and_fcfs :: "bool \<Rightarrow> req list \<Rightarrow> req list result" where
  "sort_by_priority_and_fcfs low queue =
     bind_r (priority_keys low queue) (\<lambda>p. Inr (sort_key (\<lambda>r. (p r, wait_queue_entry_time r)) queue))"

definition neg_max_new_tokens :: "req \<Rightarrow> int" where
  "neg_max_new_tokens r = - the (max_new_tokens (sampling r))"

definition sort_by_longest_output :: "bool \<Rightarrow> bool \<Rightarrow> req list \<Rightarrow> req list result" where
  "sort_by_longest_output prio low queue =
     (if list_all (\<lambda>r. max_new_tokens (sampling r) \<noteq> None) queue
      then if prio
           then bind_r (priority_keys low queue) (\<lambda>p. Inr (sort_key (\<lambda>r. (p r, neg_max_new_tokens r)) queue))
           else Inr (sort_key neg_max_new_tokens queue)
      else Inl TypeError)"

text \<open>\<open>shuffle\<close> is \<^verbatim>\<open>random.shuffle\<close>.\<close>

definition calc_priority ::
    "sched_env \<Rightarrow> (nat \<Rightarrow> int) \<Rightarrow> (req list \<Rightarrow> req list) \<Rightarrow> schedule_policy \<Rightarrow> prefix_cache \<Rightarrow> req list \<Rightarrow>
     (bool \<times> req list \<times> schedule_policy \<times> prefix_cache) result" where
  "calc_priority e u shuffle sp t queue =
     (if active_policy sp = FCFS
      then if enable_priority_scheduling sp
           then bind_r (sort_by_priority_and_fcfs (schedule_low_priority_values_first sp) queue) (\<lambda>q. Inr (False, q, sp, t))
           else Inr (False, queue, sp, t)
      else case determine_active_policy sp queue of
        LPM \<Rightarrow> bind_r (compute_prefix_matches e u sp t queue) (\<lambda>(rs, D, sp', t').
                 Inr (True, sort_by_longest_prefix D rs, sp', t'))
      | DFS_WEIGHT \<Rightarrow> bind_r (compute_prefix_matches e u sp t queue) (\<lambda>(rs, D, sp', t').
                 bind_r (sort_by_dfs_weight t' rs) (\<lambda>q. Inr (True, q, sp', t')))
      | FCFS \<Rightarrow> Inr (False, queue, sp, t)
      | LOF \<Rightarrow> bind_r (sort_by_longest_output (enable_priority_scheduling sp)
                 (schedule_low_priority_values_first sp) queue) (\<lambda>q. Inr (False, q, sp, t))
      | RANDOM \<Rightarrow> Inr (False, shuffle queue, sp, t))"

section \<open>The trees behind the policy\<close>

definition queue_tree_ok :: "radix_cache \<Rightarrow> bool" where
  "queue_tree_ok w \<longleftrightarrow> rc_wf w \<and> \<not> disable w \<and> \<not> is_eagle w \<and> page_size w = 1"

lemma reset_wf:
  assumes wf: "rc_wf c" shows "rc_wf (reset c)"
proof -
  obtain depth :: "nat \<Rightarrow> nat" where depth: "\<And>n k m. (k, m) \<in> set (kids c n) \<Longrightarrow> depth n < depth m"
    using rc_wf_depth [OF wf] by blast
  let ?root = "\<lambda>n. n\<lparr>key := \<lparr>token_ids = [], extra_key = None\<rparr>, node_value := Some [],
      host_value := Some [], lock_ref := 1\<rparr>"
  have r: "nodes (reset c) = (nodes c)(counter c := ?root (tree_node_init (clock c (reads c)) (clock c (reads c + 1))))"
    "root_node (reset c) = counter c" "counter (reset c) = Suc (counter c)" "page_size (reset c) = page_size c"
    by (simp_all add: reset_def new_tree_node_def record_all_cleared_event_def upd_node_def)
  have kids: "kids (reset c) n = (if n = counter c then [] else kids c n)" for n
    by (simp add: r tree_node_init_def)
  show ?thesis
  proof (rule rc_wfI [where depth = depth])
    fix n k m assume e: "(k, m) \<in> set (kids (reset c) n)"
    then have e': "(k, m) \<in> set (kids c n)" "n \<noteq> counter c" by (auto simp: kids split: if_splits)
    then show "depth n < depth m" using depth by simp
    show "wf_edge (reset c) n k m"
      using rc_wf_edge [OF wf e'(1)] unfolding wf_edge_def r by auto
  qed (use rc_wfD [OF wf] in \<open>auto simp: r kids tree_node_init_def\<close>)
qed

lemma reset_queue_tree_ok: "queue_tree_ok w \<Longrightarrow> queue_tree_ok (reset w)"
  using reset_wf [of w]
  by (auto simp: queue_tree_ok_def reset_def new_tree_node_def record_all_cleared_event_def upd_node_def)

lemma reshapes_queue_tree_ok: "reshapes w w' \<Longrightarrow> queue_tree_ok w \<Longrightarrow> queue_tree_ok w'"
  using reshapes_wf [of w w'] reshapes_conf [of w w'] conf_eqD [of w' w] by (auto simp: queue_tree_ok_def)

lemma in_batch_check_ok:
  assumes "queue_tree_ok w"
  shows "\<exists>D' w'. in_batch_check e u r D w = Inr (D', w') \<and> queue_tree_ok w'"
proof (cases "int (length (prefix_indices r)) \<le> CHECK_THRESHOLD e")
  case True
  let ?k = "queue_key r"
  let ?V = "map u [0..<length (token_ids ?k)]"
  obtain vs n w1 where m: "match_prefix w ?k = Inr (vs, n, w1)" "reshapes w w1"
    using match_prefix_spec [of w ?k] assms by (auto simp: queue_tree_ok_def)
  have w1: "queue_tree_ok w1" using reshapes_queue_tree_ok [OF m(2) assms] .
  then have kv: "key_convert_fn w1 (token_ids ?k) = token_ids ?k" "insert_value w1 ?k ?V = ?V"
    by (simp_all add: queue_tree_ok_def key_convert_fn_def insert_value_def)
  obtain j w2 where "rc_insert w1 ?k (Some ?V) = Inr (j, w2)" "rc_wf w2" "conf w2 = conf w1"
    by (rule insert_content [of w1 ?k ?V]) (use w1 kv in \<open>auto simp: queue_tree_ok_def\<close>)
  then show ?thesis using True m(1) w1 conf_eqD [of w2 w1] by (auto simp: in_batch_check_def queue_tree_ok_def)
qed (use assms in \<open>simp add: in_batch_check_def\<close>)

text \<open>
  \<open>matched c c' r r'\<close>: \<open>r'\<close> is \<open>r\<close> with its longest match in the tree \<open>c\<close>, and its last node ends
  exactly that match in \<open>c'\<close>, the tree after later matches have split nodes.
\<close>

definition matched :: "radix_cache \<Rightarrow> radix_cache \<Rightarrow> req \<Rightarrow> req \<Rightarrow> bool" where
  "matched c c' r r' \<longleftrightarrow> (\<exists>vs n. r' = r\<lparr>prefix_indices := vs, last_node := Some n, last_host_node := Some n,
       host_hit_length := 0\<rparr> \<and>
     longest_match c (req_extra_key r) (root_node c) (cache_tokens c (queue_key r)) vs \<and>
     path c' (req_extra_key r) (root_node c') n (take (length vs) (cache_tokens c (queue_key r))) vs)"

lemma reshapes_longest_match:
  assumes "reshapes c c'" and "rc_wf c"
  shows "longest_match c' x (root_node c') K vs = longest_match c x (root_node c) K vs"
  using reshapes_stored_from [OF assms, of "root_node c"] rc_wfD(2) [OF assms(2)] reshapes_conf [OF assms(1)] conf_eqD [of c' c]
  by (simp add: longest_match_def)

lemma reshapes_cache_tokens: "reshapes c c' \<Longrightarrow> cache_tokens c' k = cache_tokens c k"
  using reshapes_conf [of c c'] conf_eqD [of c' c] by (simp add: cache_tokens_def key_convert_fn_def)

lemma matched_back: "reshapes c c1 \<Longrightarrow> rc_wf c \<Longrightarrow> matched c1 c' r r' \<Longrightarrow> matched c c' r r'"
  by (simp add: matched_def reshapes_longest_match reshapes_cache_tokens)

lemma match_queue_spec:
  assumes "rc_wf c" and "\<not> disable c" and "queue_tree_ok w"
  shows "\<exists>rs' D' c' w'. match_queue e u (RadixTree c) w D rs = Inr (rs', D', RadixTree c', w') \<and>
    reshapes c c' \<and> queue_tree_ok w' \<and> list_all2 (matched c c') rs rs'"
  using assms
proof (induction rs arbitrary: c w D)
  case (Cons r rs)
  obtain vs n c1 where m: "match_prefix c (queue_key r) = Inr (vs, n, c1)" "reshapes c c1"
    "longest_match c (req_extra_key r) (root_node c) (cache_tokens c (queue_key r)) vs"
    "path c1 (req_extra_key r) (root_node c) n (take (length vs) (cache_tokens c (queue_key r))) vs"
    using match_prefix_spec [OF Cons.prems(1), of "queue_key r"] Cons.prems(2) by (auto simp: queue_key_def)
  let ?r = "r\<lparr>prefix_indices := vs, last_node := Some n, last_host_node := Some n, host_hit_length := 0\<rparr>"
  obtain D1 w1 where b: "in_batch_check e u ?r D w = Inr (D1, w1)" "queue_tree_ok w1"
    using in_batch_check_ok [OF Cons.prems(3)] by blast
  have wf1: "rc_wf c1" and c1: "root_node c1 = root_node c" "\<not> disable c1"
    using reshapes_wf [OF m(2) Cons.prems(1)] reshapes_conf [OF m(2)] conf_eqD [of c1 c] Cons.prems(2) by auto
  obtain rs' D' c' w' where q: "match_queue e u (RadixTree c1) w1 D1 rs = Inr (rs', D', RadixTree c', w')"
    "reshapes c1 c'" "queue_tree_ok w'" "list_all2 (matched c1 c') rs rs'"
    using Cons.IH [OF wf1 c1(2) b(2)] by blast
  have "root_node c' = root_node c" using reshapes_conf [OF q(2)] conf_eqD [of c' c1] c1 by simp
  then have "matched c c' r ?r"
    unfolding matched_def using m(3) reshapes_path [OF q(2) wf1 m(4)] by auto
  moreover have "list_all2 (matched c c') rs rs'"
    using q(4) matched_back [OF m(2) Cons.prems(1)] by (auto elim: list_all2_mono)
  moreover have "match_queue e u (RadixTree c) w D (r # rs) = Inr (?r # rs', D', RadixTree c', w')"
    using m(1) b(1) q(1) by (simp add: apply_match_def)
  ultimately show ?case using q(3) rtranclp_trans [OF m(2) q(2)] by auto
qed simp

section \<open>Subtree weights\<close>

lemma reach_linear:
  assumes wf: "rc_wf c" and "reach c a x" and "reach c b x"
  shows "reach c a b \<or> reach c b a"
  using assms(2,3)
proof (induction rule: reach.induct)
  case (reach_step n k m)
  then show ?case using reach_parent [OF wf reach_step.prems reach_step.hyps(2)] reach.reach_step [OF reach_step.hyps] by blast
qed simp

lemma apart_disjoint:
  assumes "rc_wf c" and "apart c (ps @ [m])"
  shows "under c ps \<inter> under c [m] = {}"
proof -
  have "\<not> (reach c a x \<and> reach c m x)" if "a \<in> set ps" for a x
    using reach_linear [OF assms(1), of a x m] assms(2) that unfolding apart_def by auto
  then show ?thesis by (auto simp: under_def)
qed

lemma apart_kids:
  assumes "rc_wf c" shows "apart c (map snd (kids c n))"
  using apart_pop(1) [of c "[]" n] assms by (simp add: apart_def)

lemma apart_set: "apart c S \<Longrightarrow> distinct T \<Longrightarrow> set T = set S \<Longrightarrow> apart c T"
  by (simp add: apart_def)

lemma apart_take: "apart c (S @ T) \<Longrightarrow> apart c S"
  by (auto simp: apart_def)

lemma card_under_kid:
  assumes wf: "rc_wf c" and n: "n < counter c" and m: "m \<in> set (map snd (kids c n))" and "card (under c [n]) \<le> Suc fuel"
  shows "card (under c [m]) \<le> fuel" "m < counter c"
proof -
  have fin: "finite (under c [n])" using finite_under [OF wf, of "[n]"] n by simp
  have "under c [m] \<subseteq> under c (map snd (kids c n))" using m by (auto simp: under_def)
  then have "under c [m] \<subset> under c [n]" using not_under_kids [OF wf, of n] unfolding under_node [of c n] by blast
  then have "card (under c [m]) < card (under c [n])" using fin by (rule psubset_card_mono [rotated])
  then show "card (under c [m]) \<le> fuel" using assms(4) by simp
  show "m < counter c" using kids_bound [OF wf, of n] m by blast
qed

definition weight_below :: "radix_cache \<Rightarrow> (nat \<Rightarrow> nat) \<Rightarrow> nat \<Rightarrow> nat" where
  "weight_below c w n = (\<Sum>j \<in> under c [n]. w j)"

lemma under_mono: "m \<in> under c S \<Longrightarrow> under c [m] \<subseteq> under c S"
  by (auto simp: under_def intro: reach_trans)

lemma calc_weight_kids:
  assumes wf: "rc_wf c" and ap: "apart c ps" and fresh: "n \<notin> under c ps" and bound: "set ps \<subseteq> {..<counter c}"
    and IH: "\<And>m w. m \<in> set ps \<Longrightarrow> calc_weight fuel c m w
      = Inr (\<lambda>x. if x \<in> under c [m] then weight_below c w x else w x)"
  shows "fold (\<lambda>m acc. bind_r acc (\<lambda>w. bind_r (calc_weight fuel c m w) (\<lambda>w'. Inr (w'(n := w' n + w' m))))) ps (Inr w)
    = Inr (\<lambda>x. if x \<in> under c ps then weight_below c w x else if x = n then w n + (\<Sum>j \<in> under c ps. w j) else w x)"
  using ap fresh bound IH
proof (induction ps rule: rev_induct)
  case Nil
  then show ?case by (auto simp: under_def fun_eq_iff)
next
  case (snoc m ps)
  let ?w = "\<lambda>x. if x \<in> under c ps then weight_below c w x else if x = n then w n + (\<Sum>j \<in> under c ps. w j) else w x"
  have dis: "under c ps \<inter> under c [m] = {}" by (rule apart_disjoint [OF wf snoc.prems(1)])
  have n: "n \<notin> under c ps" "n \<notin> under c [m]" using snoc.prems(2) by (auto simp: under_append)
  have "m \<in> under c [m]" by (auto simp: under_def intro: reach_self)
  have below: "weight_below c ?w x = weight_below c w x" if "x \<in> under c [m]" for x
    unfolding weight_below_def using under_mono [OF that] dis n by (intro sum.cong) auto
  have fin: "finite (under c ps)" "finite (under c [m])" using finite_under [OF wf] snoc.prems(3) by auto
  have "(\<Sum>j \<in> under c (ps @ [m]). w j) = (\<Sum>j \<in> under c ps. w j) + weight_below c w m"
    unfolding weight_below_def under_append using fin dis by (rule sum.union_disjoint)
  then show ?case
    using snoc.IH [OF apart_take [OF snoc.prems(1)] n(1)] snoc.prems(3,4) n dis below \<open>m \<in> under c [m]\<close>
    by (auto simp: under_append fun_eq_iff)
qed

lemma calc_weight_spec:
  assumes wf: "rc_wf c" and "n < counter c" and "card (under c [n]) \<le> fuel"
  shows "calc_weight fuel c n w = Inr (\<lambda>x. if x \<in> under c [n] then weight_below c w x else w x)"
  using assms(2,3)
proof (induction fuel arbitrary: n w)
  case 0
  have "n \<in> under c [n]" by (auto simp: under_def intro: reach_self)
  then show ?case using 0 finite_under [OF wf, of "[n]"] by auto
next
  case (Suc fuel)
  let ?ms = "map snd (kids c n)"
  have ih: "calc_weight fuel c m w = Inr (\<lambda>x. if x \<in> under c [m] then weight_below c w x else w x)" if "m \<in> set ?ms" for m w
    using Suc.IH card_under_kid [OF wf Suc.prems(1) that Suc.prems(2)] by blast
  have n: "n \<notin> under c ?ms" by (rule not_under_kids [OF wf])
  have "weight_below c w n = w n + (\<Sum>j \<in> under c ?ms. w j)"
    unfolding weight_below_def under_node [of c n] using n finite_under [OF wf kids_bound [OF wf]] by (rule sum.insert [rotated])
  then show ?case
    using calc_weight_kids [OF wf apart_kids [OF wf] n kids_bound [OF wf] ih] n
    by (auto simp: under_node [of c n] fun_eq_iff)
qed

section \<open>The depth-first order\<close>

lemma dfs_kids:
  assumes wf: "rc_wf c" and "apart c ps"
    and IH: "\<And>m q. m \<in> set ps \<Longrightarrow> \<exists>ord. get_dfs_priority fuel c m w grp q = Inr (q @ concat (map grp ord)) \<and>
      distinct ord \<and> set ord = under c [m]"
  shows "\<exists>ord. fold (\<lambda>m acc. bind_r acc (get_dfs_priority fuel c m w grp)) ps (Inr q) = Inr (q @ concat (map grp ord)) \<and>
    distinct ord \<and> set ord = under c ps"
  using assms(2,3)
proof (induction ps rule: rev_induct)
  case Nil
  show ?case by (rule exI [of _ "[]"]) (simp add: under_def)
next
  case (snoc m ps)
  obtain o1 where o1: "fold (\<lambda>m acc. bind_r acc (get_dfs_priority fuel c m w grp)) ps (Inr q) = Inr (q @ concat (map grp o1))"
    "distinct o1" "set o1 = under c ps" using snoc.IH [OF apart_take [OF snoc.prems(1)]] snoc.prems(2) by auto
  obtain o2 where o2: "get_dfs_priority fuel c m w grp (q @ concat (map grp o1)) = Inr ((q @ concat (map grp o1)) @ concat (map grp o2))"
    "distinct o2" "set o2 = under c [m]" using snoc.prems(2) [of m "q @ concat (map grp o1)"] by auto
  show ?case
    using o1 o2 apart_disjoint [OF wf snoc.prems(1)] by (intro exI [of _ "o1 @ o2"]) (simp add: under_append)
qed

lemma get_dfs_priority_spec:
  assumes wf: "rc_wf c" and "n < counter c" and "card (under c [n]) \<le> fuel"
  shows "\<exists>ord. get_dfs_priority fuel c n w grp q = Inr (q @ concat (map grp ord)) \<and> distinct ord \<and> set ord = under c [n]"
  using assms(2,3)
proof (induction fuel arbitrary: n q)
  case 0
  have "n \<in> under c [n]" by (auto simp: under_def intro: reach_self)
  then show ?case using 0 finite_under [OF wf, of "[n]"] by auto
next
  case (Suc fuel)
  let ?ms = "sort_key (\<lambda>m. - int (w m)) (map snd (kids c n))"
  have "apart c ?ms" using apart_kids [OF wf, of n] by (rule apart_set) (use apart_kids [OF wf, of n] in \<open>simp_all add: apart_def\<close>)
  moreover have "\<exists>ord. get_dfs_priority fuel c m w grp q = Inr (q @ concat (map grp ord)) \<and> distinct ord \<and> set ord = under c [m]"
    if "m \<in> set ?ms" for m q
    using Suc.IH card_under_kid [OF wf Suc.prems(1) _ Suc.prems(2), of m] that by simp
  ultimately obtain ord where o: "fold (\<lambda>m acc. bind_r acc (get_dfs_priority fuel c m w grp)) ?ms (Inr q) = Inr (q @ concat (map grp ord))"
    "distinct ord" "set ord = under c ?ms" using dfs_kids [OF wf, of ?ms fuel w grp q] by blast
  have u: "under c ?ms = under c (map snd (kids c n))" by (simp add: under_def)
  show ?case
    using o not_under_kids [OF wf, of n]
    by (intro exI [of _ "ord @ [n]"]) (auto simp: u under_node [of c n])
qed

lemma mset_grouped:
  assumes "distinct ord"
  shows "mset (concat (map (reqs_at q) ord)) = filter_mset (\<lambda>r. \<exists>n \<in> set ord. last_node r = Some n) (mset q)"
  using assms
proof (induction ord)
  case (Cons n ord)
  have "filter_mset (\<lambda>r. \<exists>m \<in> set (n # ord). last_node r = Some m) M
      = filter_mset (\<lambda>r. last_node r = Some n) M + filter_mset (\<lambda>r. \<exists>m \<in> set ord. last_node r = Some m) M" for M :: "req multiset"
    using Cons.prems by (induction M) auto
  then show ?case using Cons by (simp add: reqs_at_def)
qed simp

lemma sort_by_dfs_weight_permutes:
  assumes wf: "rc_wf c" and "\<And>r. r \<in> set q \<Longrightarrow> \<exists>n. last_node r = Some n \<and> reach c (root_node c) n"
  shows "\<exists>q'. sort_by_dfs_weight (RadixTree c) q = Inr q' \<and> mset q' = mset q"
proof -
  let ?r = "root_node c"
  have r: "?r < counter c" by (rule rc_wfD(2) [OF wf])
  have "under c [?r] \<subseteq> {..<counter c}" using reach_counter [OF _ wf r] by (auto simp: under_def)
  then have card: "card (under c [?r]) \<le> counter c" using card_mono [of "{..<counter c}"] by fastforce
  obtain ord where o: "\<exists>w. calc_weight (counter c) c ?r (\<lambda>n. length (reqs_at q n)) = Inr w \<and>
      get_dfs_priority (counter c) c ?r w (reqs_at q) [] = Inr (concat (map (reqs_at q) ord))" "distinct ord" "set ord = under c [?r]"
    using calc_weight_spec [OF wf r card] get_dfs_priority_spec [OF wf r card, of _ "reqs_at q" "[]"] by fastforce
  have "filter_mset (\<lambda>r. \<exists>n \<in> set ord. last_node r = Some n) (mset q) = mset q"
    using assms(2) o(3) by (auto simp: under_def filter_mset_eq_conv)
  then show ?thesis using o mset_grouped [OF o(2), of q] by auto
qed

section \<open>Properties\<close>

text \<open>A request without what matching sets.\<close>

definition unmatched :: "req \<Rightarrow> req" where
  "unmatched r = r\<lparr>prefix_indices := [], last_node := None, last_host_node := None, host_hit_length := 0\<rparr>"

text \<open>
  The state in which the scheduler calls the policy: the queue's own tree is well formed, and so is the
  radix tree; a policy that looks at the cache is only active with a cache that is enabled.
\<close>

definition policy_ok :: "schedule_policy \<Rightarrow> prefix_cache \<Rightarrow> nat multiset \<Rightarrow> bool" where
  "policy_ok sp t L \<longleftrightarrow> queue_tree_ok (waiting_queue_radix_tree sp) \<and>
     (\<forall>c. t = RadixTree c \<longrightarrow> rc_inv c L) \<and> (cache_aware (active_policy sp) \<longrightarrow> \<not> cache_disabled t)"

lemma policy_ok_init:
  assumes "schedule_policy_init name t hier prio low clk h = Inr sp" and "\<And>c. t = RadixTree c \<Longrightarrow> rc_inv c L"
  shows "policy_ok sp t L"
proof -
  obtain p w where p: "validate_and_adjust_policy name t = Inr p" "radix_init 1 False False ''lru'' False clk h = Inr w"
    "active_policy sp = p" "waiting_queue_radix_tree sp = w"
    using assms(1) by (auto simp: schedule_policy_init_def bind_r_eq_Inr)
  have "cache_aware p \<longrightarrow> \<not> cache_disabled t"
    using p(1) by (auto simp: validate_and_adjust_policy_def cache_aware_def split: if_splits)
  moreover have "queue_tree_ok w" using radix_init_spec [OF p(2)] by (simp add: queue_tree_ok_def)
  ultimately show ?thesis using p assms(2) by (simp add: policy_ok_def)
qed

lemma matched_unmatched: "list_all2 (matched c c') rs rs' \<Longrightarrow> map unmatched rs' = map unmatched rs"
  by (induction rule: list_all2_induct) (auto simp: matched_def unmatched_def)

lemma matched_last_node:
  "list_all2 (matched c c') rs rs' \<Longrightarrow> r' \<in> set rs' \<Longrightarrow> \<exists>n. last_node r' = Some n \<and> reach c' (root_node c') n"
  by (induction rule: list_all2_induct) (auto simp: matched_def path_reach)

lemma compute_prefix_matches_spec:
  assumes "policy_ok sp t L" and "cache_aware (active_policy sp)"
  shows "\<exists>c c' rs D w. t = RadixTree c \<and> \<not> disable c \<and> rc_inv c L \<and>
    compute_prefix_matches e u sp t q = Inr (rs, D, sp\<lparr>waiting_queue_radix_tree := w\<rparr>, RadixTree c') \<and>
    reshapes c c' \<and> list_all2 (matched c c') q rs \<and> policy_ok (sp\<lparr>waiting_queue_radix_tree := w\<rparr>) (RadixTree c') L"
proof -
  obtain c where c: "t = RadixTree c" "\<not> disable c" "rc_inv c L" "rc_wf c"
    using assms by (cases t) (auto simp: policy_ok_def chunk_disable_def rc_inv_def)
  have w: "queue_tree_ok (reset (waiting_queue_radix_tree sp))"
    using assms(1) by (simp add: policy_ok_def reset_queue_tree_ok)
  obtain rs D c' w' where m: "match_queue e u (RadixTree c) (reset (waiting_queue_radix_tree sp)) {} q = Inr (rs, D, RadixTree c', w')"
    "reshapes c c'" "queue_tree_ok w'" "list_all2 (matched c c') q rs"
    using match_queue_spec [OF c(4,2) w] by blast
  have "policy_ok (sp\<lparr>waiting_queue_radix_tree := w'\<rparr>) (RadixTree c') L"
    using m reshapes_inv [OF m(2) c(3)] reshapes_conf [OF m(2)] conf_eqD [of c' c] c(2) by (simp add: policy_ok_def)
  then show ?thesis using c m by (auto simp: compute_prefix_matches_def)
qed

lemma calc_priority_spec:
  assumes "policy_ok sp t L" and "\<And>xs. mset (shuffle xs) = mset xs"
    and "\<And>r. r \<in> set q \<Longrightarrow> (enable_priority_scheduling sp \<longrightarrow> priority r \<noteq> None) \<and> max_new_tokens (sampling r) \<noteq> None"
  shows "\<exists>b q' sp' t'. calc_priority e u shuffle sp t q = Inr (b, q', sp', t') \<and>
    mset (map unmatched q') = mset (map unmatched q) \<and> policy_ok sp' t' L \<and>
    (t' = t \<or> (\<exists>c c'. t = RadixTree c \<and> t' = RadixTree c' \<and> reshapes c c'))"
proof -
  have all: "enable_priority_scheduling sp \<Longrightarrow> list_all (\<lambda>r. priority r \<noteq> None) q" "list_all (\<lambda>r. max_new_tokens (sampling r) \<noteq> None) q"
    using assms(3) by (auto simp: list_all_iff)
  have "cache_aware (active_policy sp) \<Longrightarrow> ?thesis"
  proof -
    assume ca: "cache_aware (active_policy sp)"
    obtain c c' rs D w where t: "t = RadixTree c" "reshapes c c'" and m: "compute_prefix_matches e u sp t q = Inr (rs, D, sp\<lparr>waiting_queue_radix_tree := w\<rparr>, RadixTree c')"
      "list_all2 (matched c c') q rs" "policy_ok (sp\<lparr>waiting_queue_radix_tree := w\<rparr>) (RadixTree c') L"
      using compute_prefix_matches_spec [OF assms(1) ca] by blast
    have "rc_wf c'" using m(3) by (simp add: policy_ok_def rc_inv_def)
    then obtain q' where q': "sort_by_dfs_weight (RadixTree c') rs = Inr q'" "mset q' = mset rs"
      using sort_by_dfs_weight_permutes [of c' rs] matched_last_node [OF m(2)] by blast
    have "mset (map unmatched q') = mset (map unmatched q)" "mset (map unmatched rs) = mset (map unmatched q)"
      using q'(2) matched_unmatched [OF m(2)] by (metis mset_map)+
    then show ?thesis
      using ca t m(1,3) q'(1) assms(1)
      by (auto simp: calc_priority_def determine_active_policy_def cache_aware_def sort_by_longest_prefix_def
          split: policy.split)
  qed
  moreover have ?thesis if "\<not> cache_aware (active_policy sp)"
    using that assms(1,2) all
    by (cases "active_policy sp") (auto simp: calc_priority_def cache_aware_def determine_active_policy_def
        sort_by_priority_and_fcfs_def sort_by_longest_output_def priority_keys_def)
  ultimately show ?thesis by blast
qed

text \<open>
  (C27) Ordering the waiting queue never fails and never loses, duplicates or alters a request: under
  every policy, if each request has an output limit, and a priority where priorities are enabled, and the shuffle permutes, the new queue
  is a permutation of the old one up to the match of each request, and the state stays well formed.
\<close>

theorem calc_priority_permutes:
  assumes "policy_ok sp t L" and "\<And>xs. mset (shuffle xs) = mset xs"
    and "\<And>r. r \<in> set q \<Longrightarrow> (enable_priority_scheduling sp \<longrightarrow> priority r \<noteq> None) \<and> max_new_tokens (sampling r) \<noteq> None"
  shows "\<exists>b q' sp' t'. calc_priority e u shuffle sp t q = Inr (b, q', sp', t') \<and>
    mset (map unmatched q') = mset (map unmatched q) \<and> policy_ok sp' t' L"
  using calc_priority_spec [OF assms] by blast

theorem calc_priority_permutes_witness:
  "\<exists>c sp b q' sp' t'. demo_radix = Inr c \<and>
    schedule_policy_init ''dfs-weight'' (RadixTree c) False False False (\<lambda>n. int n) (\<lambda>_. 0) = Inr sp \<and>
    calc_priority default_env (\<lambda>_. 0) rev sp (RadixTree c) [demo_req\<lparr>priority := Some 1\<rparr>] = Inr (b, q', sp', t') \<and>
    mset (map unmatched q') = {#unmatched (demo_req\<lparr>priority := Some 1\<rparr>)#}"
proof -
  obtain c where c: "demo_radix = Inr c" "rc_inv c {#}" "\<not> disable c" by (rule demo_radix_ok) blast
  have "parse_policy ''lru'' = Inr LRUStrategy" by code_simp
  then obtain sp where sp: "schedule_policy_init ''dfs-weight'' (RadixTree c) False False False (\<lambda>n. int n) (\<lambda>_. 0) = Inr sp"
    by (simp add: schedule_policy_init_def validate_and_adjust_policy_def radix_init_def)
  have "policy_ok sp (RadixTree c) {#}" by (rule policy_ok_init [OF sp]) (use c in auto)
  then show ?thesis
    using c(1) sp calc_priority_permutes [of sp "RadixTree c" "{#}" rev "[demo_req\<lparr>priority := Some 1\<rparr>]" default_env "\<lambda>_. 0"]
    by (auto simp: demo_req_simps)
qed



end
