(* ===== verification/Schedule_Batch.thy ===== *)
theory Schedule_Batch
  imports Schedule_Policy
begin

text \<open>
  \<^verbatim>\<open>ScheduleBatch\<close> of \<^verbatim>\<open>managers/schedule_batch.py\<close>: building a prefill or a decode step, filtering and
  merging batches, and retracting running requests when memory runs out. The batch holds one entry per
  request in each of its tensors; the memory it works on is the memory state. Modelled are
  decoder-only models without multimodal inputs, embeddings, penalties and draft models, so sampling and
  speculation data are not part of the record. Requests are compared by identity, here by request id; a
  tensor that is not set yet is empty.
\<close>

section \<open>The batch\<close>

datatype forward_mode = EXTEND | DECODE | MIXED | IDLE | TARGET_VERIFY | DRAFT_EXTEND | DRAFT_EXTEND_V2 | PREBUILT | SPLIT_PREFILL

record schedule_batch =
  reqs :: "req list"
  is_hybrid :: bool
  forward_mode :: "forward_mode option"
  enable_overlap :: bool
  input_ids :: "int list option"
  req_pool_indices :: "int list"
  seq_lens :: "nat list"
  seq_lens_cpu :: "nat list"
  orig_seq_lens :: "nat list"
  out_cache_loc :: "int list option"
  batch_output_ids :: "int list option"
  seq_lens_sum :: nat
  batch_return_logprob :: bool
  top_logprobs_nums :: "nat list option"
  token_ids_logprobs :: "int list option list option"
  prefix_lens :: "int list"
  extend_lens :: "int list"
  extend_num_tokens :: nat
  extend_logprob_start_lens :: "int list"
  extend_input_logprob_token_ids :: "int list option"
  has_stream :: bool
  has_grammar :: bool
  batch_return_hidden_states :: bool
  batch_is_prefill_only :: bool
  batch_is_full :: bool
  batch_chunked_req :: "req option"
  decoding_reqs :: "req list option"

text \<open>
  The server arguments and the environment that the operations read; \<open>spec_topk\<close> is
  \<^verbatim>\<open>speculative_eagle_topk\<close> and \<open>spec_on\<close> says that a speculative algorithm is configured.
\<close>

record server_cfg =
  spec_topk :: "nat option"
  spec_on :: bool
  server_page_size :: nat
  RETRACT_DECODE_STEPS :: nat
  support_triton :: bool
  attention_chunk_size :: nat
  kernels :: kernel_env

definition is_swa_alloc :: "allocator \<Rightarrow> bool" where
  "is_swa_alloc a = (case a of SWAAlloc _ \<Rightarrow> True | _ \<Rightarrow> False)"

definition is_swa_chunk :: "prefix_cache \<Rightarrow> bool" where
  "is_swa_chunk t = (case t of SWAChunk _ \<Rightarrow> True | _ \<Rightarrow> False)"

definition init_new :: "server_cfg \<Rightarrow> mem_state \<Rightarrow> req list \<Rightarrow> bool \<Rightarrow> req option \<Rightarrow> schedule_batch result" where
  "init_new cfg m rs overlap chunked =
     assert_r (is_swa_alloc (kv_allocator m) \<longrightarrow> is_swa_chunk (tree_cache m))
       (Inr \<lparr>reqs = rs, is_hybrid = is_swa_alloc (kv_allocator m), forward_mode = None, enable_overlap = overlap,
          input_ids = None, req_pool_indices = [], seq_lens = [], seq_lens_cpu = [], orig_seq_lens = [],
          out_cache_loc = None, batch_output_ids = None, seq_lens_sum = 0,
          batch_return_logprob = list_ex return_logprob rs, top_logprobs_nums = None, token_ids_logprobs = None,
          prefix_lens = [], extend_lens = [], extend_num_tokens = 0, extend_logprob_start_lens = [],
          extend_input_logprob_token_ids = None, has_stream = list_ex req_stream rs,
          has_grammar = list_ex (\<lambda>r. grammar_terminated r \<noteq> None) rs,
          batch_return_hidden_states = list_ex return_hidden_states rs,
          batch_is_prefill_only = list_all (is_prefill_only (spec_on cfg)) rs,
          batch_is_full = False, batch_chunked_req = chunked, decoding_reqs = None\<rparr>)"

definition batch_size :: "schedule_batch \<Rightarrow> nat" where
  "batch_size b = length (reqs b)"

definition is_empty :: "schedule_batch \<Rightarrow> bool" where
  "is_empty b \<longleftrightarrow> length (reqs b) = 0"

section \<open>Prefill\<close>

definition relative_logprob_start :: "bool \<Rightarrow> req \<Rightarrow> int \<Rightarrow> int" where
  "relative_logprob_start prefill_only r pre_len =
     (if logprob_start_len r \<ge> pre_len
      then if prefill_only \<and> logprob_start_len r = int (length (origin_input_ids r)) then extend_input_len r
           else min (logprob_start_len r - pre_len) (min (extend_input_len r) (int (seqlen r) - 1))
      else 0)"

definition extend_req :: "bool \<Rightarrow> req \<Rightarrow> int \<Rightarrow> nat \<Rightarrow> nat \<Rightarrow> req result" where
  "extend_req prefill_only r idx seq_len pre_len =
     assert_r (int seq_len - int pre_len = extend_input_len r)
       (Inr (r\<lparr>req_pool_idx := Some idx, kv_committed_len := seq_len, kv_allocated_len := seq_len,
          cached_tokens := cached_tokens r + (int pre_len - int (already_computed r)),
          already_computed := seq_len, is_retracted := False,
          extend_logprob_start_len := relative_logprob_start prefill_only r (int pre_len)\<rparr>))"

fun extend_reqs :: "bool \<Rightarrow> req list \<Rightarrow> int list \<Rightarrow> nat list \<Rightarrow> nat list \<Rightarrow> req list result" where
  "extend_reqs po (r # rs) (i # is) (s # ss) (p # ps) =
     bind_r (extend_req po r i s p) (\<lambda>r'. bind_r (extend_reqs po rs is ss ps) (\<lambda>rs'. Inr (r' # rs')))"
| "extend_reqs po _ _ _ _ = Inr []"

text \<open>The token ids whose input log probabilities a request asks for, padded with 0.\<close>

definition input_logprob_token_ids :: "req \<Rightarrow> int list" where
  "input_logprob_token_ids r =
     (let start = max (int (length (prefix_indices r))) (logprob_start_len r);
          ids = py_slice (origin_input_ids r) (start + 1) (int (length (fill_ids r)) + 1)
      in ids @ replicate (nat (extend_input_len r - extend_logprob_start_len r - int (length ids))) 0)"

definition prepare_for_extend :: "server_cfg \<Rightarrow> mem_state \<Rightarrow> schedule_batch \<Rightarrow> (schedule_batch \<times> mem_state) result" where
  "prepare_for_extend cfg m b =
     (let rs = reqs b;
          ids = map (\<lambda>r. drop (length (prefix_indices r)) (fill_ids r)) rs;
          num = sum_list (map length ids);
          seqs = map (\<lambda>r. length (fill_ids r)) rs;
          origs = map (\<lambda>r. max (length (fill_ids r)) (length (origin_input_ids r))) rs;
          pres = map (\<lambda>r. length (prefix_indices r)) rs;
          exts = map extend_input_len rs
      in bind_r (alloc_for_extend (support_triton cfg) (kernels cfg) (attention_chunk_size cfg) m rs pres (map nat exts) seqs num)
           (\<lambda>(loc, idx, rs1, m1).
         bind_r (extend_reqs (batch_is_prefill_only b) rs1 idx seqs pres) (\<lambda>rs2.
           Inr (b\<lparr>forward_mode := Some EXTEND, reqs := rs2, prefix_lens := map int pres, extend_lens := exts,
                  seq_lens := seqs, seq_lens_cpu := seqs, extend_num_tokens := num,
                  input_ids := Some (concat ids), req_pool_indices := idx, orig_seq_lens := origs,
                  out_cache_loc := Some loc, seq_lens_sum := sum_list seqs,
                  top_logprobs_nums := (if batch_return_logprob b then Some (map top_logprobs_num rs2) else top_logprobs_nums b),
                  token_ids_logprobs := (if batch_return_logprob b then Some (map token_ids_logprob rs2) else token_ids_logprobs b),
                  extend_logprob_start_lens := map extend_logprob_start_len rs2,
                  extend_input_logprob_token_ids :=
                    (if batch_return_logprob b then Some (concat (map input_logprob_token_ids rs2)) else None)\<rparr>, m1))))"

definition prepare_for_split_prefill :: "server_cfg \<Rightarrow> mem_state \<Rightarrow> schedule_batch \<Rightarrow> (schedule_batch \<times> mem_state) result" where
  "prepare_for_split_prefill cfg m b =
     bind_r (prepare_for_extend cfg m b) (\<lambda>(b', m'). Inr (b'\<lparr>forward_mode := Some SPLIT_PREFILL\<rparr>, m'))"

section \<open>Decode\<close>

definition prepare_for_decode :: "server_cfg \<Rightarrow> mem_state \<Rightarrow> schedule_batch \<Rightarrow> (schedule_batch \<times> mem_state) result" where
  "prepare_for_decode cfg m b =
     (if spec_on cfg then Inr (b\<lparr>forward_mode := Some DECODE\<rparr>, m)
      else bind_r (alloc_for_decode (kernels cfg) (attention_chunk_size cfg) m (reqs b) (req_pool_indices b) (seq_lens b) None 1)
        (\<lambda>(loc, rs, m1).
          Inr (b\<lparr>forward_mode := Some DECODE, input_ids := batch_output_ids b, batch_output_ids := None,
                 out_cache_loc := Some loc,
                 reqs := map (\<lambda>r. r\<lparr>kv_committed_len := kv_committed_len r + 1,
                                   kv_allocated_len := kv_allocated_len r + 1\<rparr>) rs,
                 seq_lens := map Suc (seq_lens b), seq_lens_cpu := map Suc (seq_lens_cpu b),
                 orig_seq_lens := map Suc (orig_seq_lens b),
                 seq_lens_sum := seq_lens_sum b + length (reqs b)\<rparr>, m1)))"

definition prepare_for_idle :: "schedule_batch \<Rightarrow> schedule_batch" where
  "prepare_for_idle b = b\<lparr>forward_mode := Some IDLE, input_ids := Some [], seq_lens := [], seq_lens_cpu := [],
     orig_seq_lens := [], out_cache_loc := Some [], req_pool_indices := [], seq_lens_sum := 0, extend_num_tokens := 0\<rparr>"

section \<open>Filtering and merging\<close>

definition pick :: "'a list \<Rightarrow> nat list \<Rightarrow> 'a list result" where
  "pick xs is = (if list_all (\<lambda>i. i < length xs) is then Inr (map (\<lambda>i. xs ! i) is) else Inl IndexError)"

definition pick_opt :: "'a list option \<Rightarrow> nat list \<Rightarrow> 'a list result" where
  "pick_opt xs is = (case xs of None \<Rightarrow> Inl TypeError | Some ys \<Rightarrow> pick ys is)"

definition keep_indices_of :: "schedule_batch \<Rightarrow> req list \<Rightarrow> nat list option \<Rightarrow> nat list" where
  "keep_indices_of b excl keep =
     (case keep of Some k \<Rightarrow> k
      | None \<Rightarrow> filter (\<lambda>i. \<not> finished (reqs b ! i) \<and> rid (reqs b ! i) \<notin> set (map rid excl)) [0..<length (reqs b)])"

definition filter_batch :: "schedule_batch \<Rightarrow> req list \<Rightarrow> nat list option \<Rightarrow> schedule_batch result" where
  "filter_batch b excl keep0 =
     (let keep = keep_indices_of b excl keep0
      in if keep = [] then Inr (b\<lparr>reqs := []\<rparr>)
         else if length keep = length (reqs b) then Inr b
         else bind_r (pick (reqs b) keep) (\<lambda>rs.
              bind_r (pick (req_pool_indices b) keep) (\<lambda>idx.
              bind_r (pick (seq_lens b) keep) (\<lambda>seqs.
              bind_r (pick (seq_lens_cpu b) keep) (\<lambda>cpus.
              bind_r (pick (orig_seq_lens b) keep) (\<lambda>origs.
              bind_r (pick_opt (batch_output_ids b) keep) (\<lambda>outs.
              let logprob = list_ex return_logprob rs
              in bind_r (if logprob then bind_r (pick_opt (top_logprobs_nums b) keep) (\<lambda>x. Inr (Some x)) else Inr None) (\<lambda>tops.
                 bind_r (if logprob then bind_r (pick_opt (token_ids_logprobs b) keep) (\<lambda>x. Inr (Some x)) else Inr None) (\<lambda>toks.
                   Inr (b\<lparr>reqs := rs, req_pool_indices := idx, seq_lens := seqs, seq_lens_cpu := cpus,
                          orig_seq_lens := origs, out_cache_loc := None, seq_lens_sum := sum_list seqs,
                          batch_output_ids := Some outs, batch_return_logprob := logprob, top_logprobs_nums := tops,
                          token_ids_logprobs := toks, has_stream := list_ex req_stream rs,
                          has_grammar := list_ex (\<lambda>r. grammar_terminated r \<noteq> None) rs\<rparr>))))))))))"

definition merge_opt :: "bool \<Rightarrow> bool \<Rightarrow> 'a list option \<Rightarrow> 'a list option \<Rightarrow> 'a \<Rightarrow> nat \<Rightarrow> nat \<Rightarrow> 'a list option result" where
  "merge_opt lp1 lp2 xs ys z n1 n2 =
     (if lp1 \<and> lp2 then (case (xs, ys) of (Some x, Some y) \<Rightarrow> Inr (Some (x @ y)) | (None, _) \<Rightarrow> Inl AttributeError | _ \<Rightarrow> Inl TypeError)
      else if lp1 then (case xs of Some x \<Rightarrow> Inr (Some (x @ replicate n2 z)) | None \<Rightarrow> Inl AttributeError)
      else if lp2 then (case ys of Some y \<Rightarrow> Inr (Some (replicate n1 z @ y)) | None \<Rightarrow> Inl TypeError)
      else Inr xs)"

definition merge_batch :: "schedule_batch \<Rightarrow> schedule_batch \<Rightarrow> schedule_batch result" where
  "merge_batch b other =
     bind_r (case (batch_output_ids b, batch_output_ids other) of
         (None, _) \<Rightarrow> Inr None | (Some x, Some y) \<Rightarrow> Inr (Some (x @ y)) | (Some _, None) \<Rightarrow> Inl TypeError) (\<lambda>outs.
     bind_r (merge_opt (batch_return_logprob b) (batch_return_logprob other) (top_logprobs_nums b)
         (top_logprobs_nums other) 0 (length (reqs b)) (length (reqs other))) (\<lambda>tops.
     bind_r (merge_opt (batch_return_logprob b) (batch_return_logprob other) (token_ids_logprobs b)
         (token_ids_logprobs other) None (length (reqs b)) (length (reqs other))) (\<lambda>toks.
       Inr (b\<lparr>req_pool_indices := req_pool_indices b @ req_pool_indices other,
              seq_lens := seq_lens b @ seq_lens other, seq_lens_cpu := seq_lens_cpu b @ seq_lens_cpu other,
              orig_seq_lens := orig_seq_lens b @ orig_seq_lens other, out_cache_loc := None,
              seq_lens_sum := seq_lens_sum b + seq_lens_sum other, batch_output_ids := outs,
              top_logprobs_nums := tops, token_ids_logprobs := toks, reqs := reqs b @ reqs other,
              batch_return_logprob := (batch_return_logprob b \<or> batch_return_logprob other),
              has_stream := (has_stream b \<or> has_stream other), has_grammar := (has_grammar b \<or> has_grammar other),
              batch_return_hidden_states := (batch_return_hidden_states b \<or> batch_return_hidden_states other)\<rparr>))))"

definition cat_opt :: "'a list option \<Rightarrow> 'a list option \<Rightarrow> 'a list result" where
  "cat_opt x y = (case (x, y) of (Some xs, Some ys) \<Rightarrow> Inr (xs @ ys) | _ \<Rightarrow> Inl TypeError)"

text \<open>The requests of the running batch are updated in place; the result holds them updated.\<close>

definition mix_with_running :: "schedule_batch \<Rightarrow> schedule_batch \<Rightarrow> schedule_batch result" where
  "mix_with_running b running =
     (let rs = map (\<lambda>r. r\<lparr>fill_ids := origin_input_ids r @ Req.output_ids r, extend_input_len := 1\<rparr>) (reqs running);
          run = running\<lparr>reqs := rs\<rparr>;
          delta = (if enable_overlap b then 0 else -1 :: int)
      in bind_r (cat_opt (input_ids b) (input_ids run)) (\<lambda>ids.
         bind_r (cat_opt (out_cache_loc b) (out_cache_loc run)) (\<lambda>loc.
         bind_r (merge_batch (b\<lparr>forward_mode := Some MIXED\<rparr>) run) (\<lambda>b1.
           Inr (b1\<lparr>input_ids := Some ids, out_cache_loc := Some loc,
                   prefix_lens := prefix_lens b1 @ map (\<lambda>r. int (seqlen r) + delta) rs,
                   extend_lens := extend_lens b1 @ replicate (length rs) 1,
                   extend_num_tokens := extend_num_tokens b1 + length rs,
                   extend_logprob_start_lens := extend_logprob_start_lens b1 @ replicate (length rs) 0,
                   batch_is_prefill_only := False\<rparr>)))))"

section \<open>Memory of the next decode step\<close>

definition new_page_count_next_decode :: "mem_state \<Rightarrow> schedule_batch \<Rightarrow> nat list option \<Rightarrow> nat" where
  "new_page_count_next_decode m b sel =
     (let ps = allocator_page_size (kv_allocator m);
          rs = (case sel of None \<Rightarrow> reqs b | Some is \<Rightarrow> map (\<lambda>i. reqs b ! i) is)
      in if ps = 1 then length rs
         else if enable_overlap b then length (filter (\<lambda>r. seqlen r mod ps = 0) rs)
         else length (filter (\<lambda>r. (int (seqlen r) - 1) mod int ps = 0) rs))"

definition is_available_size_sufficient :: "mem_state \<Rightarrow> schedule_batch \<Rightarrow> nat \<Rightarrow> bool result" where
  "is_available_size_sufficient m b num =
     (if is_hybrid b
      then (case kv_allocator m of
              SWAAlloc a \<Rightarrow> Inr (full_available_size a \<ge> num \<and> swa_available_size a \<ge> num)
            | _ \<Rightarrow> Inl AttributeError)
      else bind_r (allocator_available_size (kv_allocator m)) (\<lambda>n. Inr (n \<ge> num)))"

definition check_decode_mem ::
    "mem_state \<Rightarrow> schedule_batch \<Rightarrow> nat \<Rightarrow> nat list option \<Rightarrow> (bool \<times> mem_state) result" where
  "check_decode_mem m b buf_multiplier sel =
     (let num = new_page_count_next_decode m b sel * buf_multiplier * allocator_page_size (kv_allocator m)
      in bind_r (evict_from_tree_cache m num) (\<lambda>m1.
         bind_r (is_available_size_sufficient m1 b num) (\<lambda>ok. Inr (ok, m1))))"

section \<open>Retraction\<close>

definition release_req ::
    "server_cfg \<Rightarrow> mem_state \<Rightarrow> schedule_batch \<Rightarrow> nat \<Rightarrow> nat \<Rightarrow> (schedule_batch \<times> mem_state) result" where
  "release_req cfg m b idx remaining =
     bind_r (release_kv_cache (spec_topk cfg) (spec_on cfg) (server_page_size cfg) m (reqs b ! idx) False) (\<lambda>(m1, r1).
     bind_r (evict_from_tree_cache m1 (remaining * RETRACT_DECODE_STEPS cfg)) (\<lambda>m2.
       Inr (b\<lparr>reqs := (reqs b)[idx := reset_for_retract r1]\<rparr>, m2)))"

definition room_for_one :: "mem_state \<Rightarrow> schedule_batch \<Rightarrow> bool result" where
  "room_for_one m b =
     (if is_hybrid b
      then (case kv_allocator m of
              SWAAlloc a \<Rightarrow> Inr (full_available_size a > 0 \<and> swa_available_size a > 0)
            | _ \<Rightarrow> Inl AttributeError)
      else bind_r (allocator_available_size (kv_allocator m)) (\<lambda>n. Inr (n > 0)))"

text \<open>
  The loop of \<^verbatim>\<open>retract_decode\<close>. The index list is kept reversed, so that its head is the element
  \<^verbatim>\<open>pop\<close> removes. The result has the indices left, the retracted ones in order, and the state.
\<close>

fun retract_loop ::
    "server_cfg \<Rightarrow> mem_state \<Rightarrow> schedule_batch \<Rightarrow> bool \<Rightarrow> nat list \<Rightarrow> nat list \<Rightarrow>
     (nat list \<times> nat list \<times> schedule_batch \<times> mem_state) result" where
  "retract_loop cfg m b first idxs retracted =
     bind_r (if first then Inr (False, m) else check_decode_mem m b 1 (Some (rev idxs))) (\<lambda>(enough, m1).
       if enough then Inr (idxs, retracted, b, m1)
       else case idxs of
         [] \<Rightarrow> Inl IndexError
       | i # rest \<Rightarrow>
           if rest = [] then bind_r (room_for_one m1 b) (\<lambda>ok. assert_r ok (Inr (idxs, retracted, b, m1)))
           else bind_r (release_req cfg m1 b i (length rest)) (\<lambda>(b1, m2).
                  retract_loop cfg m2 b1 False rest (retracted @ [i])))"

declare retract_loop.simps [simp del]

definition retract_order :: "server_cfg \<Rightarrow> schedule_batch \<Rightarrow> nat list" where
  "retract_order cfg b =
     (let is = [0..<length (reqs b)]
      in if spec_on cfg then rev is
         else sort_key (\<lambda>i. (int (length (Req.output_ids (reqs b ! i))), - int (length (origin_input_ids (reqs b ! i))))) (rev is))"

text \<open>
  \<^verbatim>\<open>sort(reverse=True)\<close> keeps equal elements in order, so its reversal is the ascending stable sort of the
  reversed list, which \<open>retract_order\<close> yields.
\<close>

definition new_estimate_ratio :: "nat \<Rightarrow> req list \<Rightarrow> rat result" where
  "new_estimate_ratio steps rs =
     (if list_all (\<lambda>r. max_new_tokens (sampling r) \<noteq> None) rs
      then let decoded = sum_list (map (\<lambda>r. int (length (Req.output_ids r))) rs);
               total_max = sum_list (map (\<lambda>r. the (max_new_tokens (sampling r))) rs)
           in Inr (min 1 (of_int (decoded + int (steps * length rs)) / of_int (total_max + 1)))
      else Inl TypeError)"

definition retract_decode ::
    "server_cfg \<Rightarrow> mem_state \<Rightarrow> schedule_batch \<Rightarrow> (req list \<times> rat \<times> schedule_batch \<times> mem_state) result" where
  "retract_decode cfg m b =
     bind_r (retract_loop cfg m b True (retract_order cfg b) []) (\<lambda>(idxs, retracted, b1, m1).
     bind_r (filter_batch b1 [] (Some (rev idxs))) (\<lambda>b2.
     bind_r (new_estimate_ratio (RETRACT_DECODE_STEPS cfg) (reqs b2)) (\<lambda>ratio.
       Inr (map (\<lambda>i. reqs b1 ! i) retracted, ratio, b2, m1))))"

section \<open>The rows of a batch\<close>

text \<open>
  \<open>batch_rows\<close>: every tensor of a non-empty batch has one entry per request, and the pool index of each
  entry is that of its request.
\<close>

definition batch_rows :: "schedule_batch \<Rightarrow> bool" where
  "batch_rows b \<longleftrightarrow> reqs b \<noteq> [] \<longrightarrow>
     map req_pool_idx (reqs b) = map Some (req_pool_indices b) \<and> length (seq_lens b) = length (reqs b) \<and>
     seq_lens_cpu b = seq_lens b \<and> length (orig_seq_lens b) = length (reqs b) \<and> seq_lens_sum b = sum_list (seq_lens b) \<and>
     (\<exists>outs. batch_output_ids b = Some outs \<and> length outs = length (reqs b)) \<and>
     (batch_return_logprob b \<longleftrightarrow> list_ex return_logprob (reqs b)) \<and>
     (batch_return_logprob b \<longrightarrow> (\<exists>ns ls. top_logprobs_nums b = Some ns \<and> length ns = length (reqs b) \<and>
        token_ids_logprobs b = Some ls \<and> length ls = length (reqs b)))"

lemma pick_ok: "\<forall>i \<in> set is. i < length xs \<Longrightarrow> pick xs is = Inr (map (\<lambda>i. xs ! i) is)"
  by (simp add: pick_def list_all_iff)

lemma batch_rowsD:
  assumes "batch_rows b" and "reqs b \<noteq> []"
  shows "length (req_pool_indices b) = length (reqs b)" "length (seq_lens b) = length (reqs b)"
    "seq_lens_cpu b = seq_lens b" "length (orig_seq_lens b) = length (reqs b)"
    "i < length (reqs b) \<Longrightarrow> req_pool_idx (reqs b ! i) = Some (req_pool_indices b ! i)"
proof -
  have *: "map req_pool_idx (reqs b) = map Some (req_pool_indices b)" using assms by (simp add: batch_rows_def)
  show l: "length (req_pool_indices b) = length (reqs b)" using arg_cong [OF *, of length] by simp
  show "length (seq_lens b) = length (reqs b)" "seq_lens_cpu b = seq_lens b" "length (orig_seq_lens b) = length (reqs b)"
    using assms by (simp_all add: batch_rows_def)
  show "i < length (reqs b) \<Longrightarrow> req_pool_idx (reqs b ! i) = Some (req_pool_indices b ! i)"
    using arg_cong [OF *, of "\<lambda>xs. xs ! i"] l by simp
qed

lemma filter_batch_keep:
  assumes rows: "batch_rows b" and keep: "keep \<noteq> []" "\<forall>i \<in> set keep. i < length (reqs b)" "length keep \<noteq> length (reqs b)"
    and k: "keep_indices_of b excl k0 = keep"
  shows "\<exists>b'. filter_batch b excl k0 = Inr b' \<and> batch_rows b' \<and> reqs b' = map (\<lambda>i. reqs b ! i) keep \<and>
    req_pool_indices b' = map (\<lambda>i. req_pool_indices b ! i) keep \<and> seq_lens b' = map (\<lambda>i. seq_lens b ! i) keep \<and>
    enable_overlap b' = enable_overlap b \<and> is_hybrid b' = is_hybrid b"
proof -
  have ne: "reqs b \<noteq> []" using keep by (cases keep) auto
  note d = batch_rowsD [OF rows ne]
  obtain outs where outs: "batch_output_ids b = Some outs" "length outs = length (reqs b)" using rows ne by (auto simp: batch_rows_def)
  let ?rs = "map (\<lambda>i. reqs b ! i) keep"
  have lp: "batch_return_logprob b" if "list_ex return_logprob ?rs"
    using that rows ne keep(2) by (auto simp: batch_rows_def list_ex_iff)
  have opt: "(if list_ex return_logprob ?rs then bind_r (pick_opt (top_logprobs_nums b) keep) (\<lambda>x. Inr (Some x)) else Inr None)
      = Inr (if list_ex return_logprob ?rs then Some (map (\<lambda>i. the (top_logprobs_nums b) ! i) keep) else None)"
    "(if list_ex return_logprob ?rs then bind_r (pick_opt (token_ids_logprobs b) keep) (\<lambda>x. Inr (Some x)) else Inr None)
      = Inr (if list_ex return_logprob ?rs then Some (map (\<lambda>i. the (token_ids_logprobs b) ! i) keep) else None)"
    using lp rows ne keep(2) by (auto simp: batch_rows_def pick_opt_def pick_ok)
  have ridx: "map (\<lambda>i. req_pool_idx (reqs b ! i)) keep = map (\<lambda>i. Some (req_pool_indices b ! i)) keep"
    using keep(2) d(5) by simp
  show ?thesis
    unfolding filter_batch_def k Let_def
    using keep d outs ridx by (simp add: pick_ok pick_opt_def opt batch_rows_def o_def)
qed

lemma filter_full: "length (filter P xs) = length xs \<Longrightarrow> filter P xs = xs"
  by (metis filter_id_conv length_filter_less less_irrefl)

lemma keep_none:
  obtains keep where "keep_indices_of b excl None = keep"
    "map (\<lambda>i. reqs b ! i) keep = filter (\<lambda>r. \<not> finished r \<and> rid r \<notin> set (map rid excl)) (reqs b)"
    "\<forall>i \<in> set keep. i < length (reqs b)"
proof -
  let ?P = "\<lambda>r. \<not> finished r \<and> rid r \<notin> set (map rid excl)"
  have "filter ?P (map ((!) (reqs b)) [0..<length (reqs b)]) = map ((!) (reqs b)) (filter (?P \<circ> (!) (reqs b)) [0..<length (reqs b)])"
    by (rule filter_map)
  then show thesis by (intro that) (auto simp: keep_indices_of_def map_nth o_def)
qed

lemma filter_batch_none:
  assumes rows: "batch_rows b"
  shows "\<exists>b'. filter_batch b excl None = Inr b' \<and> batch_rows b' \<and>
    reqs b' = filter (\<lambda>r. \<not> finished r \<and> rid r \<notin> set (map rid excl)) (reqs b) \<and>
    set (seq_lens b') \<subseteq> set (seq_lens b) \<and> is_hybrid b' = is_hybrid b"
proof -
  let ?P = "\<lambda>r. \<not> finished r \<and> rid r \<notin> set (map rid excl)"
  obtain keep where k: "keep_indices_of b excl None = keep" "map (\<lambda>i. reqs b ! i) keep = filter ?P (reqs b)"
    "\<forall>i \<in> set keep. i < length (reqs b)" by (rule keep_none)
  consider "keep = []" | "keep \<noteq> []" "length keep = length (reqs b)" | "keep \<noteq> []" "length keep \<noteq> length (reqs b)" by blast
  then show ?thesis
  proof cases
    case 1
    then have "filter_batch b excl None = Inr (b\<lparr>reqs := []\<rparr>)" using k(1) by (simp add: filter_batch_def)
    then show ?thesis using k(2) 1 by (intro exI [of _ "b\<lparr>reqs := []\<rparr>"]) (simp add: batch_rows_def)
  next
    case 2
    then have "length (filter ?P (reqs b)) = length (reqs b)" using k(2) by (metis length_map)
    then have "filter ?P (reqs b) = reqs b" by (rule filter_full)
    moreover have "filter_batch b excl None = Inr b" using 2 k(1) by (simp add: filter_batch_def)
    ultimately show ?thesis using rows by simp
  next
    case 3
    obtain b' where b': "filter_batch b excl None = Inr b'" "batch_rows b'" "reqs b' = map (\<lambda>i. reqs b ! i) keep"
      "seq_lens b' = map (\<lambda>i. seq_lens b ! i) keep" "is_hybrid b' = is_hybrid b"
      using filter_batch_keep [OF rows 3(1) k(3) 3(2) k(1)] by blast
    have "reqs b \<noteq> []" using 3(1) k(3) by (cases keep) auto
    then have "set (seq_lens b') \<subseteq> set (seq_lens b)" using b'(4) k(3) batch_rowsD(2) [OF rows] by auto
    then show ?thesis using b' k(2) by auto
  qed
qed

lemma merge_opt_ok:
  assumes "batch_return_logprob b \<longrightarrow> (\<exists>x. xs = Some x \<and> length x = length (reqs b))"
    and "batch_return_logprob other \<longrightarrow> (\<exists>y. ys = Some y \<and> length y = length (reqs other))"
  shows "\<exists>z. merge_opt (batch_return_logprob b) (batch_return_logprob other) xs ys d (length (reqs b)) (length (reqs other)) = Inr z \<and>
      (batch_return_logprob b \<or> batch_return_logprob other \<longrightarrow> (\<exists>zs. z = Some zs \<and> length zs = length (reqs b) + length (reqs other)))"
  using assms by (auto simp: merge_opt_def)

lemma merge_batch_rows:
  assumes "batch_rows b" and "batch_rows other" and "reqs b \<noteq> []" and "reqs other \<noteq> []"
  shows "\<exists>b'. merge_batch b other = Inr b' \<and> batch_rows b' \<and> reqs b' = reqs b @ reqs other \<and>
      seq_lens b' = seq_lens b @ seq_lens other"
proof -
  obtain tops toks where t:
    "merge_opt (batch_return_logprob b) (batch_return_logprob other) (top_logprobs_nums b) (top_logprobs_nums other) 0
       (length (reqs b)) (length (reqs other)) = Inr tops"
    "batch_return_logprob b \<or> batch_return_logprob other \<longrightarrow> (\<exists>zs. tops = Some zs \<and> length zs = length (reqs b) + length (reqs other))"
    "merge_opt (batch_return_logprob b) (batch_return_logprob other) (token_ids_logprobs b) (token_ids_logprobs other) None
       (length (reqs b)) (length (reqs other)) = Inr toks"
    "batch_return_logprob b \<or> batch_return_logprob other \<longrightarrow> (\<exists>zs. toks = Some zs \<and> length zs = length (reqs b) + length (reqs other))"
    using merge_opt_ok [of b "top_logprobs_nums b" other "top_logprobs_nums other" 0]
      merge_opt_ok [of b "token_ids_logprobs b" other "token_ids_logprobs other" None] assms
    by (auto simp: batch_rows_def)
  obtain x y where xy: "batch_output_ids b = Some x" "length x = length (reqs b)" "batch_output_ids other = Some y"
    "length y = length (reqs other)" using assms by (auto simp: batch_rows_def)
  show ?thesis
    unfolding merge_batch_def xy(1,3) t(1,3)
    using assms t(2,4) xy by (auto simp: batch_rows_def)
qed

section \<open>Releasing a running request\<close>

text \<open>A running request holds a row, with its committed tokens in it, and a locked node; some of its tokens are its own.\<close>

definition holding :: "req_pool \<Rightarrow> req \<Rightarrow> bool" where
  "holding p r \<longleftrightarrow> last_node r \<noteq> None \<and> (\<exists>i. req_pool_idx r = Some i \<and> row_ok p i \<and> kv_committed_len r \<le> length (row_of p i)) \<and>
     \<not> kv_committed_freed r \<and> \<not> kv_overallocated_freed r \<and> kv_allocated_len r = kv_committed_len r \<and>
     length (prefix_indices r) < kv_committed_len r"

abbreviation node_of :: "req \<Rightarrow> nat" where
  "node_of r \<equiv> the (last_node r)"

definition plain_cfg :: "server_cfg \<Rightarrow> bool" where
  "plain_cfg cfg \<longleftrightarrow> \<not> spec_on cfg \<and> (spec_topk cfg = None \<or> spec_topk cfg = Some 1)"

definition token_tree :: "radix_cache \<Rightarrow> bool" where
  "token_tree c \<longleftrightarrow> page_size c = 1 \<and> \<not> is_eagle c"

lemma token_tree_conf: "conf c' = conf c \<Longrightarrow> token_tree c' = token_tree c"
  using conf_eqD [of c' c] by (simp add: token_tree_def)

lemma ceil_align_ge: "0 < y \<Longrightarrow> x \<le> ceil_align x y"
  using dividend_less_div_times [of y "x + y - 1"] by (simp add: ceil_align_def)

lemma release_kv_cache_token:
  assumes mem: "token_mem m c s (add_mset (node_of r) L)" and t: "token_tree c"
    and h: "holding (req_to_token_pool m) r" and topk: "topk = None \<or> topk = Some 1"
  shows "\<exists>c' s' p'. release_kv_cache topk False ps m r False
      = Inr (m\<lparr>tree_cache := RadixTree c', kv_allocator := TokenAlloc s', req_to_token_pool := p'\<rparr>,
          r\<lparr>kv_committed_freed := True, kv_overallocated_freed := True\<rparr>) \<and>
    token_mem (m\<lparr>tree_cache := RadixTree c', kv_allocator := TokenAlloc s', req_to_token_pool := p'\<rparr>) c' s' L \<and>
    conf c' = conf c \<and> req_to_token p' = req_to_token (req_to_token_pool m) \<and>
    token_available_size s < token_available_size s'"
proof -
  note d = token_memD [OF mem]
  let ?p = "req_to_token_pool m" and ?k = "kv_committed_len r" and ?o = "length (prefix_indices r)"
  obtain n i where n: "last_node r = Some n" and i: "req_pool_idx r = Some i" "row_ok ?p i" "?k \<le> length (row_of ?p i)"
    using h by (auto simp: holding_def)
  let ?kv = "take ?k (row_of ?p i)"
  let ?s = "token_free (token_free s (drop ?o ?kv)) []"
  obtain x c' where c': "dec_lock_of c (Some n) = Inr (x, c')" "rc_inv c' L" "touched_locks c c'"
    by (rule dec_lock_of_spec [of c n L]) (use d n in auto)
  have conf: "conf c' = conf c" by (rule touched_locksD(3) [OF c'(3)])
  have len: "page_aligned_len c ?k = int ?k" "old_prefix_len c r = int ?o"
    using t by (simp_all add: token_tree_def page_aligned_len_def actual_kv_len_def old_prefix_len_def Let_def)
  have sl: "py_slice ?kv (int ?o) (int ?k) = drop ?o ?kv" "py_from ?kv (int ?k) = []"
    using i(3) h by (simp_all add: py_slice_def py_from_def py_bound_def holding_def)
  have f: "token_invar (token_free s (drop ?o ?kv))" "token_slots (token_free s (drop ?o ?kv)) = token_slots s + mset (drop ?o ?kv)"
    using tok.free_slots [OF d(5), of "drop ?o ?kv"] by simp_all
  have f2: "token_invar ?s" "token_slots ?s = token_slots s + mset (drop ?o ?kv)"
    using tok.free_slots [OF f(1), of "[]"] f(2) by simp_all
  have rr: "read_row ?p (Some i) ?k = Inr ?kv"
    using row_okD [OF i(2)] by (simp add: read_row_def row_of_def)
  have op: "old_prefix_len c (r\<lparr>kv_committed_freed := True\<rparr>) = int ?o" using len(2) by (simp add: old_prefix_len_def)
  have "cache_finished_req topk allocator_free c ?p (TokenAlloc s) r False
      = Inr (c', rp_free ?p (FreeOne i), TokenAlloc ?s, r\<lparr>kv_committed_freed := True\<rparr>)"
    using h topk rr op d(4) n i(1) c'(1) len sl
    by (simp add: cache_finished_req_def pop_committed_kv_cache_def holding_def free_row_def assert_r_def Let_def)
  then have "release_kv_cache topk False ps m r False
      = Inr (m\<lparr>tree_cache := RadixTree c', kv_allocator := TokenAlloc ?s, req_to_token_pool := rp_free ?p (FreeOne i)\<rparr>,
          r\<lparr>kv_committed_freed := True, kv_overallocated_freed := True\<rparr>)"
    using h d(1,2)
    by (auto simp: release_kv_cache_def cache_finished_def pop_overallocated_kv_cache_def assert_r_def holding_def
        Let_def ceil_align_ge)
  moreover have "token_mem (m\<lparr>tree_cache := RadixTree c', kv_allocator := TokenAlloc ?s, req_to_token_pool := rp_free ?p (FreeOne i)\<rparr>) c' ?s L"
    using c'(2) f2(1) d(4) conf_eqD [OF conf] by (simp add: token_mem_def)
  moreover have "token_available_size s < token_available_size ?s"
    using d(6) tok.avail_slots [OF f2(1)] f2(2) h i(3) by (auto simp: holding_def)
  ultimately show ?thesis using conf by (intro exI [of _ c'] exI [of _ ?s] exI [of _ "rp_free ?p (FreeOne i)"]) simp
qed

lemma release_req_token:
  assumes mem: "token_mem m c s (add_mset (node_of (reqs b ! i)) L)" and t: "token_tree c" and cfg: "plain_cfg cfg"
    and h: "holding (req_to_token_pool m) (reqs b ! i)"
  shows "\<exists>m' c' s' r'. release_req cfg m b i n = Inr (b\<lparr>reqs := (reqs b)[i := r']\<rparr>, m') \<and> token_mem m' c' s' L \<and> token_tree c' \<and>
    req_to_token (req_to_token_pool m') = req_to_token (req_to_token_pool m) \<and> rid r' = rid (reqs b ! i) \<and> is_retracted r' \<and>
    token_available_size s < token_available_size s'"
proof -
  let ?r = "reqs b ! i"
  obtain c1 s1 p1 where r: "release_kv_cache (spec_topk cfg) (spec_on cfg) (server_page_size cfg) m ?r False
      = Inr (m\<lparr>tree_cache := RadixTree c1, kv_allocator := TokenAlloc s1, req_to_token_pool := p1\<rparr>,
          ?r\<lparr>kv_committed_freed := True, kv_overallocated_freed := True\<rparr>)"
    "token_mem (m\<lparr>tree_cache := RadixTree c1, kv_allocator := TokenAlloc s1, req_to_token_pool := p1\<rparr>) c1 s1 L"
    "conf c1 = conf c" "req_to_token p1 = req_to_token (req_to_token_pool m)" "token_available_size s < token_available_size s1"
    using release_kv_cache_token [OF mem t h, of "spec_topk cfg" "server_page_size cfg"] cfg by (auto simp: plain_cfg_def)
  let ?m1 = "m\<lparr>tree_cache := RadixTree c1, kv_allocator := TokenAlloc s1, req_to_token_pool := p1\<rparr>"
  obtain c2 s2 where e: "evict_from_tree_cache ?m1 (n * RETRACT_DECODE_STEPS cfg)
      = Inr (?m1\<lparr>tree_cache := RadixTree c2, kv_allocator := TokenAlloc s2\<rparr>)"
    "token_mem (?m1\<lparr>tree_cache := RadixTree c2, kv_allocator := TokenAlloc s2\<rparr>) c2 s2 L" "conf c2 = conf c1"
    "token_available_size s1 \<le> token_available_size s2"
    using evict_from_tree_cache_token [OF r(2)] by blast
  have "release_req cfg m b i n = Inr (b\<lparr>reqs := (reqs b)[i := reset_for_retract
      (?r\<lparr>kv_committed_freed := True, kv_overallocated_freed := True\<rparr>)]\<rparr>, ?m1\<lparr>tree_cache := RadixTree c2, kv_allocator := TokenAlloc s2\<rparr>)"
    using r(1) e(1) by (simp add: release_req_def)
  then show ?thesis
    using e r(3-5) t token_tree_conf [of c2 c] by (fastforce simp: reset_for_retract_def)
qed

section \<open>The retraction loop\<close>

abbreviation locks_of :: "schedule_batch \<Rightarrow> nat list \<Rightarrow> nat multiset" where
  "locks_of b is \<equiv> mset (map (\<lambda>i. node_of (reqs b ! i)) is)"

lemma check_decode_mem_token:
  assumes mem: "token_mem m c s L" and b: "\<not> is_hybrid b" and t: "token_tree c"
    and n: "n = (case sel of None \<Rightarrow> length (reqs b) | Some is \<Rightarrow> length is) * buf"
  shows "\<exists>m' c' s'. check_decode_mem m b buf sel = Inr (n \<le> token_available_size s', m') \<and> token_mem m' c' s' L \<and>
    token_tree c' \<and> req_to_token_pool m' = req_to_token_pool m \<and> token_available_size s \<le> token_available_size s' \<and>
    mem_tokens c' s' = mem_tokens c s \<and> (n \<le> token_available_size s' \<or> evictable_size c' = 0)"
proof -
  note d = token_memD [OF mem]
  have num: "new_page_count_next_decode m b sel * buf * allocator_page_size (kv_allocator m) = n"
    using d(2,5) n by (simp add: new_page_count_next_decode_def token_invar_def split: option.split)
  obtain c' s' where e: "evict_from_tree_cache m n = Inr (m\<lparr>tree_cache := RadixTree c', kv_allocator := TokenAlloc s'\<rparr>)"
    "token_mem (m\<lparr>tree_cache := RadixTree c', kv_allocator := TokenAlloc s'\<rparr>) c' s' L" "conf c' = conf c"
    "token_available_size s \<le> token_available_size s'" "mem_tokens c' s' = mem_tokens c s"
    "n \<le> token_available_size s' \<or> evictable_size c' = 0" using evict_from_tree_cache_token [OF mem] by blast
  have "check_decode_mem m b buf sel
      = Inr (n \<le> token_available_size s', m\<lparr>tree_cache := RadixTree c', kv_allocator := TokenAlloc s'\<rparr>)"
    unfolding check_decode_mem_def num Let_def using e(1) b by (simp add: is_available_size_sufficient_def)
  then show ?thesis using e t token_tree_conf [OF e(3)] by auto
qed

lemma retract_loop_spec:
  assumes "token_mem m c s (locks_of b idxs + L)" and "token_tree c" and cfg: "plain_cfg cfg" and "\<not> is_hybrid b"
    and "distinct idxs" and "\<forall>i \<in> set idxs. i < length (reqs b) \<and> holding (req_to_token_pool m) (reqs b ! i)" and "idxs \<noteq> []"
    and "if first then 2 \<le> length idxs else 0 < token_available_size s"
  shows "\<exists>ret left b' m' c' s'. retract_loop cfg m b first idxs done = Inr (left, done @ ret, b', m') \<and> idxs = ret @ left \<and>
    left \<noteq> [] \<and> (first \<longrightarrow> ret \<noteq> []) \<and> token_mem m' c' s' (locks_of b left + L) \<and> token_tree c' \<and> length left \<le> token_available_size s' \<and>
    req_to_token (req_to_token_pool m') = req_to_token (req_to_token_pool m) \<and>
    (\<exists>rs. b' = b\<lparr>reqs := rs\<rparr> \<and> map rid rs = map rid (reqs b) \<and> (\<forall>j. j \<notin> set ret \<longrightarrow> rs ! j = reqs b ! j) \<and>
      (\<forall>j \<in> set ret. is_retracted (rs ! j)))"
  using assms(1,2,4-)
proof (induction idxs arbitrary: m c s b first "done")
  case (Cons i rest)
  have pop: ?case if mem1: "token_mem m1 c1 s1 (locks_of b (i # rest) + L)" and t1: "token_tree c1"
    and pool: "req_to_token_pool m1 = req_to_token_pool m" and ne: "rest \<noteq> []"
    and ck: "(if first then Inr (False, m) else check_decode_mem m b 1 (Some (rev (i # rest)))) = Inr (False, m1)" for m1 c1 s1
  proof -
    have h: "holding (req_to_token_pool m1) (reqs b ! i)" using Cons.prems(5) pool by simp
    have mem1': "token_mem m1 c1 s1 (add_mset (node_of (reqs b ! i)) (locks_of b rest + L))" using mem1 by simp
    obtain m2 c2 s2 r' where r: "release_req cfg m1 b i (length rest) = Inr (b\<lparr>reqs := (reqs b)[i := r']\<rparr>, m2)"
      "token_mem m2 c2 s2 (locks_of b rest + L)" "token_tree c2" "req_to_token (req_to_token_pool m2) = req_to_token (req_to_token_pool m1)"
      "rid r' = rid (reqs b ! i)" "is_retracted r'" "token_available_size s1 < token_available_size s2"
      using release_req_token [OF mem1' t1 cfg h, of "length rest"] by blast
    let ?b = "b\<lparr>reqs := (reqs b)[i := r']\<rparr>"
    have i: "i \<notin> set rest" "i < length (reqs b)" using Cons.prems(4,5) by auto
    then have same: "reqs ?b ! j = reqs b ! j" if "j \<noteq> i" for j using that by simp
    have lk: "locks_of ?b xs = locks_of b xs" if "i \<notin> set xs" for xs
      by (rule arg_cong [where f = mset], rule map_cong [OF refl]) (use that same in metis)
    have mem2: "token_mem m2 c2 s2 (locks_of ?b rest + L)" using r(2) lk [OF i(1)] by simp
    have hold: "\<forall>j \<in> set rest. j < length (reqs ?b) \<and> holding (req_to_token_pool m2) (reqs ?b ! j)"
    proof
      fix j assume j: "j \<in> set rest"
      then have "reqs ?b ! j = reqs b ! j" using same i(1) by metis
      then show "j < length (reqs ?b) \<and> holding (req_to_token_pool m2) (reqs ?b ! j)"
        using Cons.prems(5) j r(4) pool by (simp add: holding_def row_ok_def row_of_def)
    qed
    have "\<not> is_hybrid ?b" "distinct rest" "if False then 2 \<le> length rest else 0 < token_available_size s2"
      using Cons.prems(3,4) r(7) by auto
    from Cons.IH [OF mem2 r(3) this(1,2) hold ne this(3), of "done @ [i]"]
    obtain ret left b' m' c' s' rs where q: "retract_loop cfg m2 ?b False rest (done @ [i]) = Inr (left, (done @ [i]) @ ret, b', m')"
      "rest = ret @ left" "left \<noteq> []" "token_mem m' c' s' (locks_of ?b left + L)" "token_tree c'" "length left \<le> token_available_size s'"
      "req_to_token (req_to_token_pool m') = req_to_token (req_to_token_pool m2)" "b' = ?b\<lparr>reqs := rs\<rparr>"
      "map rid rs = map rid (reqs ?b)" "\<forall>j. j \<notin> set ret \<longrightarrow> rs ! j = reqs ?b ! j" "\<forall>j \<in> set ret. is_retracted (rs ! j)"
      by blast
    have "locks_of ?b left = locks_of b left" using i(1) q(2) by (intro lk) simp
    moreover have "map rid rs = map rid (reqs b)"
    proof -
      have "(map rid (reqs b))[i := rid r'] = map rid (reqs b)" using r(5) i(2) by (metis list_update_id nth_map)
      then show ?thesis using q(9) by (simp add: map_update)
    qed
    moreover have "rs ! i = r'" using q(2,10) i by auto
    moreover have "retract_loop cfg m b first (i # rest) done = Inr (left, (done @ [i]) @ ret, b', m')"
      using ck ne r(1) q(1) by (subst retract_loop.simps) simp
    ultimately show ?thesis
      using q r(4,6) pool same
      by (intro exI [of _ "i # ret"] exI [of _ left] exI [of _ b'] exI [of _ m'] exI [of _ c'] exI [of _ s']) auto
  qed
  show ?case
  proof (cases first)
    case True
    then have "rest \<noteq> []" using Cons.prems(7) by auto
    then show ?thesis using pop [OF Cons.prems(1,2) refl] True by simp
  next
    case False
    obtain m1 c1 s1 where ck: "check_decode_mem m b 1 (Some (rev (i # rest))) = Inr (length (i # rest) \<le> token_available_size s1, m1)"
      "token_mem m1 c1 s1 (locks_of b (i # rest) + L)" "token_tree c1" "req_to_token_pool m1 = req_to_token_pool m"
      "token_available_size s \<le> token_available_size s1"
      using check_decode_mem_token [OF Cons.prems(1,3,2), of _ "Some (rev (i # rest))" 1] by auto
    show ?thesis
    proof (cases "length (i # rest) \<le> token_available_size s1")
      case True
      then have "retract_loop cfg m b first (i # rest) done = Inr (i # rest, done @ [], b, m1)"
        using False ck(1) by (subst retract_loop.simps) simp
      then show ?thesis using ck True False
        by (intro exI [of _ "[]"] exI [of _ "i # rest"] exI [of _ b] exI [of _ m1] exI [of _ c1] exI [of _ s1])
          (auto intro: exI [of _ "reqs b"])
    next
      case no: False
      then have "rest \<noteq> []" using Cons.prems(7) False ck(5) by (cases rest) auto
      then show ?thesis using pop [OF ck(2,3,4)] no False ck(1) by auto
    qed
  qed
qed simp

lemma retract_order_perm:
  "mset (retract_order cfg b) = mset [0..<length (reqs b)]"
  by (simp add: retract_order_def Let_def del: mset_upt)

lemma retract_order_facts:
  "distinct (retract_order cfg b)" "set (retract_order cfg b) = {..<length (reqs b)}"
  "length (retract_order cfg b) = length (reqs b)" "locks_of b (retract_order cfg b) = mset (map node_of (reqs b))"
proof -
  note p = retract_order_perm [where cfg = cfg and b = b]
  show "distinct (retract_order cfg b)" using mset_eq_imp_distinct_iff [OF p] by simp
  show "set (retract_order cfg b) = {..<length (reqs b)}" using mset_eq_setD [OF p] by auto
  show "length (retract_order cfg b) = length (reqs b)" using mset_eq_length [OF p] by simp
  have "map (\<lambda>i. node_of (reqs b ! i)) [0..<length (reqs b)] = map node_of (reqs b)"
    by (rule nth_equalityI) simp_all
  then show "locks_of b (retract_order cfg b) = mset (map node_of (reqs b))"
    using p by (metis mset_map)
qed

lemma new_estimate_ratio_le:
  assumes "\<forall>r \<in> set rs. max_new_tokens (sampling r) \<noteq> None"
  shows "\<exists>q \<le> 1. new_estimate_ratio steps rs = Inr q"
  using assms by (simp add: new_estimate_ratio_def list_all_iff Let_def)

text \<open>Filtering after the loop: the kept requests are those of the batch, which itself was aligned.\<close>

lemma filter_retracted:
  assumes rows: "batch_rows b" and "length rs = length (reqs b)" and keep: "keep \<noteq> []" "\<forall>i \<in> set keep. i < length (reqs b)"
    "length keep \<noteq> length (reqs b)" and same: "map (\<lambda>i. rs ! i) keep = map (\<lambda>i. reqs b ! i) keep"
  shows "\<exists>b'. filter_batch (b\<lparr>reqs := rs\<rparr>) [] (Some keep) = Inr b' \<and> batch_rows b' \<and> reqs b' = map (\<lambda>i. reqs b ! i) keep \<and>
    set (seq_lens b') \<subseteq> set (seq_lens b) \<and> is_hybrid b' = is_hybrid b"
proof -
  have "keep_indices_of b [] (Some keep) = keep" by (simp add: keep_indices_of_def)
  from filter_batch_keep [OF rows keep this]
  obtain b' where b': "filter_batch b [] (Some keep) = Inr b'" "batch_rows b'" "reqs b' = map (\<lambda>i. reqs b ! i) keep"
    "seq_lens b' = map (\<lambda>i. seq_lens b ! i) keep" "is_hybrid b' = is_hybrid b" by blast
  have "reqs b \<noteq> []" using keep by (cases keep) auto
  then have "set (seq_lens b') \<subseteq> set (seq_lens b)" using b'(4) keep(2) batch_rowsD(2) [OF rows] by auto
  moreover have "filter_batch (b\<lparr>reqs := rs\<rparr>) [] (Some keep) = filter_batch b [] (Some keep)"
    using keep assms(2) by (simp add: filter_batch_def keep_indices_of_def pick_ok same Let_def del: map_eq_conv)
  ultimately show ?thesis using b' by simp
qed

lemma rids_split:
  assumes "map rid rs = map rid qs" and "mset (ret @ left) = mset [0..<length qs]" and "ks = map (\<lambda>i. qs ! i) (rev left)"
  shows "mset (map rid (map (\<lambda>i. rs ! i) ret)) + mset (map rid ks) = mset (map rid qs)"
proof -
  have bound: "\<forall>i \<in> set (ret @ left). i < length qs" using mset_eq_setD [OF assms(2)] by auto
  have nth: "rid (rs ! i) = rid (qs ! i)" if "i < length qs" for i
    using arg_cong [OF assms(1), of "\<lambda>xs. xs ! i"] arg_cong [OF assms(1), of length] that by simp
  have "map rid (map (\<lambda>i. rs ! i) ret) = map (\<lambda>i. rid (qs ! i)) ret" using bound nth by simp
  then have "mset (map rid (map (\<lambda>i. rs ! i) ret)) = mset (map (\<lambda>i. rid (qs ! i)) ret)" by (rule arg_cong)
  moreover have "mset (map rid ks) = mset (map (\<lambda>i. rid (qs ! i)) left)" by (simp add: assms(3) image_mset.compositionality o_def)
  moreover have "mset (map (\<lambda>i. rid (qs ! i)) (ret @ left)) = mset (map (\<lambda>i. rid (qs ! i)) [0..<length qs])"
    using assms(2) by (metis mset_map)
  moreover have "map (\<lambda>i. rid (qs ! i)) [0..<length qs] = map rid qs" by (rule nth_equalityI) simp_all
  ultimately show ?thesis by simp
qed

section \<open>Building a prefill batch\<close>

lemma extend_reqs_ok:
  assumes "length is = length rs" and "length ss = length rs" and "length ps = length rs"
    and "\<forall>i < length rs. int (ss ! i) - int (ps ! i) = extend_input_len (rs ! i)"
  shows "\<exists>rs'. extend_reqs po rs is ss ps = Inr rs' \<and> length rs' = length rs \<and>
    (\<forall>i < length rs. extend_req po (rs ! i) (is ! i) (ss ! i) (ps ! i) = Inr (rs' ! i))"
  using assms
proof (induction po rs "is" ss ps rule: extend_reqs.induct)
  case (1 po r rs i "is" s ss p ps)
  have "\<forall>i < length rs. int (ss ! i) - int (ps ! i) = extend_input_len (rs ! i)" using 1(5) by (metis Suc_less_eq length_Cons nth_Cons_Suc)
  moreover obtain r' where r': "extend_req po r i s p = Inr r'" using 1(5) by (auto simp: extend_req_def)
  ultimately obtain rs' where rs': "extend_reqs po rs is ss ps = Inr rs'" "length rs' = length rs"
    "\<forall>i < length rs. extend_req po (rs ! i) (is ! i) (ss ! i) (ps ! i) = Inr (rs' ! i)" using 1 by auto
  show ?case using r' rs' by (intro exI [of _ "r' # rs'"]) (auto simp: nth_Cons split: nat.split)
qed auto

text \<open>The request table when a batch is built: equal rows, and free rows that are rows.\<close>

definition pool_ready :: "req_pool \<Rightarrow> nat \<Rightarrow> bool" where
  "pool_ready p w \<longleftrightarrow> (\<forall>row \<in> set (req_to_token p). length row = w) \<and> distinct (free_slots p) \<and> (\<forall>i \<in> set (free_slots p). row_ok p i)"

definition new_tokens :: "req \<Rightarrow> nat" where
  "new_tokens r = length (fill_ids r) - length (prefix_indices r)"

definition fits_row :: "nat \<Rightarrow> req \<Rightarrow> bool" where
  "fits_row w r \<longleftrightarrow> length (prefix_indices r) \<le> length (fill_ids r) \<and> length (fill_ids r) \<le> w \<and>
     extend_input_len r = int (new_tokens r)"

lemma share_length:
  fixes ns :: "nat list"
  assumes "i < length ns" and "length out = sum_list ns"
  shows "length (take (ns ! i) (drop (sum_list (take i ns)) out)) = ns ! i"
proof -
  have "sum_list ns = sum_list (take i ns) + (ns ! i + sum_list (drop (Suc i) ns))"
    using assms(1) by (metis append_take_drop_id Cons_nth_drop_Suc sum_list.Cons sum_list.append)
  then show ?thesis using assms(2) by simp
qed

lemma alloc_for_extend_token:
  assumes mem: "token_mem m c s L" and t: "token_tree c" and pool: "pool_ready (req_to_token_pool m) w"
    and rs: "rs \<noteq> []" "\<forall>r \<in> set rs. fits_row w r" "length rs \<le> length (free_slots (req_to_token_pool m))"
    and room: "int (sum_list (map new_tokens rs)) \<le> mem_tokens c s"
  defines "idx \<equiv> take (length rs) (free_slots (req_to_token_pool m))"
  shows "\<exists>out m' c' s'. alloc_for_extend tri e chunk m rs (map (\<lambda>r. length (prefix_indices r)) rs) (map new_tokens rs)
      (map (\<lambda>r. length (fill_ids r)) rs) (sum_list (map new_tokens rs)) = Inr (out, idx, rs, m') \<and>
    token_mem m' c' s' L \<and> token_tree c' \<and> length out = sum_list (map new_tokens rs) \<and>
    mset out + token_slots s' + tree_slots c' = token_slots s + tree_slots c \<and>
    (\<forall>i < length rs. row_of (req_to_token_pool m') (idx ! i) = map to_int32 (prefix_indices (rs ! i))
      @ map to_int32 (take (new_tokens (rs ! i)) (drop (sum_list (take i (map new_tokens rs))) out))
      @ drop (length (fill_ids (rs ! i))) (row_of (req_to_token_pool m) (idx ! i)))"
proof -
  let ?p = "req_to_token_pool m" and ?num = "sum_list (map new_tokens rs)"
  let ?p1 = "?p\<lparr>free_slots := drop (length rs) (free_slots ?p)\<rparr>"
  let ?m1 = "m\<lparr>req_to_token_pool := ?p1\<rparr>"
  let ?pre = "map (\<lambda>r. length (prefix_indices r)) rs" and ?seq = "map (\<lambda>r. length (fill_ids r)) rs"
  note d = token_memD [OF mem]
  have m1: "token_mem ?m1 c s L" using mem by (simp add: token_mem_def)
  have al: "alloc_req_slots ?p (length rs) = Inr (idx, ?p1)" using rs(3) by (simp add: alloc_req_slots_def rp_alloc_def idx_def)
  obtain out st c' s' where a: "alloc_token_slots ?m1 ?num False
      = Inr (out, st, ?m1\<lparr>tree_cache := RadixTree c', kv_allocator := TokenAlloc s'\<rparr>)"
    "token_mem (?m1\<lparr>tree_cache := RadixTree c', kv_allocator := TokenAlloc s'\<rparr>) c' s' L" "conf c' = conf c" "length out = ?num"
    "mset out + token_slots s' + tree_slots c' = token_slots s + tree_slots c"
    using alloc_token_slots_spec [OF m1, of ?num False] room by auto
  have li: "length idx = length rs" "set idx \<subseteq> set (free_slots ?p)" "distinct idx"
    using rs(3) pool by (simp_all add: idx_def set_take_subset pool_ready_def)
  have ok: "row_ok ?p (idx ! i)" if "i < length rs" for i using li(1,2) that pool unfolding pool_ready_def by (metis nth_mem subsetD)
  have dist: "distinct (map nat idx)"
  proof -
    have "0 \<le> x" if "x \<in> set idx" for x using that li(2) pool by (auto simp: pool_ready_def row_ok_def)
    then show ?thesis using li(3) by (auto simp: distinct_map inj_on_def eq_nat_nat_iff)
  qed
  have bo: "batch_ok w (req_to_token ?p1) (map nat idx) (map prefix_indices rs) ?pre ?seq (map new_tokens rs) out"
    using pool ok li(1) rs(2) a(4) by (auto simp: batch_ok_def pool_ready_def row_ok_def fits_row_def new_tokens_def)
  have "req_to_token ?p1 \<noteq> []" using ok [of 0] rs(1) by (auto simp: row_ok_def)
  from write_cache_indices_spec [OF bo this dist]
  obtain p2 where p2: "write_cache_indices True ?p1 (map nat idx) (map prefix_indices rs) ?pre ?seq (map new_tokens rs) out = Inr p2"
    "write_cache_indices False ?p1 (map nat idx) (map prefix_indices rs) ?pre ?seq (map new_tokens rs) out = Inr p2"
    "\<forall>i < length (map nat idx). req_to_token p2 ! (map nat idx ! i) = map to_int32 (map prefix_indices rs ! i)
      @ map to_int32 (take (map new_tokens rs ! i) (drop (sum_list (take i (map new_tokens rs))) out))
      @ drop (?seq ! i) (req_to_token ?p1 ! (map nat idx ! i))" by blast
  let ?m2 = "?m1\<lparr>tree_cache := RadixTree c', kv_allocator := TokenAlloc s', req_to_token_pool := p2\<rparr>"
  have w: "write_cache_indices tri ?p1 (map nat idx) (map prefix_indices rs) ?pre ?seq (map new_tokens rs) out = Inr p2"
    using p2(1,2) by (cases tri) simp_all
  have "drop_window m (zip rs ?pre) chunk = Inr (m, rs)" using d(1) by (simp add: drop_window_def)
  then have "alloc_for_extend tri e chunk m rs ?pre (map new_tokens rs) ?seq ?num = Inr (out, idx, rs, ?m2)"
    using al a(1) w t d(1) by (simp add: alloc_for_extend_def token_tree_def Let_def)
  moreover have "token_mem ?m2 c' s' L" using a(2) by (simp add: token_mem_def)
  moreover have "row_of (req_to_token_pool ?m2) (idx ! i) = map to_int32 (prefix_indices (rs ! i))
      @ map to_int32 (take (new_tokens (rs ! i)) (drop (sum_list (take i (map new_tokens rs))) out))
      @ drop (length (fill_ids (rs ! i))) (row_of ?p (idx ! i))" if "i < length rs" for i
    using p2(3) that li(1) by (simp add: row_of_def)
  ultimately show ?thesis using a(3-5) t token_tree_conf [OF a(3)] by blast
qed

lemma prepare_for_extend_spec:
  assumes mem: "token_mem m c s L" and t: "token_tree c" and pool: "pool_ready (req_to_token_pool m) w" and rs: "reqs b \<noteq> []"
    "\<forall>r \<in> set (reqs b). fits_row w r" "length (reqs b) \<le> length (free_slots (req_to_token_pool m))"
    and room: "int (sum_list (map new_tokens (reqs b))) \<le> mem_tokens c s"
  shows "\<exists>b' m' out c' s'. prepare_for_extend cfg m b = Inr (b', m') \<and> out_cache_loc b' = Some out \<and>
    length out = extend_num_tokens b' \<and> token_mem m' c' s' L \<and>
    mset out + token_slots s' + tree_slots c' = token_slots s + tree_slots c \<and> length (reqs b') = length (reqs b) \<and>
    (\<forall>i < length (reqs b). req_pool_idx (reqs b' ! i) = Some (free_slots (req_to_token_pool m) ! i) \<and>
      kv_committed_len (reqs b' ! i) = length (fill_ids (reqs b ! i)) \<and>
      take (length (fill_ids (reqs b ! i))) (row_of (req_to_token_pool m') (free_slots (req_to_token_pool m) ! i))
        = map to_int32 (prefix_indices (reqs b ! i)
            @ take (new_tokens (reqs b ! i)) (drop (sum_list (take i (map new_tokens (reqs b)))) out)))"
proof -
  let ?rs = "reqs b" and ?idx = "take (length (reqs b)) (free_slots (req_to_token_pool m))"
  let ?pre = "map (\<lambda>r. length (prefix_indices r)) ?rs" and ?seq = "map (\<lambda>r. length (fill_ids r)) ?rs"
  obtain out m' c' s' where a: "alloc_for_extend (support_triton cfg) (kernels cfg) (attention_chunk_size cfg) m ?rs ?pre
      (map new_tokens ?rs) ?seq (sum_list (map new_tokens ?rs)) = Inr (out, ?idx, ?rs, m')" "token_mem m' c' s' L"
    "length out = sum_list (map new_tokens ?rs)" "mset out + token_slots s' + tree_slots c' = token_slots s + tree_slots c"
    "\<forall>i < length ?rs. row_of (req_to_token_pool m') (?idx ! i) = map to_int32 (prefix_indices (?rs ! i))
      @ map to_int32 (take (new_tokens (?rs ! i)) (drop (sum_list (take i (map new_tokens ?rs))) out))
      @ drop (length (fill_ids (?rs ! i))) (row_of (req_to_token_pool m) (?idx ! i))"
    using alloc_for_extend_token [OF mem t pool rs room] by blast
  have fit: "fits_row w (?rs ! i)" if "i < length ?rs" for i using rs(2) that by simp
  obtain rs' where e: "extend_reqs (batch_is_prefill_only b) ?rs ?idx ?seq ?pre = Inr rs'" "length rs' = length ?rs"
    "\<forall>i < length ?rs. extend_req (batch_is_prefill_only b) (?rs ! i) (?idx ! i) (?seq ! i) (?pre ! i) = Inr (rs' ! i)"
    using extend_reqs_ok [of ?idx ?rs ?seq ?pre "batch_is_prefill_only b"] rs(3) fit by (auto simp: fits_row_def new_tokens_def)
  have maps: "map nat (map extend_input_len ?rs) = map new_tokens ?rs"
    "map length (map (\<lambda>r. drop (length (prefix_indices r)) (fill_ids r)) ?rs) = map new_tokens ?rs"
    using rs(2) by (auto simp: fits_row_def new_tokens_def)
  have row: "req_pool_idx (rs' ! i) = Some (free_slots (req_to_token_pool m) ! i) \<and> kv_committed_len (rs' ! i) = length (fill_ids (?rs ! i)) \<and>
      take (length (fill_ids (?rs ! i))) (row_of (req_to_token_pool m') (free_slots (req_to_token_pool m) ! i))
        = map to_int32 (prefix_indices (?rs ! i) @ take (new_tokens (?rs ! i)) (drop (sum_list (take i (map new_tokens ?rs))) out))"
    if i: "i < length ?rs" for i
  proof -
    have r: "rs' ! i = (?rs ! i)\<lparr>req_pool_idx := Some (?idx ! i), kv_committed_len := length (fill_ids (?rs ! i)),
        kv_allocated_len := length (fill_ids (?rs ! i)),
        cached_tokens := cached_tokens (?rs ! i) + (int (length (prefix_indices (?rs ! i))) - int (already_computed (?rs ! i))),
        already_computed := length (fill_ids (?rs ! i)), is_retracted := False,
        extend_logprob_start_len := relative_logprob_start (batch_is_prefill_only b) (?rs ! i) (int (length (prefix_indices (?rs ! i))))\<rparr>"
      using e(3) i by (auto simp: extend_req_def assert_r_eq_Inr)
    have "length (take (new_tokens (?rs ! i)) (drop (sum_list (take i (map new_tokens ?rs))) out)) = new_tokens (?rs ! i)"
      using share_length [of i "map new_tokens ?rs" out] a(3) i by simp
    then show ?thesis using r a(5) i fit [OF i] rs(3) by (simp add: fits_row_def new_tokens_def)
  qed
  show ?thesis
    unfolding prepare_for_extend_def Let_def maps using a(2-4) e(2) row by (auto simp: a(1) e(1))
qed

section \<open>An example\<close>

lemma root_locks: "rc_inv c {#} \<Longrightarrow> rc_inv c (replicate_mset k (root_node c))"
proof (induction k)
  case (Suc k)
  then show ?case using relock_inv [of c "replicate_mset k (root_node c)" "root_node c" "[]" 0 1] chain_root by simp
qed simp

definition demo_held :: "string \<Rightarrow> radix_cache \<Rightarrow> int \<Rightarrow> req" where
  "demo_held x c i = demo_req\<lparr>rid := x, req_pool_idx := Some i, last_node := Some (root_node c), kv_committed_len := 2, kv_allocated_len := 2\<rparr>"

definition demo_kernels :: kernel_env where
  "demo_kernels = \<lparr>masked_lane = 0, out_of_range = (\<lambda>_. 0), uninitialised = (\<lambda>_. 0)\<rparr>"

definition demo_cfg :: server_cfg where
  "demo_cfg = \<lparr>spec_topk = None, spec_on = False, server_page_size = 1, RETRACT_DECODE_STEPS = 20, support_triton = True,
     attention_chunk_size = 1, kernels = demo_kernels\<rparr>"

definition demo_mem :: "radix_cache \<Rightarrow> mem_state" where
  "demo_mem c = \<lparr>tree_cache = RadixTree c, kv_allocator = TokenAlloc (token_init 4 False),
     req_to_token_pool = \<lparr>rp_size = 2, max_context_len = 4, req_to_token = [[5, 6, 0, 0], [7, 8, 0, 0]], free_slots = []\<rparr>\<rparr>"

definition demo_batch :: "radix_cache \<Rightarrow> schedule_batch" where
  "demo_batch c = \<lparr>reqs = [demo_held ''a'' c 0, demo_held ''b'' c 1], is_hybrid = False, forward_mode = Some DECODE,
     enable_overlap = False, input_ids = None, req_pool_indices = [0, 1], seq_lens = [2, 2], seq_lens_cpu = [2, 2],
     orig_seq_lens = [2, 2], out_cache_loc = None, batch_output_ids = Some [1, 1], seq_lens_sum = 4,
     batch_return_logprob = False, top_logprobs_nums = None, token_ids_logprobs = None, prefix_lens = [], extend_lens = [],
     extend_num_tokens = 0, extend_logprob_start_lens = [], extend_input_logprob_token_ids = None, has_stream = False,
     has_grammar = False, batch_return_hidden_states = False, batch_is_prefill_only = False, batch_is_full = False,
     batch_chunked_req = None, decoding_reqs = None\<rparr>"

section \<open>Properties\<close>

lemma retract_decode_spec:
  assumes "token_mem m c s (mset (map node_of (reqs b)) + L)" and "token_tree c" and "plain_cfg cfg" and "\<not> is_hybrid b"
    and "batch_rows b" and "2 \<le> length (reqs b)"
    and "\<And>r. r \<in> set (reqs b) \<Longrightarrow> holding (req_to_token_pool m) r \<and> max_new_tokens (sampling r) \<noteq> None"
  shows "\<exists>ret ratio b' m' c' s'. retract_decode cfg m b = Inr (ret, ratio, b', m') \<and> ret \<noteq> [] \<and> reqs b' \<noteq> [] \<and>
    mset (map rid ret) + mset (map rid (reqs b')) = mset (map rid (reqs b)) \<and> set (reqs b') \<subseteq> set (reqs b) \<and>
    (\<forall>r \<in> set ret. is_retracted r) \<and> token_mem m' c' s' (mset (map node_of (reqs b')) + L) \<and>
    length (reqs b') \<le> token_available_size s' \<and> batch_rows b' \<and> ratio \<le> 1 \<and> token_tree c' \<and>
    set (seq_lens b') \<subseteq> set (seq_lens b) \<and> req_to_token (req_to_token_pool m') = req_to_token (req_to_token_pool m) \<and>
    is_hybrid b' = is_hybrid b"
proof -
  let ?is = "retract_order cfg b"
  note o = retract_order_facts [where cfg = cfg and b = b]
  have mem: "token_mem m c s (locks_of b ?is + L)" using assms(1) o(4) by simp
  have hold: "\<forall>i \<in> set ?is. i < length (reqs b) \<and> holding (req_to_token_pool m) (reqs b ! i)"
    using o(2) assms(7) by auto
  have ne: "?is \<noteq> []" "if True then 2 \<le> length ?is else 0 < token_available_size s" using o(3) assms(6) by auto
  from retract_loop_spec [OF mem assms(2-4) o(1) hold ne, of "[]"]
  obtain ret left b1 m' c' s' rs where l: "retract_loop cfg m b True ?is [] = Inr (left, [] @ ret, b1, m')"
    "?is = ret @ left" "left \<noteq> []" "ret \<noteq> []" "token_mem m' c' s' (locks_of b left + L)" "length left \<le> token_available_size s'"
    "map rid rs = map rid (reqs b)" "\<forall>j. j \<notin> set ret \<longrightarrow> rs ! j = reqs b ! j" "\<forall>j \<in> set ret. is_retracted (rs ! j)"
    "b1 = b\<lparr>reqs := rs\<rparr>" "token_tree c'" "req_to_token (req_to_token_pool m') = req_to_token (req_to_token_pool m)" by blast
  let ?b = "b\<lparr>reqs := rs\<rparr>"
  have len: "length rs = length (reqs b)" using arg_cong [OF l(7), of length] by simp
  have sub: "\<forall>i \<in> set (rev left). i < length (reqs b)" using l(2) o(2) by (metis Un_iff lessThan_iff set_append set_rev)
  have dis: "set ret \<inter> set left = {}" using o(1) l(2) by (metis distinct_append)
  have kept: "map (\<lambda>i. rs ! i) (rev left) = map (\<lambda>i. reqs b ! i) (rev left)" using l(8) dis by auto
  have short: "length (rev left) \<noteq> length (reqs b)" using o(3) l(2,4) by (metis length_append length_rev add_eq_self_zero length_0_conv add.commute)
  obtain b' where b': "filter_batch ?b [] (Some (rev left)) = Inr b'" "batch_rows b'" "reqs b' = map (\<lambda>i. reqs b ! i) (rev left)"
    "set (seq_lens b') \<subseteq> set (seq_lens b)" "is_hybrid b' = is_hybrid b"
    using filter_retracted [OF assms(5) len _ sub short kept] l(3) by auto
  have sub': "set (reqs b') \<subseteq> set (reqs b)" using b'(3) sub by auto
  obtain q where q: "new_estimate_ratio (RETRACT_DECODE_STEPS cfg) (reqs b') = Inr q" "q \<le> 1"
    using new_estimate_ratio_le [of "reqs b'"] sub' assms(7) by blast
  have eq: "mset (map node_of (reqs b')) = locks_of b left" using b'(3) by (simp add: image_mset.compositionality o_def)
  show ?thesis
  proof (intro exI conjI)
    show "retract_decode cfg m b = Inr (map (\<lambda>i. rs ! i) ret, q, b', m')"
      using l(1,10) b'(1) q(1) by (simp add: retract_decode_def)
    show "mset (map rid (map (\<lambda>i. rs ! i) ret)) + mset (map rid (reqs b')) = mset (map rid (reqs b))"
      by (rule rids_split [OF l(7) retract_order_perm [where cfg = cfg and b = b, unfolded l(2)] b'(3)])
    show "token_mem m' c' s' (mset (map node_of (reqs b')) + L)" using l(5) by (simp only: eq)
  qed (use l(3,4,6,9,11,12) b' q(2) sub' in simp_all)
qed



text \<open>
  (C10) A prefill batch gets exactly the memory it needs: if every request fits a row, enough rows are
  free, and the new tokens fit into free and evictable memory, \<open>prepare_for_extend\<close> returns; request by
  request the batch owns a fresh row that holds the cached prefix followed by that request's share of the
  new slots, and every slot that was free or cached is now handed out, free or cached.
\<close>

theorem prepare_for_extend_correct:
  assumes "token_mem m c s L" and "token_tree c" and "pool_ready (req_to_token_pool m) w" and "reqs b \<noteq> []"
    and "\<forall>r \<in> set (reqs b). fits_row w r" and "length (reqs b) \<le> length (free_slots (req_to_token_pool m))"
    and "int (sum_list (map new_tokens (reqs b))) \<le> mem_tokens c s"
  shows "\<exists>b' m' out c' s'. prepare_for_extend cfg m b = Inr (b', m') \<and> out_cache_loc b' = Some out \<and>
    length out = extend_num_tokens b' \<and> token_mem m' c' s' L \<and>
    mset out + token_slots s' + tree_slots c' = token_slots s + tree_slots c \<and> length (reqs b') = length (reqs b) \<and>
    (\<forall>i < length (reqs b). req_pool_idx (reqs b' ! i) = Some (free_slots (req_to_token_pool m) ! i) \<and>
      kv_committed_len (reqs b' ! i) = length (fill_ids (reqs b ! i)) \<and>
      take (length (fill_ids (reqs b ! i))) (row_of (req_to_token_pool m') (free_slots (req_to_token_pool m) ! i))
        = map to_int32 (prefix_indices (reqs b ! i)
            @ take (new_tokens (reqs b ! i)) (drop (sum_list (take i (map new_tokens (reqs b)))) out)))"
  by (rule prepare_for_extend_spec [OF assms])

theorem prepare_for_extend_correct_witness:
  "\<exists>c b' m' out. demo_radix = Inr c \<and> prepare_for_extend demo_cfg ((demo_mem c)\<lparr>req_to_token_pool := req_pool_init 2 4\<rparr>)
      ((demo_batch c)\<lparr>reqs := [demo_req\<lparr>fill_ids := [10, 11], extend_input_len := 2\<rparr>]\<rparr>) = Inr (b', m') \<and>
    out_cache_loc b' = Some out"
proof -
  let ?r = "demo_req\<lparr>fill_ids := [10, 11], extend_input_len := 2\<rparr>"
  obtain c where c: "demo_radix = Inr c" "rc_inv c {#}" "\<not> disable c" "page_size c = 1" "\<not> is_eagle c" by (rule demo_radix_ok) blast
  let ?m = "(demo_mem c)\<lparr>req_to_token_pool := req_pool_init 2 4\<rparr>" and ?b = "(demo_batch c)\<lparr>reqs := [?r]\<rparr>"
  have "token_mem ?m c (token_init 4 False) {#}" using c(2,3) token_init_invar [of 4 False] by (simp add: token_mem_def demo_mem_def)
  moreover have "evictable_size c \<ge> 0" using token_memD(7) calculation by blast
  moreover have "token_tree c" "pool_ready (req_to_token_pool ?m) 4" "reqs ?b \<noteq> []" "\<forall>r \<in> set (reqs ?b). fits_row 4 r"
    "length (reqs ?b) \<le> length (free_slots (req_to_token_pool ?m))"
    using c(4,5) by (auto simp: token_tree_def pool_ready_def req_pool_init_def row_ok_def fits_row_def new_tokens_def demo_req_simps
        nat_less_iff distinct_map)
  moreover have "int (sum_list (map new_tokens (reqs ?b))) \<le> mem_tokens c (token_init 4 False)"
    using calculation(2) by (simp add: mem_tokens_def new_tokens_def demo_req_simps token_available_size_def token_init_def token_clear_def)
  ultimately show ?thesis using c(1) prepare_for_extend_correct [of ?m c "token_init 4 False" "{#}" 4 ?b demo_cfg] by blast
qed



end
