(* ===== verification/Prefill_Adder.thy ===== *)
theory Prefill_Adder
  imports Schedule_Batch
begin

text \<open>
  \<^verbatim>\<open>PrefillAdder\<close> of \<^verbatim>\<open>managers/schedule_policy.py\<close>: which waiting requests join the next prefill batch
  and which running ones are preempted for them. The adder keeps token budgets; the memory it estimates is
  the memory state, whose radix tree it locks. Ratios and the budgets built from them are rational
  numbers where the code has floats. The main claim is that admission is safe: what was admitted can be
  allocated.
\<close>

section \<open>The adder\<close>

datatype add_req_result = CONTINUE | NO_TOKEN | OTHER

definition IGNORE_EOS_RESERVE_TOKENS :: int where
  "IGNORE_EOS_RESERVE_TOKENS = 1"

record prefill_adder =
  pa_page_size :: int
  running_batch :: "schedule_batch option"
  new_token_ratio :: rat
  rem_input_tokens :: int
  rem_chunk_tokens :: "int option"
  rem_total_token_offset :: rat
  cur_rem_token_offset :: int
  req_states :: "(rat \<times> int) list option"
  can_run_list :: "req list"
  preempt_list :: "req list"
  new_chunked_req :: "req option"
  log_hit_tokens :: int
  log_input_tokens :: int
  pa_is_hybrid :: bool
  preemption_threshold :: int

definition get_running_request_total_token_offset :: "sched_env \<Rightarrow> rat \<Rightarrow> req \<Rightarrow> rat result" where
  "get_running_request_total_token_offset e ratio r =
     (case max_new_tokens (sampling r) of
        None \<Rightarrow> Inl TypeError
      | Some mx \<Rightarrow> Inr (of_int (min (mx - int (length (Req.output_ids r))) (CLIP_MAX_NEW_TOKENS e)) * ratio))"

fun sum_r :: "('a \<Rightarrow> rat result) \<Rightarrow> 'a list \<Rightarrow> rat result" where
  "sum_r f [] = Inr 0"
| "sum_r f (x # xs) = bind_r (f x) (\<lambda>v. bind_r (sum_r f xs) (\<lambda>w. Inr (v + w)))"

definition prefill_adder_init ::
    "sched_env \<Rightarrow> mem_state \<Rightarrow> int \<Rightarrow> schedule_batch option \<Rightarrow> rat \<Rightarrow> int \<Rightarrow> int option \<Rightarrow> int \<Rightarrow> int \<Rightarrow> prefill_adder result" where
  "prefill_adder_init e m ps running ratio rem_input rem_chunk mixed threshold =
     bind_r (sum_r (get_running_request_total_token_offset e ratio) (case running of None \<Rightarrow> [] | Some b \<Rightarrow> reqs b)) (\<lambda>off.
       Inr \<lparr>pa_page_size = ps, running_batch = running, new_token_ratio = ratio,
            rem_input_tokens = rem_input - mixed, rem_chunk_tokens = map_option (\<lambda>c. c - mixed) rem_chunk,
            rem_total_token_offset = of_int mixed + off, cur_rem_token_offset = mixed, req_states = None,
            can_run_list = [], preempt_list = [], new_chunked_req = None, log_hit_tokens = 0,
            log_input_tokens = 0, pa_is_hybrid = is_swa_alloc (kv_allocator m), preemption_threshold = threshold\<rparr>)"

section \<open>Budgets\<close>

fun cache_evictable_size :: "prefix_cache \<Rightarrow> int" where
  "cache_evictable_size (RadixTree c) = evictable_size c"
| "cache_evictable_size (Chunk c) = 0"
| "cache_evictable_size (SWAChunk c) = 0"

text \<open>None of the caches modelled here overrides \<^verbatim>\<open>full_evictable_size\<close> and \<^verbatim>\<open>swa_evictable_size\<close>, which are 0.\<close>

definition available_and_evictable :: "mem_state \<Rightarrow> prefill_adder \<Rightarrow> int result" where
  "available_and_evictable m a =
     (if pa_is_hybrid a
      then (case kv_allocator m of
              SWAAlloc s \<Rightarrow> Inr (min (int (full_available_size s)) (int (swa_available_size s)))
            | _ \<Rightarrow> Inl AttributeError)
      else bind_r (allocator_available_size (kv_allocator m)) (\<lambda>n.
             Inr (int n + cache_evictable_size (tree_cache m))))"

definition rem_total_tokens :: "mem_state \<Rightarrow> prefill_adder \<Rightarrow> rat result" where
  "rem_total_tokens m a = bind_r (available_and_evictable m a) (\<lambda>n. Inr (of_int n - rem_total_token_offset a))"

definition cur_rem_tokens :: "mem_state \<Rightarrow> prefill_adder \<Rightarrow> int result" where
  "cur_rem_tokens m a = bind_r (available_and_evictable m a) (\<lambda>n. Inr (n - cur_rem_token_offset a))"

definition ceil_paged_tokens :: "prefill_adder \<Rightarrow> int \<Rightarrow> int" where
  "ceil_paged_tokens a tokens = - ((- tokens) div pa_page_size a) * pa_page_size a"

definition budget_state :: "mem_state \<Rightarrow> prefill_adder \<Rightarrow> add_req_result result" where
  "budget_state m a =
     bind_r (rem_total_tokens m a) (\<lambda>total. bind_r (cur_rem_tokens m a) (\<lambda>cur.
       Inr (if total \<le> 0 \<or> cur \<le> 0 then NO_TOKEN
            else if rem_input_tokens a \<le> 0 \<or> (case rem_chunk_tokens a of None \<Rightarrow> False | Some c \<Rightarrow> c \<le> 0) then OTHER
            else CONTINUE)))"

definition update_prefill_budget :: "prefill_adder \<Rightarrow> int \<Rightarrow> int \<Rightarrow> int \<Rightarrow> prefill_adder" where
  "update_prefill_budget a prefix_len extend_len max_new =
     (let ext = ceil_paged_tokens a extend_len
      in a\<lparr>rem_total_token_offset := rem_total_token_offset a + of_int (ext + max_new),
           cur_rem_token_offset := cur_rem_token_offset a + ext,
           rem_input_tokens := rem_input_tokens a - ext,
           rem_chunk_tokens := map_option (\<lambda>c. c - ext) (rem_chunk_tokens a),
           log_hit_tokens := log_hit_tokens a + prefix_len,
           log_input_tokens := log_input_tokens a + ext\<rparr>)"

text \<open>\<^verbatim>\<open>min(max_new_tokens, CLIP_MAX_NEW_TOKENS)\<close>; \<^verbatim>\<open>int\<close> truncates towards zero.\<close>

definition clipped :: "sched_env \<Rightarrow> req \<Rightarrow> int result" where
  "clipped e r = (case max_new_tokens (sampling r) of None \<Rightarrow> Inl TypeError | Some mx \<Rightarrow> Inr (min mx (CLIP_MAX_NEW_TOKENS e)))"

definition py_int :: "rat \<Rightarrow> int" where
  "py_int x = (if 0 \<le> x then \<lfloor>x\<rfloor> else \<lceil>x\<rceil>)"

section \<open>Adding requests\<close>

definition add_chunked_req ::
    "sched_env \<Rightarrow> mem_state \<Rightarrow> prefill_adder \<Rightarrow> req \<Rightarrow> (req option \<times> prefill_adder) result" where
  "add_chunked_req e m a r =
     (case rem_chunk_tokens a of
        None \<Rightarrow> Inl TypeError
      | Some c \<Rightarrow>
          bind_r (rem_total_tokens m a) (\<lambda>total.
          let rem_tokens = min c (py_int total);
              truncated = extend_input_len r > rem_tokens;
              ext = min (extend_input_len r) rem_tokens;
              r1 = r\<lparr>extend_input_len := ext, fill_ids := py_to (fill_ids r) (int (length (prefix_indices r)) + ext)\<rparr>
          in bind_r (if truncated then Inr 0 else clipped e r) (\<lambda>mx.
               Inr (if truncated then Some r1 else None,
                    update_prefill_budget (a\<lparr>can_run_list := can_run_list a @ [r1]\<rparr>) 0 ext mx))))"

definition add_req_state :: "prefill_adder \<Rightarrow> (rat \<times> int) list \<Rightarrow> req \<Rightarrow> bool \<Rightarrow> (rat \<times> int) list result" where
  "add_req_state a states r insert_sort =
     (case max_new_tokens (sampling r) of
        None \<Rightarrow> Inl TypeError
      | Some mx \<Rightarrow>
          let ratio = (if ignore_eos (sampling r) then 1 else new_token_ratio a);
              left = of_int mx * ratio - of_nat (length (Req.output_ids r));
              occupied = int (length (origin_input_ids r)) + int (length (Req.output_ids r));
              i = (case find (\<lambda>i. left \<le> fst (states ! i)) [0..<length states] of
                     Some i \<Rightarrow> i | None \<Rightarrow> length states - 1)
          in Inr (if left \<le> 0 then states
                  else if \<not> insert_sort then states @ [(left, occupied)]
                  else take i states @ [(left, occupied)] @ drop i states))"

fun add_req_states :: "prefill_adder \<Rightarrow> (rat \<times> int) list \<Rightarrow> req list \<Rightarrow> (rat \<times> int) list result" where
  "add_req_states a states [] = Inr states"
| "add_req_states a states (r # rs) = bind_r (add_req_state a states r False) (\<lambda>s. add_req_states a s rs)"

text \<open>The simulation of the running requests until each ends; \<open>cur\<close> is what is free now.\<close>

fun states_fit :: "rat \<Rightarrow> rat \<Rightarrow> (rat \<times> int) list \<Rightarrow> bool" where
  "states_fit cur freed [] = True"
| "states_fit cur freed ((left, occupied) # ss) =
     (let bs = length ss + 1
      in if cur + freed - left * of_nat bs \<le> of_int (IGNORE_EOS_RESERVE_TOKENS * int bs) then False
         else states_fit cur (freed + of_int occupied) ss)"

definition next_req_states :: "prefill_adder \<Rightarrow> req \<Rightarrow> (rat \<times> int) list result" where
  "next_req_states a r =
     (case req_states a of
        None \<Rightarrow> bind_r (add_req_states a [] (r # (case running_batch a of None \<Rightarrow> [] | Some b \<Rightarrow> reqs b) @ can_run_list a))
                  (\<lambda>s. Inr (sort_key fst s))
      | Some s \<Rightarrow> add_req_state a s r True)"

definition add_one_req_ignore_eos ::
    "sched_env \<Rightarrow> mem_state \<Rightarrow> prefill_adder \<Rightarrow> req \<Rightarrow> (add_req_result \<times> req \<times> prefill_adder) result" where
  "add_one_req_ignore_eos e m a r =
     bind_r (cur_rem_tokens m a) (\<lambda>cur. bind_r (rem_total_tokens m a) (\<lambda>total.
     if of_int (ceil_paged_tokens a (extend_input_len r)) > min (of_int cur) total then Inr (NO_TOKEN, r, a)
     else bind_r (next_req_states a r) (\<lambda>s.
       let a1 = a\<lparr>req_states := Some s\<rparr>
       in if \<not> pa_is_hybrid a \<and> \<not> states_fit (of_int (cur - ceil_paged_tokens a (extend_input_len r))) 0 s
          then Inr (NO_TOKEN, r, a1)
          else if (case rem_chunk_tokens a of None \<Rightarrow> True | Some c \<Rightarrow> extend_input_len r \<le> c)
          then bind_r (clipped e r) (\<lambda>mx.
               let a2 = update_prefill_budget (a1\<lparr>can_run_list := can_run_list a @ [r]\<rparr>) 0 (extend_input_len r) mx
               in bind_r (budget_state m a2) (\<lambda>st. Inr (st, r, a2)))
          else if rem_chunk_tokens a = Some 0 then Inr (OTHER, r, a1)
          else let trunc_len = the (rem_chunk_tokens a);
                   r1 = r\<lparr>extend_input_len := trunc_len, fill_ids := py_to (fill_ids r) trunc_len\<rparr>;
                   a2 = update_prefill_budget (a1\<lparr>can_run_list := can_run_list a @ [r1], new_chunked_req := Some r1\<rparr>) 0 trunc_len 0
               in bind_r (budget_state m a2) (\<lambda>st. Inr (st, r1, a2)))))"

text \<open>Locking through the cache; the chunk caches only return 0.\<close>

definition inc_lock_of :: "mem_state \<Rightarrow> nat option \<Rightarrow> mem_state result" where
  "inc_lock_of m n =
     (case tree_cache m of
        RadixTree c \<Rightarrow>
          (if disable c then Inr m
           else bind_r (inc_lock_loop (counter c) c n 0) (\<lambda>(_, c'). Inr (m\<lparr>tree_cache := RadixTree c'\<rparr>)))
      | _ \<Rightarrow> Inr m)"

definition dec_lock_mem :: "mem_state \<Rightarrow> nat option \<Rightarrow> mem_state result" where
  "dec_lock_mem m n =
     (case tree_cache m of
        RadixTree c \<Rightarrow> bind_r (dec_lock_of c n) (\<lambda>(_, c'). Inr (m\<lparr>tree_cache := RadixTree c'\<rparr>))
      | _ \<Rightarrow> Inr m)"

definition lock_admitted :: "mem_state \<Rightarrow> prefill_adder \<Rightarrow> req \<Rightarrow> (mem_state \<times> req) result" where
  "lock_admitted m a r =
     bind_r (inc_lock_of m (last_node r)) (\<lambda>m'.
       Inr (m', if pa_is_hybrid a then r\<lparr>swa_uuid_for_lock := Some 0\<rparr> else r))"

definition trunc_len_of :: "prefill_adder \<Rightarrow> int \<Rightarrow> int option \<Rightarrow> int option" where
  "trunc_len_of a c align =
     (let t = c div pa_page_size a * pa_page_size a
      in if t \<le> 0 then None
         else case align of
                None \<Rightarrow> Some t
              | Some s \<Rightarrow> if t < s then None else Some (s * (t div s)))"

text \<open>The body of the \<^verbatim>\<open>with\<close> statement, under the temporary lock; \<open>True\<close> says that the request was added.\<close>

definition add_locked ::
    "sched_env \<Rightarrow> mem_state \<Rightarrow> prefill_adder \<Rightarrow> req \<Rightarrow> int option \<Rightarrow> int \<Rightarrow>
     (add_req_result option \<times> req \<times> prefill_adder \<times> mem_state) result" where
  "add_locked e m a r align total_tokens =
     bind_r (rem_total_tokens m a) (\<lambda>total.
     if of_int total_tokens \<ge> total then Inr (Some NO_TOKEN, r, a, m)
     else if host_hit_length r > 0 then Inl NotImplementedError
     else
       let prefix_len = int (length (prefix_indices r));
           input_tokens = ceil_paged_tokens a (extend_input_len r)
       in if input_tokens \<ge> rem_input_tokens a \<and> can_run_list a \<noteq> [] then Inr (Some OTHER, r, a, m)
          else case rem_chunk_tokens a of
            Some c \<Rightarrow>
              (if input_tokens \<le> c
               then bind_r (lock_admitted m a r) (\<lambda>(m1, r1). bind_r (clipped e r) (\<lambda>mx.
                      Inr (None, r1, update_prefill_budget (a\<lparr>can_run_list := can_run_list a @ [r1]\<rparr>) prefix_len input_tokens mx, m1)))
               else case trunc_len_of a c align of
                 None \<Rightarrow> Inr (Some OTHER, r, a, m)
               | Some t \<Rightarrow>
                   let r1 = r\<lparr>extend_input_len := t, fill_ids := py_to (fill_ids r) (prefix_len + t)\<rparr>
                   in bind_r (lock_admitted m a r1) (\<lambda>(m1, r2).
                        Inr (None, r2, update_prefill_budget (a\<lparr>can_run_list := can_run_list a @ [r2], new_chunked_req := Some r2\<rparr>)
                          prefix_len t 0, m1)))
          | None \<Rightarrow>
              bind_r (lock_admitted m a r) (\<lambda>(m1, r1). bind_r (clipped e r) (\<lambda>mx.
                Inr (None, r1, update_prefill_budget (a\<lparr>can_run_list := can_run_list a @ [r1]\<rparr>) prefix_len input_tokens mx, m1))))"

definition add_one_req ::
    "sched_env \<Rightarrow> mem_state \<Rightarrow> prefill_adder \<Rightarrow> req \<Rightarrow> int option \<Rightarrow>
     (add_req_result \<times> req \<times> prefill_adder \<times> mem_state) result" where
  "add_one_req e m a r align =
     (if ignore_eos (sampling r) \<and> cache_disabled (tree_cache m)
      then bind_r (add_one_req_ignore_eos e m a r) (\<lambda>(st, r', a'). Inr (st, r', a', m))
      else case max_new_tokens (sampling r) of
        None \<Rightarrow> Inl TypeError
      | Some mx \<Rightarrow>
          let total_tokens = extend_input_len r
                + min (max (mx - int (length (Req.output_ids r))) 0) (CLIP_MAX_NEW_TOKENS e);
              real_input_tokens = ceil_paged_tokens a (extend_input_len r - int (host_hit_length r))
          in bind_r (rem_total_tokens m a) (\<lambda>total.
             if of_int total_tokens \<ge> total then Inr (NO_TOKEN, r, a, m)
             else if real_input_tokens \<ge> rem_input_tokens a \<and> can_run_list a \<noteq> [] then Inr (OTHER, r, a, m)
             else bind_r (inc_lock_of m (last_node r)) (\<lambda>m1.
                  bind_r (add_locked e m1 a r align total_tokens) (\<lambda>(early, r1, a1, m2).
                  bind_r (dec_lock_mem m2 (last_node r)) (\<lambda>m3.
                  case early of
                    Some st \<Rightarrow> Inr (st, r1, a1, m3)
                  | None \<Rightarrow> bind_r (budget_state m3 a1) (\<lambda>st. Inr (st, r1, a1, m3)))))))"

section \<open>Preemption\<close>

definition preempt_order :: "bool \<Rightarrow> req list \<Rightarrow> req list result" where
  "preempt_order low rs =
     bind_r (priority_keys (\<not> low) rs) (\<lambda>p. Inr (sort_key (\<lambda>r. (p r, - wait_queue_entry_time r)) rs))"

fun preemptible :: "sched_env \<Rightarrow> prefill_adder \<Rightarrow> bool \<Rightarrow> req \<Rightarrow> req list \<Rightarrow> rat \<Rightarrow> (req list \<times> rat) result" where
  "preemptible e a low r [] need = Inr ([], need)"
| "preemptible e a low r (x # xs) need =
     (if rid x \<in> set (map rid (preempt_list a)) then preemptible e a low r xs need
      else case (priority r, priority x) of
        (Some p, Some q) \<Rightarrow>
          (if (if low then q - p else p - q) > preemption_threshold a
           then bind_r (get_running_request_total_token_offset e (new_token_ratio a) x) (\<lambda>off.
                bind_r (preemptible e a low r xs (need - off)) (\<lambda>(ys, n). Inr (x # ys, n)))
           else preemptible e a low r xs need)
      | _ \<Rightarrow> Inl TypeError)"

text \<open>The loop over the running batch; \<open>n\<close> counts the requests released so far.\<close>

fun preempt_loop ::
    "sched_env \<Rightarrow> server_cfg \<Rightarrow> req \<Rightarrow> string set \<Rightarrow> nat list \<Rightarrow> nat \<Rightarrow> nat list \<Rightarrow> mem_state \<Rightarrow> schedule_batch \<Rightarrow> prefill_adder \<Rightarrow>
     (nat list \<times> mem_state \<times> schedule_batch \<times> prefill_adder) result" where
  "preempt_loop e cfg r victims [] n keep m b a = Inr (keep, m, b, a)"
| "preempt_loop e cfg r victims (i # is) n keep m b a =
     (if rid (reqs b ! i) \<in> victims
      then bind_r (get_running_request_total_token_offset e (new_token_ratio a) r) (\<lambda>off.
           bind_r (release_req cfg m b i (length (reqs b) - (n + 1))) (\<lambda>(b1, m1).
             preempt_loop e cfg r victims is (n + 1) keep m1 b1
               (a\<lparr>rem_total_token_offset := rem_total_token_offset a - off\<rparr>)))
      else preempt_loop e cfg r victims is n (keep @ [i]) m b a)"

text \<open>
  The code extends \<open>preempt_list\<close> by a set of requests, in an unspecified order; here it is the order of
  the batch.
\<close>

definition preempt_to_schedule ::
    "sched_env \<Rightarrow> server_cfg \<Rightarrow> bool \<Rightarrow> mem_state \<Rightarrow> prefill_adder \<Rightarrow> req \<Rightarrow> (bool \<times> prefill_adder \<times> mem_state) result" where
  "preempt_to_schedule e cfg low m a r =
     (case running_batch a of
        None \<Rightarrow> Inl AttributeError
      | Some b \<Rightarrow>
          bind_r (preempt_order low (reqs b)) (\<lambda>sorted_running.
          bind_r (clipped e r) (\<lambda>mx.
          bind_r (rem_total_tokens m a) (\<lambda>total.
          bind_r (preemptible e a low r sorted_running (of_int (extend_input_len r + mx) - total)) (\<lambda>(vs, need).
          if vs = [] \<or> need > 0 then Inr (False, a, m)
          else bind_r (preempt_loop e cfg r (set (map rid vs)) [0..<length (reqs b)] 0 [] m b a) (\<lambda>(keep, m1, b1, a1).
               bind_r (filter_batch b1 [] (Some keep)) (\<lambda>b2.
                 Inr (True, a1\<lparr>running_batch := Some b2, preempt_list := preempt_list a1
                        @ filter (\<lambda>x. rid x \<in> set (map rid vs)) (reqs b1)\<rparr>, m1))))))))"

section \<open>Locks and the evictable size\<close>

lemma touched_locks_trans: "touched_locks c c1 \<Longrightarrow> touched_locks c1 c2 \<Longrightarrow> touched_locks c c2"
  unfolding touched_locks_def using relocks_trans by blast

text \<open>What is evictable depends only on which nodes are locked, not on how often.\<close>

lemma same_locks_evictable:
  assumes "rc_inv c L" and "rc_inv c' L'" and t: "touched_locks c c'" and "set_mset L' = set_mset L"
  shows "evictable_size c' = evictable_size c"
proof -
  note td = touched_locksD [OF t]
  have ky: "key (nodes c' a) = key (nodes c a)" for a using t by (auto simp: touched_locks_def relocksD)
  have "lock_ref (nodes c' a) = 0 \<longleftrightarrow> lock_ref (nodes c a) = 0" if "a \<in> live c" for a
  proof -
    have "lock_ref (nodes c a) = int (size {#m \<in># L. reach c a m#})" "lock_ref (nodes c' a) = int (size {#m \<in># L'. reach c a m#})"
      using lock_invD(2) [of c L a] lock_invD(2) [of c' L' a] assms(1,2) that td(1,6) by (simp_all add: rc_inv_def)
    moreover have "{#m \<in># L. reach c a m#} = {#} \<longleftrightarrow> {#m \<in># L'. reach c a m#} = {#}"
      using assms(4) by (simp flip: set_mset_eq_empty_iff)
    ultimately show ?thesis by simp
  qed
  then have "live_sum c' unlocked_len = live_sum c unlocked_len"
    unfolding live_sum_def td(1) by (intro sum.cong refl) (simp add: unlocked_len_def node_len_def ky)
  then show ?thesis using assms(1,2) by (simp add: rc_inv_def size_inv_def)
qed

lemma inc_lock_of_spec:
  assumes "tree_cache m = RadixTree c" and "rc_inv c L" and "\<not> disable c" and "n = root_node c \<or> n \<in> live c"
  shows "\<exists>c'. inc_lock_of m (Some n) = Inr (m\<lparr>tree_cache := RadixTree c'\<rparr>) \<and> rc_inv c' (add_mset n L) \<and>
    touched_locks c c' \<and> \<not> disable c'"
proof -
  obtain c' where c': "inc_lock_ref c n = Inr (evictable_size c' - evictable_size c, c')"
    "rc_inv c' (add_mset n L)" "touched_locks c c'" by (rule inc_lock_ref_spec [OF assms(2,4,3)])
  then have "inc_lock_of m (Some n) = Inr (m\<lparr>tree_cache := RadixTree c'\<rparr>)"
    using assms(1,3) by (simp add: inc_lock_of_def inc_lock_ref_def)
  then show ?thesis using c' conf_eqD(2) [OF touched_locksD(3) [OF c'(3)]] assms(3) by auto
qed

lemma dec_lock_mem_spec:
  assumes "tree_cache m = RadixTree c" and "rc_inv c (add_mset n L)" and "\<not> disable c"
  shows "\<exists>c'. dec_lock_mem m (Some n) = Inr (m\<lparr>tree_cache := RadixTree c'\<rparr>) \<and> rc_inv c' L \<and>
    touched_locks c c' \<and> \<not> disable c'"
proof -
  obtain c' where c': "dec_lock_ref c n = Inr (evictable_size c' - evictable_size c, c')"
    "rc_inv c' L" "touched_locks c c'" by (rule dec_lock_ref_spec [OF assms(2,3)])
  then have "dec_lock_mem m (Some n) = Inr (m\<lparr>tree_cache := RadixTree c'\<rparr>)"
    using assms(1,3) by (simp add: dec_lock_mem_def dec_lock_of_def)
  then show ?thesis using c' conf_eqD(2) [OF touched_locksD(3) [OF c'(3)]] assms(3) by auto
qed

section \<open>Admission\<close>

definition plain_adder :: "prefill_adder \<Rightarrow> bool" where
  "plain_adder a \<longleftrightarrow> pa_page_size a = 1 \<and> \<not> pa_is_hybrid a"

lemma ceil_paged_one [simp]: "plain_adder a \<Longrightarrow> ceil_paged_tokens a x = x"
  by (simp add: plain_adder_def ceil_paged_tokens_def)

lemma update_budget_simps [simp]:
  "can_run_list (update_prefill_budget a p x n) = can_run_list a"
  "plain_adder (update_prefill_budget a p x n) = plain_adder a"
  "plain_adder a \<Longrightarrow> rem_total_token_offset (update_prefill_budget a p x n) = rem_total_token_offset a + of_int (x + n)"
  "plain_adder (a\<lparr>can_run_list := rs\<rparr>) = plain_adder a" "plain_adder (a\<lparr>new_chunked_req := q\<rparr>) = plain_adder a"
  by (simp_all add: update_prefill_budget_def plain_adder_def Let_def ceil_paged_tokens_def)

lemma rem_total_tokens_mem:
  "token_mem m c s L \<Longrightarrow> plain_adder a \<Longrightarrow> rem_total_tokens m a = Inr (of_int (mem_tokens c s) - rem_total_token_offset a)"
  "token_mem m c s L \<Longrightarrow> plain_adder a \<Longrightarrow> cur_rem_tokens m a = Inr (mem_tokens c s - cur_rem_token_offset a)"
  by (simp_all add: rem_total_tokens_def cur_rem_tokens_def available_and_evictable_def token_mem_def plain_adder_def mem_tokens_def)

lemma token_mem_upd:
  "token_mem m c s L \<Longrightarrow> rc_inv c' L' \<Longrightarrow> \<not> disable c' \<Longrightarrow> token_mem (m\<lparr>tree_cache := RadixTree c'\<rparr>) c' s L'"
  by (simp add: token_mem_def)

lemma trunc_len_bounds:
  assumes "plain_adder a" and "trunc_len_of a c align = Some t" and "\<forall>s. align = Some s \<longrightarrow> 0 < s"
  shows "0 \<le> t \<and> t \<le> c"
proof -
  have t: "0 < c" "case align of None \<Rightarrow> t = c | Some s \<Rightarrow> s \<le> c \<and> t = s * (c div s)"
    using assms(1,2) by (auto simp: trunc_len_of_def plain_adder_def Let_def split: if_splits option.splits)
  show ?thesis
  proof (cases align)
    case (Some s)
    then have "0 < s" "t = s * (c div s)" using t assms(3) by auto
    then show ?thesis using t(1) by (simp add: minus_mod_eq_mult_div [symmetric])
      (meson dual_order.strict_implies_order pos_mod_bound zmod_le_nonneg_dividend)
  qed (use t in simp)
qed

text \<open>\<open>cut r r'\<close>: \<open>r'\<close> is \<open>r\<close>, or its first chunk. An attempt leaves the running batch alone.\<close>

definition cut :: "req \<Rightarrow> req \<Rightarrow> bool" where
  "cut r r' \<longleftrightarrow> r' = r \<or> (\<exists>t. 0 \<le> t \<and> t \<le> extend_input_len r \<and>
     r' = r\<lparr>extend_input_len := t, fill_ids := py_to (fill_ids r) (int (length (prefix_indices r)) + t)\<rparr>)"

definition same_run :: "prefill_adder \<Rightarrow> prefill_adder \<Rightarrow> bool" where
  "same_run a a' \<longleftrightarrow> running_batch a' = running_batch a \<and> preempt_list a' = preempt_list a"

lemma same_run_simps [simp]:
  "same_run a a" "same_run a (update_prefill_budget b p x n) = same_run a b"
  "same_run a (b\<lparr>can_run_list := rs\<rparr>) = same_run a b" "same_run a (b\<lparr>new_chunked_req := q\<rparr>) = same_run a b"
  by (simp_all add: same_run_def update_prefill_budget_def Let_def)

text \<open>The two outcomes of an attempt: nothing changed, or the request was added and locked.\<close>

definition attempt ::
    "prefill_adder \<Rightarrow> prefill_adder \<Rightarrow> req \<Rightarrow> req \<Rightarrow> radix_cache \<Rightarrow> radix_cache \<Rightarrow> kv_alloc \<Rightarrow> nat \<Rightarrow> nat multiset \<Rightarrow> nat multiset \<Rightarrow> bool" where
  "attempt a a' r r' c c' s n L L' \<longleftrightarrow> rc_inv c' L' \<and> plain_adder a' \<and> same_run a a' \<and>
     ((L' = L \<and> a' = a \<and> r' = r \<and> evictable_size c' = evictable_size c) \<or>
      (L' = add_mset n L \<and> can_run_list a' = can_run_list a @ [r'] \<and> 0 \<le> extend_input_len r' \<and>
       extend_input_len r' \<le> extend_input_len r \<and> cut r r' \<and>
       rem_total_token_offset a + of_int (extend_input_len r') \<le> rem_total_token_offset a' \<and>
       rem_total_token_offset a + of_int (extend_input_len r') < of_int (mem_tokens c' s)))"

lemma add_locked_spec:
  assumes mem: "token_mem m c s L" and a: "plain_adder a" and n: "last_node r = Some n" "n = root_node c \<or> n \<in> live c"
    and r: "host_hit_length r = 0" "max_new_tokens (sampling r) = Some mx" "0 \<le> mx" "0 \<le> CLIP_MAX_NEW_TOKENS e"
      "0 \<le> extend_input_len r" and total: "extend_input_len r \<le> tot" and align: "\<forall>s. align = Some s \<longrightarrow> 0 < s"
  shows "\<exists>early r' a' c'. add_locked e m a r align tot = Inr (early, r', a', m\<lparr>tree_cache := RadixTree c'\<rparr>) \<and>
    touched_locks c c' \<and> \<not> disable c' \<and> rc_inv c' (if early = None then add_mset n L else L) \<and> plain_adder a' \<and> same_run a a' \<and>
    (if early = None then can_run_list a' = can_run_list a @ [r'] \<and> 0 \<le> extend_input_len r' \<and>
       extend_input_len r' \<le> extend_input_len r \<and> cut r r' \<and>
       rem_total_token_offset a + of_int (extend_input_len r') \<le> rem_total_token_offset a' \<and>
       rem_total_token_offset a + of_int (extend_input_len r') < of_int (mem_tokens c s)
     else a' = a \<and> r' = r)"
proof -
  note rem = rem_total_tokens_mem(1) [OF mem a]
  have c: "tree_cache m = RadixTree c" "rc_inv c L" "\<not> disable c" using mem by (simp_all add: token_mem_def)
  have same: "m\<lparr>tree_cache := RadixTree c\<rparr> = m" using c by simp
  have tl: "touched_locks c c" by (auto simp: touched_locks_def relocks_def shape_of_def intro!: exI [of _ "\<lambda>n. lock_ref (nodes c n)"])
  obtain c' where c': "inc_lock_of m (Some n) = Inr (m\<lparr>tree_cache := RadixTree c'\<rparr>)" "rc_inv c' (add_mset n L)"
    "touched_locks c c'" "\<not> disable c'" using inc_lock_of_spec [OF c n(2)] by blast
  have lk: "lock_admitted m a r1 = Inr (m\<lparr>tree_cache := RadixTree c'\<rparr>, r1)" if "last_node r1 = Some n" for r1
    using c'(1) a that by (simp add: lock_admitted_def plain_adder_def)
  have cl: "clipped e r = Inr (min mx (CLIP_MAX_NEW_TOKENS e))" "0 \<le> min mx (CLIP_MAX_NEW_TOKENS e)" using r by (simp_all add: clipped_def)
  show ?thesis
  proof (cases "of_int (mem_tokens c s) - rem_total_token_offset a \<le> of_int tot
      \<or> (extend_input_len r \<ge> rem_input_tokens a \<and> can_run_list a \<noteq> [])")
    case True
    let ?st = "if of_int (mem_tokens c s) - rem_total_token_offset a \<le> of_int tot then NO_TOKEN else OTHER"
    have "add_locked e m a r align tot = Inr (Some ?st, r, a, m)"
      using True rem a r(1) by (simp add: add_locked_def Let_def) blast
    then show ?thesis using tl c a by (intro exI [of _ "Some ?st"] exI [of _ r] exI [of _ a] exI [of _ c]) (simp add: same)
  next
    case False
    then have lt: "rem_total_token_offset a + of_int x < of_int (mem_tokens c s)" if "x \<le> extend_input_len r" for x
    proof -
      have "(of_int x :: rat) \<le> of_int tot" using that total by simp
      then show ?thesis using False by linarith
    qed
    show ?thesis
    proof (cases "case rem_chunk_tokens a of None \<Rightarrow> True | Some k \<Rightarrow> extend_input_len r \<le> k")
      case True
      let ?a = "update_prefill_budget (a\<lparr>can_run_list := can_run_list a @ [r]\<rparr>) (int (length (prefix_indices r)))
        (extend_input_len r) (min mx (CLIP_MAX_NEW_TOKENS e))"
      have "add_locked e m a r align tot = Inr (None, r, ?a, m\<lparr>tree_cache := RadixTree c'\<rparr>)"
        using False True rem a r(1) lk [OF n(1)] cl(1) by (auto simp: add_locked_def Let_def split: option.split)
      then show ?thesis using c' a cl(2) lt [of "extend_input_len r"] r(5) by (auto simp: cut_def)
    next
      case chunk: False
      then obtain k where k: "rem_chunk_tokens a = Some k" "k < extend_input_len r" by (auto split: option.splits)
      show ?thesis
      proof (cases "trunc_len_of a k align")
        case None
        then have "add_locked e m a r align tot = Inr (Some OTHER, r, a, m)"
          using False k rem a r(1) by (auto simp: add_locked_def Let_def)
        then show ?thesis using tl c a by (intro exI [of _ "Some OTHER"] exI [of _ r] exI [of _ a] exI [of _ c]) (simp add: same)
      next
        case (Some t)
        let ?r = "r\<lparr>extend_input_len := t, fill_ids := py_to (fill_ids r) (int (length (prefix_indices r)) + t)\<rparr>"
        let ?a = "update_prefill_budget (a\<lparr>can_run_list := can_run_list a @ [?r], new_chunked_req := Some ?r\<rparr>)
          (int (length (prefix_indices r))) t 0"
        have "add_locked e m a r align tot = Inr (None, ?r, ?a, m\<lparr>tree_cache := RadixTree c'\<rparr>)"
          using False k Some rem a r(1) lk [of ?r] n(1) by (auto simp: add_locked_def Let_def)
        moreover have "0 \<le> t" "t \<le> extend_input_len r" using trunc_len_bounds [OF a Some align] k(2) by simp_all
        moreover from this have "cut r ?r" by (auto simp: cut_def)
        ultimately show ?thesis using c' a lt [of t] by auto
      qed
    qed
  qed
qed

lemma add_one_req_spec:
  assumes mem: "token_mem m c s L" and a: "plain_adder a" and n: "last_node r = Some n" "n = root_node c \<or> n \<in> live c"
    and r: "host_hit_length r = 0" "max_new_tokens (sampling r) = Some mx" "0 \<le> mx" "0 \<le> CLIP_MAX_NEW_TOKENS e"
      "0 \<le> extend_input_len r" and align: "\<forall>s. align = Some s \<longrightarrow> 0 < s"
  shows "\<exists>st r' a' c' L'. add_one_req e m a r align = Inr (st, r', a', m\<lparr>tree_cache := RadixTree c'\<rparr>) \<and>
    touched_locks c c' \<and> token_mem (m\<lparr>tree_cache := RadixTree c'\<rparr>) c' s L' \<and> attempt a a' r r' c c' s n L L'"
proof -
  note rem = rem_total_tokens_mem(1) [OF mem a]
  have c: "tree_cache m = RadixTree c" "rc_inv c L" "\<not> disable c" using mem by (simp_all add: token_mem_def)
  have same: "m\<lparr>tree_cache := RadixTree c\<rparr> = m" using c by simp
  have tl: "touched_locks c c" by (auto simp: touched_locks_def relocks_def shape_of_def intro!: exI [of _ "\<lambda>n. lock_ref (nodes c n)"])
  let ?tot = "extend_input_len r + min (max (mx - int (length (Req.output_ids r))) 0) (CLIP_MAX_NEW_TOKENS e)"
  show ?thesis
  proof (cases "of_int (mem_tokens c s) - rem_total_token_offset a \<le> of_int ?tot
      \<or> (extend_input_len r \<ge> rem_input_tokens a \<and> can_run_list a \<noteq> [])")
    case True
    let ?st = "if of_int (mem_tokens c s) - rem_total_token_offset a \<le> of_int ?tot then NO_TOKEN else OTHER"
    have "add_one_req e m a r align = Inr (?st, r, a, m)"
      using True rem a r c(1,3) by (simp add: add_one_req_def Let_def) blast
    moreover have "attempt a a r r c c s n L L" using c a by (simp add: attempt_def)
    ultimately show ?thesis
      using tl mem by (intro exI [of _ ?st] exI [of _ r] exI [of _ a] exI [of _ c] exI [of _ L]) (simp add: same)
  next
    case False
    obtain c1 where c1: "inc_lock_of m (Some n) = Inr (m\<lparr>tree_cache := RadixTree c1\<rparr>)" "rc_inv c1 (add_mset n L)"
      "touched_locks c c1" "\<not> disable c1" using inc_lock_of_spec [OF c n(2)] by blast
    let ?m1 = "m\<lparr>tree_cache := RadixTree c1\<rparr>"
    have m1: "token_mem ?m1 c1 s (add_mset n L)" using token_mem_upd [OF mem c1(2,4)] .
    have n1: "n = root_node c1 \<or> n \<in> live c1" using n(2) touched_locksD [OF c1(3)] by simp
    have tot: "extend_input_len r \<le> ?tot" using r by simp
    obtain early r' a' c2 where l: "add_locked e ?m1 a r align ?tot = Inr (early, r', a', ?m1\<lparr>tree_cache := RadixTree c2\<rparr>)"
      "touched_locks c1 c2" "\<not> disable c2" "rc_inv c2 (if early = None then add_mset n (add_mset n L) else add_mset n L)"
      "plain_adder a'" "same_run a a'"
      "if early = None then can_run_list a' = can_run_list a @ [r'] \<and> 0 \<le> extend_input_len r' \<and>
         extend_input_len r' \<le> extend_input_len r \<and> cut r r' \<and>
         rem_total_token_offset a + of_int (extend_input_len r') \<le> rem_total_token_offset a' \<and>
         rem_total_token_offset a + of_int (extend_input_len r') < of_int (mem_tokens c1 s)
       else a' = a \<and> r' = r"
      using add_locked_spec [OF m1 a n(1) n1 r tot align] by blast
    define L2 where "L2 = (if early = None then add_mset n L else L)"
    have "rc_inv c2 (add_mset n L2)" using l(4) by (cases early) (simp_all add: L2_def)
    then obtain c3 where c3: "dec_lock_mem (?m1\<lparr>tree_cache := RadixTree c2\<rparr>) (Some n) = Inr (?m1\<lparr>tree_cache := RadixTree c3\<rparr>)"
      "rc_inv c3 L2" "touched_locks c2 c3" "\<not> disable c3"
      using dec_lock_mem_spec [of "?m1\<lparr>tree_cache := RadixTree c2\<rparr>" c2 n L2] l(3) by auto
    let ?m3 = "m\<lparr>tree_cache := RadixTree c3\<rparr>"
    have t13: "touched_locks c1 c3" by (rule touched_locks_trans [OF l(2) c3(3)])
    have t03: "touched_locks c c3" by (rule touched_locks_trans [OF c1(3) t13])
    have m3: "token_mem ?m3 c3 s L2" using token_mem_upd [OF mem c3(2,4)] .
    have "\<exists>st. add_one_req e m a r align = Inr (st, r', a', ?m3)"
      using False rem a r c(1,3) n(1) c1(1) l(1) c3(1) rem_total_tokens_mem [OF m3 l(5)]
      by (auto simp: add_one_req_def budget_state_def split: option.split)
    moreover have "attempt a a' r r' c c3 s n L L2"
    proof (cases early)
      case None
      have "evictable_size c3 = evictable_size c1" by (rule same_locks_evictable [OF c1(2) c3(2) t13]) (simp add: L2_def None)
      then show ?thesis using l(5,6,7) c3(2) None by (simp add: attempt_def L2_def mem_tokens_def)
    next
      case (Some st)
      have "evictable_size c3 = evictable_size c" by (rule same_locks_evictable [OF c(2) c3(2) t03]) (simp add: L2_def Some)
      then show ?thesis using l(5,6,7) c3(2) Some by (simp add: attempt_def L2_def)
    qed
    ultimately show ?thesis using t03 m3 by blast
  qed
qed

section \<open>The simulation for requests that ignore the end token\<close>

lemma states_fit_iff:
  "states_fit cur freed s \<longleftrightarrow> (\<forall>i < length s. of_int (IGNORE_EOS_RESERVE_TOKENS * int (length s - i)) <
     cur + freed + of_int (\<Sum>x\<leftarrow>take i s. snd x) - fst (s ! i) * of_nat (length s - i))"
proof (induction s arbitrary: freed)
  case (Cons x s)
  then show ?case
    by (cases x) (auto simp: Let_def All_less_Suc2 algebra_simps)
qed simp

text \<open>In a sorted list, the requests that end before step \<open>t\<close> are a prefix.\<close>

lemma sorted_split_at:
  "sorted (map fst (s :: (rat \<times> int) list)) \<Longrightarrow> filter (\<lambda>x. fst x < t) s = take (length (filter (\<lambda>x. fst x < t) s)) s"
  "sorted (map fst s) \<Longrightarrow> length (filter (\<lambda>x. fst x < t) s) < length s \<Longrightarrow>
     t \<le> fst (s ! length (filter (\<lambda>x. fst x < t) s))"
proof (induction s)
  case (Cons x s)
  have e: "filter (\<lambda>x. fst x < t) s = []" if "t \<le> fst x" "sorted (map fst (x # s))"
    using that by (auto simp: filter_empty_conv not_less intro: order_trans)
  { case 1 then show ?case using Cons.IH(1) e by (cases "fst x < t") (simp_all add: not_less)
  next case 2 then show ?case using Cons.IH(2) e by (cases "fst x < t") (simp_all add: not_less) }
qed simp_all

lemma insert_state_sorted:
  assumes "sorted (map fst (s :: (rat \<times> int) list))" and "s \<noteq> []"
    and "i = (case find (\<lambda>i. left \<le> fst (s ! i)) [0..<length s] of Some i \<Rightarrow> i | None \<Rightarrow> length s - 1)"
  shows "sorted (map fst (take i s @ [(left, occ)] @ drop i s)) \<longleftrightarrow> left \<le> fst (last s)"
proof (cases "find (\<lambda>i. left \<le> fst (s ! i)) [0..<length s]")
  case None
  then have "\<forall>j < length s. fst (s ! j) < left" by (auto simp: find_None_iff not_le)
  then have lt: "fst (last s) < left" using assms(2) by (simp add: last_conv_nth)
  have "drop (length s - 1) (butlast s @ [last s]) = [last s]" by (simp only: drop_append length_butlast) simp
  then have "drop i s = [last s]" using assms(2,3) None by simp
  then show ?thesis using lt by (simp add: sorted_append)
next
  case (Some k)
  then have k: "k < length s" "left \<le> fst (s ! k)" "\<forall>j < k. fst (s ! j) < left" "i = k"
    using assms(3) Some by (auto simp: find_Some_iff not_le)
  have "s ! k \<in> set s" "fst (s ! k) \<le> fst (last s)"
    using k(1) assms(1,2) by (simp_all add: last_conv_nth sorted_iff_nth_mono)
  moreover have "\<forall>x \<in> set (take k s). fst x < left" using k(1,3) by (fastforce simp: in_set_conv_nth)
  moreover have "\<forall>x \<in> set (drop k s). left \<le> fst x"
  proof
    fix x assume "x \<in> set (drop k s)"
    then obtain j where "j < length s - k" "x = s ! (k + j)" by (auto simp: in_set_conv_nth)
    then have "fst (s ! k) \<le> fst x" using assms(1) by (simp add: sorted_iff_nth_mono)
    then show "left \<le> fst x" using k(2) by simp
  qed
  moreover have "sorted (map fst (take k s))" "sorted (map fst (drop k s))"
    "\<forall>x \<in> set (take k s). \<forall>y \<in> set (drop k s). fst x \<le> fst y"
    using assms(1) sorted_append [of "map fst (take k s)" "map fst (drop k s)"] by (simp_all flip: map_append)
  ultimately show ?thesis using k(2,4) by (force simp: sorted_append)
qed

text \<open>
  (C40) The list of running requests that the simulation walks is sorted by the tokens each has left. Adding a
  request to it keeps it sorted exactly when the request has nothing left to generate or is not the longest: the
  insertion loop ends at the last index without a break, and a request longer than all others is put
  before the last one.
\<close>

theorem add_req_state_sorted_iff:
  assumes "sorted (map fst states)" and "states \<noteq> []" and "max_new_tokens (sampling r) = Some mx"
    and "left = of_int mx * (if ignore_eos (sampling r) then 1 else new_token_ratio a) - of_nat (length (Req.output_ids r))"
  shows "\<exists>states'. add_req_state a states r True = Inr states' \<and>
    (sorted (map fst states') \<longleftrightarrow> left \<le> 0 \<or> left \<le> fst (last states))"
proof -
  let ?i = "case find (\<lambda>i. left \<le> fst (states ! i)) [0..<length states] of Some i \<Rightarrow> i | None \<Rightarrow> length states - 1"
  let ?occ = "int (length (origin_input_ids r)) + int (length (Req.output_ids r))"
  have "add_req_state a states r True =
      Inr (if left \<le> 0 then states else take ?i states @ [(left, ?occ)] @ drop ?i states)"
    using assms(3,4) by (simp add: add_req_state_def Let_def)
  then show ?thesis using insert_state_sorted [OF assms(1,2) refl, of left ?occ] assms(1) by auto
qed

theorem add_req_state_sorted_iff_witness:
  "\<forall>m. \<exists>a s. prefill_adder_init default_env m 1 None (1/2) 100 None 0 0 = Inr a \<and>
     add_req_state a [(1, 4), (3, 5)] (demo_req\<lparr>sampling := demo_params\<lparr>max_new_tokens := Some 20\<rparr>\<rparr>) True = Inr s \<and>
     \<not> sorted (map fst s)"
proof
  fix m
  obtain a where a: "prefill_adder_init default_env m 1 None (1/2) 100 None 0 0 = Inr a" "new_token_ratio a = 1/2"
    by (simp add: prefill_adder_init_def)
  let ?r = "demo_req\<lparr>sampling := demo_params\<lparr>max_new_tokens := Some 20\<rparr>\<rparr>"
  have "\<exists>s. add_req_state a [(1, 4), (3, 5)] ?r True = Inr s \<and> (sorted (map fst s) \<longleftrightarrow> (6 :: rat) \<le> 0 \<or> 6 \<le> fst (last [(1 :: rat, 4 :: int), (3, 5)]))"
    by (rule add_req_state_sorted_iff [of _ ?r 20]) (simp_all add: a(2) demo_req_simps)
  then show "\<exists>a s. prefill_adder_init default_env m 1 None (1/2) 100 None 0 0 = Inr a \<and>
     add_req_state a [(1, 4), (3, 5)] ?r True = Inr s \<and> \<not> sorted (map fst s)" using a(1) by auto
qed

text \<open>
  (C35) What the simulation promises: when the list is sorted and the check passes with \<open>cur\<close> free tokens, then
  at every decode step \<open>t\<close> at which somebody is still running, the \<open>t\<close> tokens that each running request has
  generated fit in the free tokens together with what the requests that ended before \<open>t\<close> gave back.
\<close>

theorem states_fit_no_overflow:
  assumes "sorted (map fst s)" and "states_fit cur 0 s" and "\<exists>x \<in> set s. t \<le> fst x"
  shows "t * of_nat (length (filter (\<lambda>x. t \<le> fst x) s)) < cur + of_int (\<Sum>x\<leftarrow>filter (\<lambda>x. fst x < t) s. snd x)"
proof -
  let ?n = "length (filter (\<lambda>x. fst x < t) s)"
  have sum: "?n + length (filter (\<lambda>x. t \<le> fst x) s) = length s"
    using sum_length_filter_compl [of "\<lambda>x. fst x < t" s] by (simp add: not_less)
  have "filter (\<lambda>x. t \<le> fst x) s \<noteq> []" using assms(3) by (auto simp: filter_empty_conv)
  then have "0 < length (filter (\<lambda>x. t \<le> fst x) s)" by (rule length_greater_0_conv [THEN iffD2])
  then have n: "?n < length s" "length (filter (\<lambda>x. t \<le> fst x) s) = length s - ?n" using sum by linarith+
  have "0 \<le> (of_int (IGNORE_EOS_RESERVE_TOKENS * int (length s - ?n)) :: rat)" by (simp add: IGNORE_EOS_RESERVE_TOKENS_def)
  moreover have "of_int (IGNORE_EOS_RESERVE_TOKENS * int (length s - ?n)) <
      cur + 0 + of_int (\<Sum>x\<leftarrow>take ?n s. snd x) - fst (s ! ?n) * of_nat (length s - ?n)"
    using assms(2) n(1) unfolding states_fit_iff by blast
  moreover have "t * of_nat (length s - ?n) \<le> fst (s ! ?n) * of_nat (length s - ?n)"
    using sorted_split_at(2) [OF assms(1) n(1)] by (intro mult_right_mono) auto
  ultimately show ?thesis unfolding n(2) sorted_split_at(1) [OF assms(1), of t, symmetric] by linarith
qed

theorem states_fit_no_overflow_witness:
  "(2 :: rat) * of_nat (length (filter (\<lambda>x. 2 \<le> fst x) [(1, 4), (3, 5), (7 :: rat, 6 :: int)])) <
     30 + of_int (\<Sum>x\<leftarrow>filter (\<lambda>x. fst x < 2) [(1, 4), (3, 5), (7 :: rat, 6)]. snd x)"
  by (rule states_fit_no_overflow) (simp_all add: IGNORE_EOS_RESERVE_TOKENS_def)

end
