(* ===== verification/Scheduler.thy ===== *)
theory Scheduler
  imports Prefill_Adder
begin

text \<open>
  The scheduler of \<^verbatim>\<open>managers/scheduler.py\<close> with the result processing of
  \<^verbatim>\<open>managers/scheduler_output_processor_mixin.py\<close>: the waiting queue, the choice of the next batch, the step of
  the running batch, aborts and one turn of \<^verbatim>\<open>event_loop_normal\<close>. A request is an object that the queue, the
  batches and \<^verbatim>\<open>chunked_req\<close> share; here each holds its value, and an update of a shared request is
  written to every holder, by request id. The model's forward pass is a parameter that yields the next
  tokens. The idle check of \<^verbatim>\<open>managers/scheduler_runtime_checker_mixin.py\<close> ends an idle turn. Pipeline and
  data parallel synchronisation, LoRA, grammars, disaggregation, hierarchical caches, Mamba state and
  metrics are not part of the model.
\<close>

section \<open>The scheduler\<close>

text \<open>
  What the code reads from the server arguments, the worker and the environment. \<open>tokens_per_layer\<close> are
  the full and the sliding window tokens of a hybrid model, and None when \<^verbatim>\<open>is_hybrid\<close> is false.
\<close>

record sched_cfg =
  sc_server :: server_cfg
  sc_env :: sched_env
  sc_page_size :: int
  max_queued_requests :: "int option"
  sc_enable_priority :: bool
  sc_low_first :: bool
  abort_on_priority_when_disabled :: bool
  pp_max_micro_batch_size :: int
  pp_size :: nat
  is_mixed_chunk :: bool
  chunked_prefill_size :: "int option"
  max_prefill_tokens :: int
  truncation_align_size :: "int option"
  sc_enable_overlap :: bool
  sc_preemption_threshold :: int
  decode_mem_cache_buf_multiplier :: nat
  min_new_token_ratio :: rat
  new_token_ratio_decay :: rat
  max_total_num_tokens :: int
  tokens_per_layer :: "(int \<times> int) option"
  init_new_token_ratio :: rat
  TEST_RETRACT :: bool
  TEST_RETRACT_INTERVAL :: nat
  TEST_RETRACT_NO_PREFILL_BS :: nat

text \<open>The messages to the tokenizer that end a request.\<close>

datatype abort_msg = AbortReq string "string option"

record scheduler =
  waiting_queue :: "req list"
  sc_policy :: schedule_policy
  sc_running_batch :: schedule_batch
  last_batch :: "schedule_batch option"
  cur_batch :: "schedule_batch option"
  chunked_req :: "req option"
  sc_new_token_ratio :: rat
  sc_mem :: mem_state
  num_retracted_reqs :: nat
  forward_ct :: nat
  outbox :: "abort_msg list"

text \<open>The ratios of a new scheduler: the initial one, the least one and the decay per step.\<close>

definition init_new_token_ratios :: "rat \<Rightarrow> rat \<Rightarrow> rat \<Rightarrow> nat \<Rightarrow> (rat \<times> rat \<times> rat) result" where
  "init_new_token_ratios init_ratio conservativeness min_factor decay_steps =
     (let r0 = min (init_ratio * conservativeness) 1;
          r1 = min (r0 * min_factor) 1
      in if decay_steps = 0 then Inl ZeroDivisionError else Inr (r0, r1, (r0 - r1) / of_nat decay_steps))"

section \<open>The waiting queue\<close>

definition sys_maxsize :: int where
  "sys_maxsize = 2 ^ 63 - 1"

definition set_or_validate_priority :: "sched_cfg \<Rightarrow> req \<Rightarrow> bool \<times> req \<times> abort_msg list" where
  "set_or_validate_priority cfg r =
     (if sc_enable_priority cfg \<and> priority r = None
      then (True, r\<lparr>priority := Some (if sc_low_first cfg then sys_maxsize else - sys_maxsize - 1)\<rparr>, [])
      else if \<not> sc_enable_priority cfg \<and> priority r \<noteq> None \<and> abort_on_priority_when_disabled cfg
      then (False, r, [AbortReq (rid r) (Some ''Using priority is disabled for this server. Please send a new request without a priority.'')])
      else (True, r, []))"

text \<open>The first index at which \<^verbatim>\<open>max\<close> finds the largest key, the least preferred request.\<close>

definition victim_index :: "int \<Rightarrow> req list \<Rightarrow> nat result" where
  "victim_index direction q =
     (if q = [] then Inl ValueError
      else if list_all (\<lambda>r. priority r \<noteq> None) q
      then let ks = map (\<lambda>r. (direction * the (priority r), wait_queue_entry_time r)) q
           in Inr (the (find (\<lambda>i. list_all (\<lambda>k. k \<le> ks ! i) ks) [0..<length ks]))
      else Inl TypeError)"

definition abort_on_queued_limit :: "sched_cfg \<Rightarrow> req list \<Rightarrow> req \<Rightarrow> (bool \<times> req list \<times> abort_msg list) result" where
  "abort_on_queued_limit cfg q r =
     (let full = [AbortReq (rid r) (Some ''The request queue is full.'')];
          direction = (if sc_low_first cfg then 1 else -1)
      in if (case max_queued_requests cfg of None \<Rightarrow> True | Some n \<Rightarrow> int (length q) + 1 \<le> n) then Inr (False, q, [])
         else if \<not> sc_enable_priority cfg then Inr (True, q, full)
         else bind_r (victim_index direction q) (\<lambda>i.
              case priority r of
                None \<Rightarrow> Inl TypeError
              | Some p \<Rightarrow>
                  if direction * p < direction * the (priority (q ! i))
                  then Inr (rid (q ! i) = rid r, take i q @ drop (Suc i) q,
                         [AbortReq (rid (q ! i)) (Some ''The request is aborted by a higher priority request.'')])
                  else Inr (True, q, full)))"

text \<open>\<open>now r\<close> is the clock when \<open>r\<close> is queued.\<close>

definition add_request_to_queue :: "sched_cfg \<Rightarrow> (req \<Rightarrow> rat) \<Rightarrow> scheduler \<Rightarrow> req \<Rightarrow> scheduler result" where
  "add_request_to_queue cfg now s r =
     (case set_or_validate_priority cfg r of
        (False, _, out) \<Rightarrow> Inr (s\<lparr>outbox := outbox s @ out\<rparr>)
      | (True, r1, _) \<Rightarrow>
          bind_r (abort_on_queued_limit cfg (waiting_queue s) r1) (\<lambda>(rejected, q, out).
            Inr (s\<lparr>outbox := outbox s @ out,
                   waiting_queue := (if rejected then q else q @ [r1\<lparr>wait_queue_entry_time := now r\<rparr>])\<rparr>)))"

fun add_requests :: "sched_cfg \<Rightarrow> (req \<Rightarrow> rat) \<Rightarrow> scheduler \<Rightarrow> req list \<Rightarrow> scheduler result" where
  "add_requests cfg now s [] = Inr s"
| "add_requests cfg now s (r # rs) = bind_r (add_request_to_queue cfg now s r) (\<lambda>s'. add_requests cfg now s' rs)"

section \<open>A new prefill batch\<close>

definition get_num_allocatable_reqs :: "sched_cfg \<Rightarrow> mem_state \<Rightarrow> int \<Rightarrow> int" where
  "get_num_allocatable_reqs cfg m running_bs =
     (let res = pp_max_micro_batch_size cfg - running_bs
      in if pp_size cfg > 1 then min res (int (length (free_slots (req_to_token_pool m)))) else res)"

definition set_full :: "bool \<Rightarrow> prefill_adder \<Rightarrow> prefill_adder" where
  "set_full full a = a\<lparr>running_batch := map_option (\<lambda>b. b\<lparr>batch_is_full := full\<rparr>) (running_batch a)\<rparr>"

text \<open>
  The loop over the waiting queue, until a \<^verbatim>\<open>break\<close>. The adder holds the running batch, which the
  scheduler shares with it; the result has the queue with the requests that the loop updated.
\<close>

fun prefill_loop ::
    "sched_cfg \<Rightarrow> req list \<Rightarrow> mem_state \<Rightarrow> prefill_adder \<Rightarrow> (req list \<times> mem_state \<times> prefill_adder) result" where
  "prefill_loop cfg [] m a = Inr ([], m, a)"
| "prefill_loop cfg (r # rs) m a =
     (case running_batch a of
        None \<Rightarrow> Inl AttributeError
      | Some b \<Rightarrow>
          let running_bs = int (length (reqs b)) - int (length (preempt_list a));
              full = (batch_is_full b \<or> get_num_allocatable_reqs cfg m running_bs \<le> int (length (can_run_list a)));
              a1 = set_full full a
          in bind_r (if \<not> full then Inr (True, a1, m)
                     else if \<not> sc_enable_priority cfg then Inr (False, a1, m)
                     else preempt_to_schedule (sc_env cfg) (sc_server cfg) (sc_low_first cfg) m a1 r) (\<lambda>(proceed, a2, m1).
             if \<not> proceed then Inr (r # rs, m1, a2)
             else bind_r (init_next_round_input cache_match (Some (tree_cache m1)) r) (\<lambda>(r1, t).
                  bind_r (add_one_req (sc_env cfg) (m1\<lparr>tree_cache := the t\<rparr>) a2 r1 (truncation_align_size cfg)) (\<lambda>(res, r2, a3, m2).
                  if res = CONTINUE then bind_r (prefill_loop cfg rs m2 a3) (\<lambda>(rs', m3, a4). Inr (r2 # rs', m3, a4))
                  else Inr (r2 # rs, m2, if res = NO_TOKEN then set_full True a3 else a3)))))"

definition sync_req :: "req list \<Rightarrow> req option \<Rightarrow> req option" where
  "sync_req rs r = (case r of None \<Rightarrow> None | Some x \<Rightarrow> (case find (\<lambda>y. rid y = rid x) rs of None \<Rightarrow> Some x | Some y \<Rightarrow> Some y))"

text \<open>\<^verbatim>\<open>ScheduleBatch(reqs=[], batch_is_full=full)\<close>.\<close>

definition empty_batch :: "bool \<Rightarrow> schedule_batch" where
  "empty_batch full = \<lparr>reqs = [], is_hybrid = False, forward_mode = None, enable_overlap = False, input_ids = None,
     req_pool_indices = [], seq_lens = [], seq_lens_cpu = [], orig_seq_lens = [], out_cache_loc = None,
     batch_output_ids = None, seq_lens_sum = 0, batch_return_logprob = False, top_logprobs_nums = None,
     token_ids_logprobs = None, prefix_lens = [], extend_lens = [], extend_num_tokens = 0,
     extend_logprob_start_lens = [], extend_input_logprob_token_ids = None, has_stream = False, has_grammar = False,
     batch_return_hidden_states = False, batch_is_prefill_only = False, batch_is_full = full,
     batch_chunked_req = None, decoding_reqs = None\<rparr>"

text \<open>Mixing the running batch into the new one, when chunked prefill runs mixed.\<close>

definition mix_running :: "sched_cfg \<Rightarrow> mem_state \<Rightarrow> schedule_batch \<Rightarrow> schedule_batch \<Rightarrow> (schedule_batch \<times> schedule_batch \<times> mem_state) result" where
  "mix_running cfg m new_batch running =
     (if is_mixed_chunk cfg \<and> \<not> is_empty running \<and> \<not> (batch_return_logprob new_batch \<or> batch_return_logprob running)
      then bind_r (filter_batch running [] None) (\<lambda>running1.
           let rest = empty_batch (batch_is_full running1)
           in if is_empty running1 then Inr (new_batch, rest, m)
              else bind_r (prepare_for_decode (sc_server cfg) m running1) (\<lambda>(running2, m1).
                   bind_r (mix_with_running new_batch running2) (\<lambda>mixed.
                     Inr (mixed\<lparr>decoding_reqs := Some (drop (length (reqs new_batch)) (reqs mixed))\<rparr>, rest, m1))))
      else Inr (new_batch\<lparr>decoding_reqs := None\<rparr>, running, m))"

text \<open>From the admitted requests to the batch; \<open>chunked\<close> is the chunked request that is still unfinished.\<close>

definition launch_prefill ::
    "sched_cfg \<Rightarrow> (req \<Rightarrow> rat) \<Rightarrow> scheduler \<Rightarrow> prefill_adder \<Rightarrow> (schedule_batch option \<times> scheduler) result" where
  "launch_prefill cfg now s a =
     (let run = can_run_list a;
          s1 = s\<lparr>waiting_queue := filter (\<lambda>x. rid x \<notin> set (map rid run)) (waiting_queue s)\<rparr>
      in bind_r (add_requests cfg now s1 (preempt_list a)) (\<lambda>s2.
         assert_r (new_chunked_req a = None \<or> chunked_req s = None)
           (let chunked = (if new_chunked_req a \<noteq> None then new_chunked_req a else chunked_req s);
                run1 = map (\<lambda>r. if chunked \<noteq> None \<and> rid r = rid (the chunked) then r\<lparr>is_chunked := is_chunked r + 1\<rparr> else r) run
            in bind_r (init_new (sc_server cfg) (sc_mem s2) run1 (sc_enable_overlap cfg) (sync_req run1 chunked)) (\<lambda>b.
               bind_r (prepare_for_extend (sc_server cfg) (sc_mem s2) b) (\<lambda>(b1, m1).
               let chunked1 = sync_req (reqs b1) chunked
               in bind_r (mix_running cfg m1 (b1\<lparr>batch_chunked_req := chunked1\<rparr>) (sc_running_batch s2)) (\<lambda>(b2, running, m2).
                    Inr (Some b2, s2\<lparr>chunked_req := chunked1, sc_running_batch := running, sc_mem := m2\<rparr>)))))))"

text \<open>
  \<open>u\<close> reads uninitialised memory and \<open>shuffle\<close> is \<^verbatim>\<open>random.shuffle\<close>, for the policy.
\<close>

definition get_new_batch_prefill ::
    "sched_cfg \<Rightarrow> (nat \<Rightarrow> int) \<Rightarrow> (req list \<Rightarrow> req list) \<Rightarrow> (req \<Rightarrow> rat) \<Rightarrow> scheduler \<Rightarrow> (schedule_batch option \<times> scheduler) result" where
  "get_new_batch_prefill cfg u shuffle now s =
     (let running = (if sc_enable_priority cfg then (sc_running_batch s)\<lparr>batch_is_full := False\<rparr> else sc_running_batch s);
          running_bs = length (reqs running);
          s0 = s\<lparr>sc_running_batch := running\<rparr>
      in if (batch_is_full running \<or> waiting_queue s = []) \<and> chunked_req s = None then Inr (None, s0)
         else if get_num_allocatable_reqs cfg (sc_mem s) (int running_bs) \<le> 0 \<and> chunked_req s = None \<and> \<not> sc_enable_priority cfg
         then Inr (None, s0\<lparr>sc_running_batch := running\<lparr>batch_is_full := True\<rparr>\<rparr>)
         else bind_r (calc_priority (sc_env cfg) u shuffle (sc_policy s) (tree_cache (sc_mem s)) (waiting_queue s)) (\<lambda>(_, q, sp, t).
           let m = (sc_mem s)\<lparr>tree_cache := t\<rparr>;
               s1 = s0\<lparr>waiting_queue := q, sc_policy := sp, sc_mem := m\<rparr>
           in if TEST_RETRACT cfg \<and> running_bs > TEST_RETRACT_NO_PREFILL_BS cfg then Inr (None, s1)
              else bind_r (prefill_adder_init (sc_env cfg) m (sc_page_size cfg) (Some running) (sc_new_token_ratio s)
                    (max_prefill_tokens cfg) (chunked_prefill_size cfg) (if is_mixed_chunk cfg then int running_bs else 0)
                    (sc_preemption_threshold cfg)) (\<lambda>a.
                 bind_r (case chunked_req s of
                     None \<Rightarrow> Inr (None, a)
                   | Some r \<Rightarrow> bind_r (init_next_round_input cache_match None r) (\<lambda>(r1, _). add_chunked_req (sc_env cfg) m a r1)) (\<lambda>(chunked, a1).
                 bind_r (prefill_loop cfg q m a1) (\<lambda>(q1, m1, a2).
                 let s2 = s1\<lparr>waiting_queue := q1, sc_mem := m1, sc_running_batch := the (running_batch a2), chunked_req := chunked\<rparr>
                 in if can_run_list a2 = [] then Inr (None, s2) else launch_prefill cfg now s2 a2)))))"

section \<open>The running batch\<close>

definition update_running_batch ::
    "sched_cfg \<Rightarrow> (req \<Rightarrow> rat) \<Rightarrow> scheduler \<Rightarrow> schedule_batch \<Rightarrow> (schedule_batch \<times> scheduler) result" where
  "update_running_batch cfg now s batch =
     bind_r (filter_batch batch [] None) (\<lambda>b.
     if is_empty b then Inr (b\<lparr>batch_is_full := False\<rparr>, s)
     else bind_r (check_decode_mem (sc_mem s) b (decode_mem_cache_buf_multiplier cfg) None) (\<lambda>(enough, m).
          bind_r (if enough \<and> TEST_RETRACT cfg \<and> TEST_RETRACT_INTERVAL cfg = 0 then Inl ZeroDivisionError
                  else if \<not> enough \<or> (TEST_RETRACT cfg \<and> forward_ct s mod TEST_RETRACT_INTERVAL cfg = 0)
                  then bind_r (retract_decode (sc_server cfg) m b) (\<lambda>(retracted, ratio, b1, m1).
                       bind_r (add_requests cfg now (s\<lparr>sc_mem := m1, num_retracted_reqs := length retracted,
                         sc_new_token_ratio := ratio\<rparr>) retracted) (\<lambda>s1. Inr (b1, s1)))
                  else Inr (b, s\<lparr>sc_mem := m, sc_new_token_ratio :=
                         max (sc_new_token_ratio s - new_token_ratio_decay cfg) (min_new_token_ratio cfg)\<rparr>)) (\<lambda>(b2, s2).
          let b3 = (if batch_size b2 < batch_size batch then b2\<lparr>batch_is_full := False\<rparr> else b2)
          in bind_r (prepare_for_decode (sc_server cfg) (sc_mem s2) b3) (\<lambda>(b4, m2). Inr (b4, s2\<lparr>sc_mem := m2\<rparr>)))))"

section \<open>The next batch\<close>

definition is_extend :: "forward_mode \<Rightarrow> bool" where
  "is_extend f \<longleftrightarrow> f = EXTEND \<or> f = MIXED \<or> f = DRAFT_EXTEND \<or> f = TARGET_VERIFY \<or> f = SPLIT_PREFILL"

definition cache_unfinished :: "mem_state \<Rightarrow> req \<Rightarrow> (mem_state \<times> req) result" where
  "cache_unfinished m r =
     (case tree_cache m of
        RadixTree c \<Rightarrow>
          bind_r (cache_unfinished_req allocator_free c (req_to_token_pool m) (kv_allocator m) r)
            (\<lambda>(c', p', a', r'). Inr (m\<lparr>tree_cache := RadixTree c', kv_allocator := a', req_to_token_pool := p'\<rparr>, r'))
      | Chunk c \<Rightarrow> bind_r (chunk_cache_unfinished_req c (req_to_token_pool m) r) (\<lambda>(c', r'). Inr (m\<lparr>tree_cache := Chunk c'\<rparr>, r'))
      | SWAChunk c \<Rightarrow> bind_r (chunk_cache_unfinished_req c (req_to_token_pool m) r) (\<lambda>(c', r'). Inr (m\<lparr>tree_cache := SWAChunk c'\<rparr>, r')))"

text \<open>The chunked request is cached and gives back its row before its next chunk.\<close>

definition stash_chunked :: "scheduler \<Rightarrow> scheduler result" where
  "stash_chunked s =
     (case chunked_req s of
        None \<Rightarrow> Inr s
      | Some r \<Rightarrow> bind_r (cache_unfinished (sc_mem s) r) (\<lambda>(m, r1).
                  bind_r (free_row (req_to_token_pool m) (req_pool_idx r1)) (\<lambda>p.
                    Inr (s\<lparr>chunked_req := Some r1, sc_mem := m\<lparr>req_to_token_pool := p\<rparr>\<rparr>))))"

definition opt_list :: "'a option \<Rightarrow> 'a list" where
  "opt_list x = (case x of None \<Rightarrow> [] | Some y \<Rightarrow> [y])"

definition merge_last :: "scheduler \<Rightarrow> scheduler result" where
  "merge_last s =
     (case last_batch s of
        None \<Rightarrow> Inr s
      | Some last0 \<Rightarrow>
          (case forward_mode last0 of
             None \<Rightarrow> Inl AttributeError
           | Some f \<Rightarrow>
               if \<not> is_extend f then Inr s
               else bind_r (filter_batch last0 (opt_list (chunked_req s) @ opt_list (batch_chunked_req last0)) None) (\<lambda>last1.
                    let running = (if batch_size last1 < batch_size last0 then (sc_running_batch s)\<lparr>batch_is_full := False\<rparr>
                                   else sc_running_batch s)
                    in bind_r (if \<not> is_empty last1 \<and> \<not> batch_is_prefill_only last1
                               then if is_empty running then Inr last1 else merge_batch running last1
                               else Inr running) (\<lambda>running1.
                         Inr (s\<lparr>last_batch := Some last1, sc_running_batch := running1\<rparr>)))))"

definition get_next_batch_to_run ::
    "sched_cfg \<Rightarrow> (nat \<Rightarrow> int) \<Rightarrow> (req list \<Rightarrow> req list) \<Rightarrow> (req \<Rightarrow> rat) \<Rightarrow> scheduler \<Rightarrow> (schedule_batch option \<times> scheduler) result" where
  "get_next_batch_to_run cfg u shuffle now s =
     bind_r (stash_chunked s) (\<lambda>s1.
     bind_r (merge_last s1) (\<lambda>s2.
     bind_r (get_new_batch_prefill cfg u shuffle now s2) (\<lambda>(new_batch, s3).
       if new_batch \<noteq> None then Inr (new_batch, s3)
       else if is_empty (sc_running_batch s3) then Inr (None, s3)
       else bind_r (update_running_batch cfg now s3 (sc_running_batch s3)) (\<lambda>(running, s4).
              Inr (if is_empty running then None else Some running, s4\<lparr>sc_running_batch := running\<rparr>)))))"

section \<open>Results\<close>

text \<open>
  What the finish check of a request relies on outside the program: regular expression search, and the
  first element of a set of token ids.
\<close>

type_synonym finish_env = "(string \<Rightarrow> string \<Rightarrow> bool) \<times> (int set \<Rightarrow> int)"

definition finish_req :: "sched_cfg \<Rightarrow> mem_state \<Rightarrow> req \<Rightarrow> (req \<times> mem_state) result" where
  "finish_req cfg m r =
     bind_r (release_kv_cache (spec_topk (sc_server cfg)) (spec_on (sc_server cfg)) (server_page_size (sc_server cfg)) m r True)
       (\<lambda>(m1, r1). Inr (r1, m1))"

definition prefill_result_req :: "sched_cfg \<Rightarrow> finish_env \<Rightarrow> req list option \<Rightarrow> mem_state \<Rightarrow> req \<Rightarrow> int \<Rightarrow> (req \<times> mem_state) result" where
  "prefill_result_req cfg fe decoding m r tok =
     (if finished r \<or> is_retracted r then Inr (r, m)
      else if is_chunked r \<le> 0
      then bind_r (check_finished (fst fe) (snd fe) 1 (r\<lparr>Req.output_ids := Req.output_ids r @ [tok]\<rparr>)) (\<lambda>r1.
           if finished r1 then finish_req cfg m r1
           else if (case decoding of None \<Rightarrow> True | Some ds \<Rightarrow> rid r1 \<notin> set (map rid ds))
           then bind_r (cache_unfinished m r1) (\<lambda>(m1, r2). Inr (r2, m1))
           else Inr (r1, m))
      else Inr (r\<lparr>is_chunked := is_chunked r - 1\<rparr>, m))"

definition decode_result_req :: "sched_cfg \<Rightarrow> finish_env \<Rightarrow> mem_state \<Rightarrow> req \<Rightarrow> int \<Rightarrow> (req \<times> mem_state) result" where
  "decode_result_req cfg fe m r tok =
     (if sc_enable_overlap cfg \<and> (finished r \<or> is_retracted r) then Inr (r, m)
      else bind_r (check_finished (fst fe) (snd fe) 1 (r\<lparr>Req.output_ids := Req.output_ids r @ [tok]\<rparr>)) (\<lambda>r1.
           if finished r1 then finish_req cfg m r1 else Inr (r1, m)))"

text \<open>\<^verbatim>\<open>zip\<close> stops at the shorter list; the requests after it are not touched.\<close>

fun each_req :: "(mem_state \<Rightarrow> req \<Rightarrow> int \<Rightarrow> (req \<times> mem_state) result) \<Rightarrow> mem_state \<Rightarrow> req list \<Rightarrow> int list \<Rightarrow> (req list \<times> mem_state) result" where
  "each_req f m (r # rs) (t # ts) = bind_r (f m r t) (\<lambda>(r1, m1). bind_r (each_req f m1 rs ts) (\<lambda>(rs1, m2). Inr (r1 # rs1, m2)))"
| "each_req f m rs ts = Inr (rs, m)"

definition process_batch_result_prefill ::
    "sched_cfg \<Rightarrow> finish_env \<Rightarrow> mem_state \<Rightarrow> schedule_batch \<Rightarrow> int list \<Rightarrow> (schedule_batch \<times> mem_state) result" where
  "process_batch_result_prefill cfg fe m b next_token_ids =
     bind_r (each_req (prefill_result_req cfg fe (decoding_reqs b)) m (reqs b) next_token_ids) (\<lambda>(rs, m1). Inr (b\<lparr>reqs := rs\<rparr>, m1))"

fun allocator_group_begin :: "allocator \<Rightarrow> allocator" where
  "allocator_group_begin (TokenAlloc s) = TokenAlloc (free_group_begin s)"
| "allocator_group_begin (PagedAlloc s) = PagedAlloc (free_group_begin s)"
| "allocator_group_begin (SWAAlloc s) = SWAAlloc (swa_free_group_begin s)"

fun allocator_group_end :: "allocator \<Rightarrow> allocator result" where
  "allocator_group_end (TokenAlloc s) = Inr (TokenAlloc (free_group_end token_free s))"
| "allocator_group_end (PagedAlloc s) = bind_r (paged_free_group_end s) (\<lambda>s'. Inr (PagedAlloc s'))"
| "allocator_group_end (SWAAlloc s) = bind_r (swa_free_group_end s) (\<lambda>s'. Inr (SWAAlloc s'))"

definition process_batch_result_decode ::
    "sched_cfg \<Rightarrow> finish_env \<Rightarrow> mem_state \<Rightarrow> schedule_batch \<Rightarrow> int list \<Rightarrow> (schedule_batch \<times> mem_state) result" where
  "process_batch_result_decode cfg fe m b next_token_ids =
     bind_r (each_req (decode_result_req cfg fe) (m\<lparr>kv_allocator := allocator_group_begin (kv_allocator m)\<rparr>) (reqs b) next_token_ids) (\<lambda>(rs, m1).
     bind_r (allocator_group_end (kv_allocator m1)) (\<lambda>al. Inr (b\<lparr>reqs := rs\<rparr>, m1\<lparr>kv_allocator := al\<rparr>)))"

text \<open>Only the modes that the plain event loop produces are covered: a prebuilt batch needs disaggregation.\<close>

definition process_batch_result ::
    "sched_cfg \<Rightarrow> finish_env \<Rightarrow> mem_state \<Rightarrow> schedule_batch \<Rightarrow> int list \<Rightarrow> (schedule_batch \<times> mem_state) result" where
  "process_batch_result cfg fe m b next_token_ids =
     (case forward_mode b of
        None \<Rightarrow> Inl AttributeError
      | Some f \<Rightarrow>
          if f = DECODE then process_batch_result_decode cfg fe m b next_token_ids
          else if is_extend f then process_batch_result_prefill cfg fe m b next_token_ids
          else if f = PREBUILT then Inl NotImplementedError
          else Inr (b, m))"

section \<open>Aborts\<close>

text \<open>\<^verbatim>\<open>rid.startswith(prefix)\<close>.\<close>

definition abort_matches :: "bool \<Rightarrow> string \<Rightarrow> req \<Rightarrow> bool" where
  "abort_matches all pre r \<longleftrightarrow> all \<or> take (length pre) (rid r) = pre"

text \<open>
  A waiting request is dropped, last first; a running one gets \<^verbatim>\<open>to_finish\<close>, in every holder of it.
\<close>

definition abort_request :: "scheduler \<Rightarrow> bool \<Rightarrow> string \<Rightarrow> scheduler" where
  "abort_request s all pre =
     (let dropped = filter (abort_matches all pre) (waiting_queue s);
          running = reqs (sc_running_batch s) @ (case cur_batch s of None \<Rightarrow> [] | Some b \<Rightarrow> reqs b);
          hit = map rid (filter (\<lambda>r. \<not> finished r \<and> abort_matches all pre r) running);
          mark = (\<lambda>r. if rid r \<in> set hit then r\<lparr>to_finish := Some (finish_abort None None None)\<rparr> else r);
          mark_batch = (\<lambda>b. b\<lparr>reqs := map mark (reqs b)\<rparr>)
      in s\<lparr>waiting_queue := filter (\<lambda>r. \<not> abort_matches all pre r) (waiting_queue s),
           outbox := outbox s @ map (\<lambda>r. AbortReq (rid r) None) (rev dropped),
           sc_running_batch := mark_batch (sc_running_batch s),
           cur_batch := map_option mark_batch (cur_batch s),
           last_batch := map_option mark_batch (last_batch s),
           chunked_req := map_option mark (chunked_req s)\<rparr>)"

text \<open>What a sequence of decode steps does to one request: a finished request gets no more tokens.\<close>

fun decode_run :: "finish_env \<Rightarrow> req \<Rightarrow> int list \<Rightarrow> req result" where
  "decode_run fe r [] = Inr r"
| "decode_run fe r (t # ts) =
     (if finished r then Inr r
      else bind_r (check_finished (fst fe) (snd fe) 1 (r\<lparr>Req.output_ids := Req.output_ids r @ [t]\<rparr>)) (\<lambda>r'. decode_run fe r' ts))"

section \<open>A turn of the event loop\<close>

text \<open>
  \<open>forward\<close> is the forward pass with sampling, which returns the next token of each request. A decode
  batch is the running batch itself; a prefill batch shares only the chunked request with the scheduler.
  The requests received are those that \<^verbatim>\<open>handle_generate_request\<close> builds and queues.
\<close>

definition run_and_process ::
    "sched_cfg \<Rightarrow> finish_env \<Rightarrow> (schedule_batch \<Rightarrow> int list) \<Rightarrow> scheduler \<Rightarrow> schedule_batch \<Rightarrow> scheduler result" where
  "run_and_process cfg fe forward s b =
     (let ids = forward b
      in bind_r (process_batch_result cfg fe (sc_mem s) (b\<lparr>batch_output_ids := Some ids\<rparr>) ids) (\<lambda>(b1, m).
           Inr (s\<lparr>forward_ct := forward_ct s + 1, sc_mem := m, cur_batch := Some b1, last_batch := Some b1,
                  sc_running_batch := (if forward_mode b = Some DECODE then b1 else sc_running_batch s),
                  chunked_req := sync_req (reqs b1) (chunked_req s)\<rparr>)))"

text \<open>The memory that the idle check counts.\<close>

fun cache_protected_size :: "prefix_cache \<Rightarrow> int" where
  "cache_protected_size (RadixTree c) = protected_size c"
| "cache_protected_size (Chunk c) = chunk_protected_size c"
| "cache_protected_size (SWAChunk c) = chunk_protected_size c"

definition get_token_info :: "sched_cfg \<Rightarrow> mem_state \<Rightarrow> (int \<times> rat \<times> int \<times> int) result" where
  "get_token_info cfg m =
     bind_r (allocator_available_size (kv_allocator m)) (\<lambda>n.
     let evictable = cache_evictable_size (tree_cache m);
         num_used = max_total_num_tokens cfg - (int n + evictable)
     in if max_total_num_tokens cfg = 0 then Inl ZeroDivisionError
        else Inr (num_used, of_int num_used / of_int (max_total_num_tokens cfg), int n, evictable))"

definition get_swa_token_info :: "int \<times> int \<Rightarrow> mem_state \<Rightarrow> (int \<times> int \<times> rat \<times> rat \<times> int \<times> int) result" where
  "get_swa_token_info per_layer m =
     (case (kv_allocator m, per_layer) of
        (SWAAlloc a, (full, swa)) \<Rightarrow>
          let full_used = full - int (full_available_size a); swa_used = swa - int (swa_available_size a)
          in if full = 0 \<or> swa = 0 then Inl ZeroDivisionError
             else Inr (full_used, swa_used, of_int full_used / of_int full, of_int swa_used / of_int swa,
                       int (full_available_size a), int (swa_available_size a))
      | _ \<Rightarrow> Inl AttributeError)"

definition check_hybrid_memory :: "int \<times> int \<Rightarrow> mem_state \<Rightarrow> bool result" where
  "check_hybrid_memory per_layer m =
     bind_r (get_swa_token_info per_layer m) (\<lambda>(full_used, swa_used, _). Inr (full_used \<noteq> 0 \<or> swa_used \<noteq> 0))"

definition check_radix_cache_memory :: "sched_cfg \<Rightarrow> mem_state \<Rightarrow> bool result" where
  "check_radix_cache_memory cfg m =
     bind_r (get_token_info cfg m) (\<lambda>(_, _, available, evictable).
       Inr (available + evictable \<noteq> max_total_num_tokens cfg - cache_protected_size (tree_cache m)))"

definition check_req_pool :: "req_pool \<Rightarrow> unit result" where
  "check_req_pool p = (if length (free_slots p) \<noteq> rp_size p then Inl ValueError else Inr ())"

definition check_memory :: "sched_cfg \<Rightarrow> mem_state \<Rightarrow> unit result" where
  "check_memory cfg m =
     bind_r (case tokens_per_layer cfg of Some per_layer \<Rightarrow> check_hybrid_memory per_layer m | None \<Rightarrow> check_radix_cache_memory cfg m)
       (\<lambda>memory_leak. if memory_leak then Inl ValueError else check_req_pool (req_to_token_pool m))"

definition self_check_during_idle :: "sched_cfg \<Rightarrow> scheduler \<Rightarrow> scheduler result" where
  "self_check_during_idle cfg s =
     bind_r (check_memory cfg (sc_mem s)) (\<lambda>_. Inr (s\<lparr>sc_new_token_ratio := init_new_token_ratio cfg\<rparr>))"

definition event_loop_turn ::
    "sched_cfg \<Rightarrow> finish_env \<Rightarrow> (schedule_batch \<Rightarrow> int list) \<Rightarrow> (nat \<Rightarrow> int) \<Rightarrow> (req list \<Rightarrow> req list) \<Rightarrow> (req \<Rightarrow> rat) \<Rightarrow>
     scheduler \<Rightarrow> req list \<Rightarrow> scheduler result" where
  "event_loop_turn cfg fe forward u shuffle now s recv_reqs =
     bind_r (add_requests cfg now s recv_reqs) (\<lambda>s1.
     bind_r (get_next_batch_to_run cfg u shuffle now s1) (\<lambda>(batch, s2).
       case batch of
         None \<Rightarrow> bind_r (self_check_during_idle cfg s2) (\<lambda>s3. Inr (s3\<lparr>cur_batch := None, last_batch := None\<rparr>))
       | Some b \<Rightarrow> run_and_process cfg fe forward s2 b))"

section \<open>Lemmas on the queue\<close>

text \<open>
  \<open>queue_ok\<close>: the queue respects its limit, and every request in it has a priority when priorities are
  enabled.
\<close>

definition queue_ok :: "sched_cfg \<Rightarrow> req list \<Rightarrow> bool" where
  "queue_ok cfg q \<longleftrightarrow> (sc_enable_priority cfg \<longrightarrow> (\<forall>r \<in> set q. priority r \<noteq> None)) \<and>
     (case max_queued_requests cfg of None \<Rightarrow> True | Some n \<Rightarrow> int (length q) \<le> n)"

fun aborted :: "abort_msg \<Rightarrow> string" where
  "aborted (AbortReq i _) = i"

lemma victim_index_spec:
  assumes "q \<noteq> []" and "\<forall>r \<in> set q. priority r \<noteq> None"
  shows "\<exists>i < length q. victim_index d q = Inr i \<and>
    (\<forall>x \<in> set q. (d * the (priority x), wait_queue_entry_time x) \<le> (d * the (priority (q ! i)), wait_queue_entry_time (q ! i)))"
proof -
  let ?k = "\<lambda>r. (d * the (priority r), wait_queue_entry_time r)"
  let ?ks = "map ?k q"
  have "set ?ks \<noteq> {}" using assms(1) by simp
  then have "Max (set ?ks) \<in> set ?ks" by (rule Max_in [OF finite_set])
  then obtain j where j: "?ks ! j = Max (set ?ks)" "j < length ?ks" by (rule in_set_conv_nth [THEN iffD1, THEN exE]) blast
  have "list_all (\<lambda>k. k \<le> ?ks ! j) ?ks" unfolding j(1) list_all_iff by (intro ballI Max_ge finite_set)
  then obtain i where i: "find (\<lambda>i. list_all (\<lambda>k. k \<le> ?ks ! i) ?ks) [0..<length ?ks] = Some i"
    using j(2) find_None_iff [of "\<lambda>i. list_all (\<lambda>k. k \<le> ?ks ! i) ?ks" "[0..<length ?ks]"] by fastforce
  then have i': "i < length q" "list_all (\<lambda>k. k \<le> ?ks ! i) ?ks" by (auto simp: find_Some_iff)
  have "victim_index d q = Inr i" using assms i by (simp add: victim_index_def list_all_iff Let_def)
  moreover have "\<forall>x \<in> set q. ?k x \<le> ?k (q ! i)" using i' by (simp add: list_all_iff)
  ultimately show ?thesis using i'(1) by blast
qed

lemma mset_take_drop:
  assumes "i < length q" shows "mset (map f (take i q @ drop (Suc i) q)) + {#f (q ! i)#} = mset (map f q)"
proof -
  have "mset (map f q) = mset (map f (take i q @ q ! i # drop (Suc i) q))" using id_take_nth_drop [OF assms] by simp
  then show ?thesis by simp
qed

lemma distinct_subset_mset:
  assumes "mset xs \<subseteq># mset ys" and "distinct ys" shows "distinct xs"
proof -
  obtain M where "mset ys = mset xs + M" using assms(1) by (auto simp: mset_subset_eq_exists_conv)
  then obtain zs where "mset ys = mset (xs @ zs)" by (metis ex_mset mset_append)
  then show ?thesis using assms(2) mset_eq_imp_distinct_iff by fastforce
qed

text \<open>What the limit does: reject the newcomer, or drop the least preferred request for a better one.\<close>

lemma abort_on_queued_limit_spec:
  assumes ok: "queue_ok cfg q" and lim: "max_queued_requests cfg \<noteq> Some 0" and new: "rid r \<notin> rid ` set q"
    and p: "sc_enable_priority cfg \<longrightarrow> priority r \<noteq> None"
  shows "\<exists>rej q' out. abort_on_queued_limit cfg q r = Inr (rej, q', out) \<and>
    queue_ok cfg (if rej then q' else q' @ [r]) \<and> set q' \<subseteq> set q \<and>
    mset (map rid (if rej then q' else q' @ [r])) + mset (map aborted out) = mset (map rid q) + {#rid r#}"
proof -
  consider "case max_queued_requests cfg of None \<Rightarrow> True | Some n \<Rightarrow> int (length q) + 1 \<le> n"
    | n where "max_queued_requests cfg = Some n" "n < int (length q) + 1" "\<not> sc_enable_priority cfg"
    | n where "max_queued_requests cfg = Some n" "n < int (length q) + 1" "sc_enable_priority cfg"
    by (cases "max_queued_requests cfg") (force simp: not_le)+
  then show ?thesis
  proof cases
    case 1
    then show ?thesis using ok p by (auto simp: abort_on_queued_limit_def queue_ok_def split: option.splits)
  next
    case 2
    then show ?thesis using ok by (auto simp: abort_on_queued_limit_def Let_def)
  next
    case 3
    let ?d = "if sc_low_first cfg then 1 else -1 :: int"
    have n: "int (length q) \<le> n" "0 \<le> n" "n \<noteq> 0" "\<forall>r \<in> set q. priority r \<noteq> None" using ok 3 lim by (auto simp: queue_ok_def)
    then have "q \<noteq> []" using 3(2) by auto
    then obtain i where i: "i < length q" "victim_index ?d q = Inr i" using victim_index_spec [OF _ n(4), of ?d] by blast
    obtain pr where pr: "priority r = Some pr" using p 3(3) by auto
    show ?thesis
    proof (cases "?d * pr < ?d * the (priority (q ! i))")
      case True
      have ne: "rid (q ! i) \<noteq> rid r" using i(1) new by (metis image_eqI nth_mem)
      let ?q = "take i q @ drop (Suc i) q"
      have sub: "set ?q \<subseteq> set q" using set_take_subset set_drop_subset by (metis Un_least set_append)
      have "length ?q + 1 = length q" using i(1) by simp
      then have "queue_ok cfg (?q @ [r])" using ok sub pr by (auto simp: queue_ok_def split: option.splits)
      moreover have "abort_on_queued_limit cfg q r = Inr (False, ?q,
          [AbortReq (rid (q ! i)) (Some ''The request is aborted by a higher priority request.'')])"
        using 3 i(2) pr True ne by (simp add: abort_on_queued_limit_def Let_def)
      ultimately show ?thesis using sub mset_take_drop [OF i(1), of rid] by auto
    next
      case False
      then show ?thesis using 3 i(2) pr ok by (auto simp: abort_on_queued_limit_def Let_def)
    qed
  qed
qed

lemma add_request_spec:
  assumes ok: "queue_ok cfg (waiting_queue s)" and lim: "max_queued_requests cfg \<noteq> Some 0"
    and new: "rid r \<notin> rid ` set (waiting_queue s)"
  shows "\<exists>q out. add_request_to_queue cfg now s r = Inr (s\<lparr>waiting_queue := q, outbox := outbox s @ out\<rparr>) \<and> queue_ok cfg q \<and>
    mset (map rid q) + mset (map aborted out) = mset (map rid (waiting_queue s)) + {#rid r#}"
proof (cases "set_or_validate_priority cfg r")
  case (fields go r1 out0)
  show ?thesis
  proof (cases go)
    case False
    then have "add_request_to_queue cfg now s r = Inr (s\<lparr>waiting_queue := waiting_queue s, outbox := outbox s @ out0\<rparr>)"
      "map aborted out0 = [rid r]"
      using fields by (auto simp: add_request_to_queue_def set_or_validate_priority_def split: if_splits)
    then show ?thesis using ok by (intro exI [of _ "waiting_queue s"] exI [of _ out0]) simp
  next
    case True
    then have r1: "rid r1 = rid r" "sc_enable_priority cfg \<longrightarrow> priority r1 \<noteq> None"
      using fields by (auto simp: set_or_validate_priority_def split: if_splits)
    obtain rej q out where q: "abort_on_queued_limit cfg (waiting_queue s) r1 = Inr (rej, q, out)"
      "queue_ok cfg (if rej then q else q @ [r1])"
      "mset (map rid (if rej then q else q @ [r1])) + mset (map aborted out) = mset (map rid (waiting_queue s)) + {#rid r1#}"
      using abort_on_queued_limit_spec [OF ok lim _ r1(2)] new r1(1) by metis
    let ?q = "if rej then q else q @ [r1\<lparr>wait_queue_entry_time := now r\<rparr>]"
    have "add_request_to_queue cfg now s r = Inr (s\<lparr>waiting_queue := ?q, outbox := outbox s @ out\<rparr>)"
      using fields True q(1) by (simp add: add_request_to_queue_def)
    moreover have "queue_ok cfg ?q" "map rid ?q = map rid (if rej then q else q @ [r1])"
      using q(2) by (auto simp: queue_ok_def split: option.splits if_splits)
    ultimately show ?thesis using q(3) r1(1) by (intro exI [of _ ?q] exI [of _ out]) simp
  qed
qed

lemma add_requests_spec:
  assumes "queue_ok cfg (waiting_queue s)" and lim: "max_queued_requests cfg \<noteq> Some 0"
    and "distinct (map rid (waiting_queue s @ rs))"
  shows "\<exists>q out. add_requests cfg now s rs = Inr (s\<lparr>waiting_queue := q, outbox := outbox s @ out\<rparr>) \<and> queue_ok cfg q \<and>
    mset (map rid q) + mset (map aborted out) = mset (map rid (waiting_queue s @ rs))"
  using assms(1,3)
proof (induction rs arbitrary: s)
  case Nil
  then show ?case by (intro exI [of _ "waiting_queue s"] exI [of _ "[]"]) simp
next
  case (Cons r rs)
  have "rid r \<notin> rid ` set (waiting_queue s)" using Cons.prems(2) by auto
  then obtain q out where q: "add_request_to_queue cfg now s r = Inr (s\<lparr>waiting_queue := q, outbox := outbox s @ out\<rparr>)"
    "queue_ok cfg q" "mset (map rid q) + mset (map aborted out) = mset (map rid (waiting_queue s)) + {#rid r#}"
    using add_request_spec [OF Cons.prems(1) lim] by blast
  let ?s = "s\<lparr>waiting_queue := q, outbox := outbox s @ out\<rparr>"
  have "mset (map rid (q @ rs)) \<subseteq># mset (map rid (waiting_queue s @ r # rs))"
    using arg_cong [OF q(3), of "\<lambda>A. A + mset (map rid rs)"] by (simp add: mset_subset_eq_exists_conv) (metis add.assoc add.commute)
  then have "distinct (map rid (q @ rs))" using Cons.prems(2) by (rule distinct_subset_mset)
  then obtain q' out' where q': "add_requests cfg now ?s rs = Inr (?s\<lparr>waiting_queue := q', outbox := outbox ?s @ out'\<rparr>)"
    "queue_ok cfg q'" "mset (map rid q') + mset (map aborted out') = mset (map rid (q @ rs))"
    using Cons.IH [of ?s] q(2) by auto
  have "mset (map rid q') + mset (map aborted (out @ out')) = (mset (map rid q') + mset (map aborted out')) + mset (map aborted out)"
    by (simp add: ac_simps)
  also have "\<dots> = (mset (map rid q) + mset (map aborted out)) + mset (map rid rs)" unfolding q'(3) by (simp add: ac_simps)
  also have "\<dots> = mset (map rid (waiting_queue s @ r # rs))" unfolding q(3) by simp
  finally have "mset (map rid q') + mset (map aborted (out @ out')) = mset (map rid (waiting_queue s @ r # rs))" .
  then show ?case using q(1) q' by (intro exI [of _ q'] exI [of _ "out @ out'"]) simp
qed

section \<open>Lemmas on admission\<close>

text \<open>
  \<open>waiting_ok\<close>: a request that can be served at all, with an output limit and an input that fits a row.
  \<open>admitted\<close>: what the prefill loop keeps. The admitted requests fit the rows, each holds a lock,
  and their new tokens are within the budget spent and within what is free or evictable.
\<close>

definition waiting_ok :: "nat \<Rightarrow> req \<Rightarrow> bool" where
  "waiting_ok w r \<longleftrightarrow> (\<exists>mx. max_new_tokens (sampling r) = Some mx \<and> 0 \<le> mx) \<and> seqlen r \<le> w"

definition admitted :: "nat \<Rightarrow> nat multiset \<Rightarrow> mem_state \<Rightarrow> prefill_adder \<Rightarrow> radix_cache \<Rightarrow> kv_alloc \<Rightarrow> bool" where
  "admitted w L m a c al \<longleftrightarrow> token_mem m c al (L + mset (map node_of (can_run_list a))) \<and> token_tree c \<and> plain_adder a \<and>
     preempt_list a = [] \<and> (\<forall>r \<in> set (can_run_list a). fits_row w r \<and> last_node r \<noteq> None) \<and>
     of_int (int (sum_list (map new_tokens (can_run_list a)))) \<le> rem_total_token_offset a \<and>
     int (sum_list (map new_tokens (can_run_list a))) \<le> mem_tokens c al"

lemma set_full_simps [simp]:
  "can_run_list (set_full f a) = can_run_list a" "preempt_list (set_full f a) = preempt_list a"
  "rem_total_token_offset (set_full f a) = rem_total_token_offset a" "plain_adder (set_full f a) = plain_adder a"
  "admitted w L m (set_full f a) c al = admitted w L m a c al"
  by (simp_all add: set_full_def plain_adder_def admitted_def)

lemma cut_rid: "cut r r' \<Longrightarrow> rid r' = rid r \<and> last_node r' = last_node r"
  by (auto simp: cut_def)

lemma cut_fits:
  assumes "cut r r'" and "fits_row w r" shows "fits_row w r'"
proof (cases "r' = r")
  case False
  then obtain t where t: "0 \<le> t" "t \<le> extend_input_len r"
    "r' = r\<lparr>extend_input_len := t, fill_ids := py_to (fill_ids r) (int (length (prefix_indices r)) + t)\<rparr>"
    using assms(1) by (auto simp: cut_def)
  obtain k where k: "t = int k" using t(1) nonneg_int_cases by blast
  have le: "length (prefix_indices r) + k \<le> length (fill_ids r)" using assms(2) t(2) k by (simp add: fits_row_def new_tokens_def)
  have "fill_ids r' = take (length (prefix_indices r) + k) (fill_ids r)"
    using py_to_nat [of "fill_ids r" "length (prefix_indices r) + k"] t(3) k by simp
  then show ?thesis using le t(3) k assms(2) by (simp add: fits_row_def new_tokens_def)
qed (use assms in simp)

lemma init_next_round_tree:
  assumes inv: "rc_inv c L" and t: "token_tree c" and "\<not> disable c"
  shows "\<exists>r' c' n. init_next_round_input cache_match (Some (RadixTree c)) r = Inr (r', Some (RadixTree c')) \<and>
    reshapes c c' \<and> rid r' = rid r \<and> last_node r' = Some n \<and> (n = root_node c' \<or> n \<in> live c') \<and> host_hit_length r' = 0 \<and>
    sampling r' = sampling r \<and> (seqlen r \<le> w \<longrightarrow> fits_row w r')"
proof -
  let ?r = "r\<lparr>fill_ids := origin_input_ids r @ Req.output_ids r\<rparr>"
  have wf: "rc_wf c" using inv by (simp add: rc_inv_def)
  obtain vs n c' where m: "match_prefix c (prefix_key ?r) = Inr (vs, n, c')" "reshapes c c'"
    "length vs \<le> length (cache_tokens c (prefix_key ?r))"
    "path c' (extra_key (prefix_key ?r)) (root_node c) n (take (length vs) (cache_tokens c (prefix_key ?r))) vs"
    using match_prefix_spec [OF wf, of "prefix_key ?r"] assms(3) by (auto simp: longest_match_def)
  have "cache_tokens c (prefix_key ?r) = map TInt (take (max_prefix_len ?r) (origin_input_ids r @ Req.output_ids r))"
    using t by (simp add: cache_tokens_def token_tree_def key_convert_fn_def prefix_key_def Let_def)
  then have len: "length vs \<le> seqlen r" using m(3) by (simp add: seqlen_def)
  have "root_node c' = root_node c" using reshapes_conf [OF m(2)] conf_eqD [of c' c] by simp
  then have "n = root_node c' \<or> n \<in> live c'" using path_reach [OF m(4)] by (auto simp: live_def)
  then show ?thesis
    using m(1,2) len by (auto simp: init_next_round_input_def fits_row_def new_tokens_def seqlen_def)
qed

lemma sum_list_snoc_nat: "int (sum_list (map f (xs @ [x]))) = int (sum_list (map f xs)) + int (f x)"
  by simp

text \<open>One admission attempt keeps what the loop needs.\<close>

lemma admit_step:
  assumes adm: "admitted w L m a c al" and r: "waiting_ok w r" and clip: "0 \<le> CLIP_MAX_NEW_TOKENS e"
    and align: "\<forall>x. align = Some x \<longrightarrow> 0 < x"
  shows "\<exists>r1 c1 st r2 a' c'. init_next_round_input cache_match (Some (tree_cache m)) r = Inr (r1, Some (RadixTree c1)) \<and>
    add_one_req e (m\<lparr>tree_cache := RadixTree c1\<rparr>) a r1 align = Inr (st, r2, a', m\<lparr>tree_cache := RadixTree c'\<rparr>) \<and>
    admitted w L (m\<lparr>tree_cache := RadixTree c'\<rparr>) a' c' al \<and> rid r2 = rid r \<and> same_run a a' \<and> tree_slots c' = tree_slots c \<and>
    (can_run_list a' = can_run_list a \<or> can_run_list a' = can_run_list a @ [r2])"
proof -
  let ?L = "L + mset (map node_of (can_run_list a))"
  have mem: "token_mem m c al ?L" and t: "token_tree c" and pl: "plain_adder a" using adm by (simp_all add: admitted_def)
  note d = token_memD [OF mem]
  obtain mx where mx: "max_new_tokens (sampling r) = Some mx" "0 \<le> mx" "seqlen r \<le> w" using r by (auto simp: waiting_ok_def)
  obtain r1 c1 n where i: "init_next_round_input cache_match (Some (RadixTree c)) r = Inr (r1, Some (RadixTree c1))" "reshapes c c1"
    "rid r1 = rid r" "last_node r1 = Some n" "n = root_node c1 \<or> n \<in> live c1" "host_hit_length r1 = 0" "sampling r1 = sampling r"
    "fits_row w r1" using init_next_round_tree [OF d(3) t d(4), of r w] mx(3) by blast
  let ?m1 = "m\<lparr>tree_cache := RadixTree c1\<rparr>"
  have c1: "rc_inv c1 ?L" "tree_slots c1 = tree_slots c" "conf c1 = conf c" "evictable_size c1 = evictable_size c"
    using reshapes_inv [OF i(2) d(3)] reshapes_conf [OF i(2)] by (simp_all add: sizes_def)
  have mem1: "token_mem ?m1 c1 al ?L" using token_mem_upd [OF mem c1(1)] conf_eqD [OF c1(3)] d(4) by simp
  have "max_new_tokens (sampling r1) = Some mx" "0 \<le> extend_input_len r1" using i(7,8) mx(1) by (simp_all add: fits_row_def)
  then obtain st r2 a' c' L' where o: "add_one_req e ?m1 a r1 align = Inr (st, r2, a', ?m1\<lparr>tree_cache := RadixTree c'\<rparr>)"
    "touched_locks c1 c'" "token_mem (?m1\<lparr>tree_cache := RadixTree c'\<rparr>) c' al L'" "attempt a a' r1 r2 c1 c' al n ?L L'"
    using add_one_req_spec [OF mem1 pl i(4,5,6) _ mx(2) clip _ align] by blast
  have tt: "token_tree c'" "tree_slots c' = tree_slots c1"
    using token_tree_conf [OF touched_locksD(3) [OF o(2)]] token_tree_conf [OF c1(3)] t touched_locksD(2) [OF o(2)] by simp_all
  have mt: "mem_tokens c1 al = mem_tokens c al" using c1(4) by (simp add: mem_tokens_def)
  consider (keep) "L' = ?L" "a' = a" "r2 = r1" "evictable_size c' = evictable_size c1"
    | (add) "L' = add_mset n ?L" "can_run_list a' = can_run_list a @ [r2]" "0 \<le> extend_input_len r2" "cut r1 r2"
      "rem_total_token_offset a + of_int (extend_input_len r2) \<le> rem_total_token_offset a'"
      "rem_total_token_offset a + of_int (extend_input_len r2) < of_int (mem_tokens c' al)"
    using o(4) by (auto simp: attempt_def)
  then have "admitted w L (m\<lparr>tree_cache := RadixTree c'\<rparr>) a' c' al \<and> rid r2 = rid r \<and>
    (can_run_list a' = can_run_list a \<or> can_run_list a' = can_run_list a @ [r2])"
  proof cases
    case keep
    then show ?thesis using adm o(3) tt(1) mt i(3) by (simp add: admitted_def mem_tokens_def)
  next
    case add
    note c = cut_rid [OF add(4)] cut_fits [OF add(4) i(8)]
    have nt: "int (new_tokens r2) = extend_input_len r2" using c(2) by (simp add: fits_row_def)
    let ?S = "sum_list (map new_tokens (can_run_list a))"
    have S: "of_int (int ?S) \<le> rem_total_token_offset a" using adm by (simp add: admitted_def)
    have "(of_int (int ?S + extend_input_len r2) :: rat) < of_int (mem_tokens c' al)" using S add(6) by simp
    then have "int ?S + extend_input_len r2 < mem_tokens c' al" by (simp only: of_int_less_iff)
    moreover have "of_int (int ?S + extend_input_len r2) \<le> rem_total_token_offset a'" using S add(5) by simp
    ultimately have "of_int (int (sum_list (map new_tokens (can_run_list a')))) \<le> rem_total_token_offset a'"
      "int (sum_list (map new_tokens (can_run_list a'))) \<le> mem_tokens c' al"
      unfolding add(2) sum_list_snoc_nat nt by simp_all
    moreover have "plain_adder a'" "same_run a a'" using o(4) by (simp_all add: attempt_def)
    moreover have "L' = L + mset (map node_of (can_run_list a'))" using add(1,2) c(1) i(4) by simp
    ultimately show ?thesis
      using adm o(3) tt(1) c i(3,4) add(2) by (auto simp: admitted_def same_run_def)
  qed
  moreover have "same_run a a'" using o(4) by (simp add: attempt_def)
  ultimately show ?thesis using i(1) o(1) d(1) tt(2) c1(2) by (intro exI [of _ r1] exI [of _ c1] exI [of _ st] exI [of _ r2] exI [of _ a'] exI [of _ c']) simp
qed

text \<open>\<open>row_limit\<close>: at most as many requests run as the micro batch allows.\<close>

abbreviation row_limit :: "sched_cfg \<Rightarrow> mem_state \<Rightarrow> schedule_batch \<Rightarrow> prefill_adder \<Rightarrow> bool" where
  "row_limit cfg m b a \<equiv> can_run_list a = [] \<or> int (length (can_run_list a)) \<le> get_num_allocatable_reqs cfg m (int (length (reqs b)))"

lemma allocatable_tree [simp]: "get_num_allocatable_reqs cfg (m\<lparr>tree_cache := t\<rparr>) n = get_num_allocatable_reqs cfg m n"
  by (simp add: get_num_allocatable_reqs_def Let_def)

lemma prefill_loop_spec:
  assumes cfg: "\<not> sc_enable_priority cfg" "0 \<le> CLIP_MAX_NEW_TOKENS (sc_env cfg)" "\<forall>x. truncation_align_size cfg = Some x \<longrightarrow> 0 < x"
    and "admitted w L m a c al" and "running_batch a = Some b" and "row_limit cfg m b a" and "\<forall>r \<in> set q. waiting_ok w r"
  shows "\<exists>q' a' c' added full. prefill_loop cfg q m a = Inr (q', m\<lparr>tree_cache := RadixTree c'\<rparr>, a') \<and>
    admitted w L (m\<lparr>tree_cache := RadixTree c'\<rparr>) a' c' al \<and> map rid q' = map rid q \<and> tree_slots c' = tree_slots c \<and>
    running_batch a' = Some (b\<lparr>batch_is_full := full\<rparr>) \<and> row_limit cfg m b a' \<and>
    can_run_list a' = can_run_list a @ added \<and> mset (map rid added) \<subseteq># mset (map rid q)"
  using assms(4-7)
proof (induction q arbitrary: m a c b)
  case Nil
  have "m\<lparr>tree_cache := RadixTree c\<rparr> = m" using Nil.prems(1) by (simp add: admitted_def token_mem_def)
  moreover have "b\<lparr>batch_is_full := batch_is_full b\<rparr> = b" by simp
  ultimately show ?case using Nil.prems by (intro exI [of _ "[]"] exI [of _ a] exI [of _ c] exI [of _ "batch_is_full b"]) simp
next
  case (Cons r rs)
  have pl: "preempt_list a = []" and mc: "m\<lparr>tree_cache := RadixTree c\<rparr> = m"
    using Cons.prems(1) by (simp_all add: admitted_def token_mem_def)
  let ?full = "batch_is_full b \<or> get_num_allocatable_reqs cfg m (int (length (reqs b))) \<le> int (length (can_run_list a))"
  let ?a = "set_full ?full a" and ?b = "b\<lparr>batch_is_full := ?full\<rparr>"
  have b: "running_batch ?a = Some ?b" using Cons.prems(2) by (simp add: set_full_def)
  show ?case
  proof (cases ?full)
    case True
    then have "prefill_loop cfg (r # rs) m a = Inr (r # rs, m, ?a)" using Cons.prems(2) cfg(1) pl by (auto simp: Let_def)
    then show ?thesis using Cons.prems b mc
      by (intro exI [of _ "r # rs"] exI [of _ ?a] exI [of _ c] exI [of _ "[]"] exI [of _ ?full]) simp
  next
    case False
    have adm: "admitted w L m ?a c al" using Cons.prems(1) by simp
    have wo: "waiting_ok w r" using Cons.prems(4) by simp
    obtain r1 c1 st r2 a' c' where o: "init_next_round_input cache_match (Some (tree_cache m)) r = Inr (r1, Some (RadixTree c1))"
      "add_one_req (sc_env cfg) (m\<lparr>tree_cache := RadixTree c1\<rparr>) ?a r1 (truncation_align_size cfg)
        = Inr (st, r2, a', m\<lparr>tree_cache := RadixTree c'\<rparr>)"
      "admitted w L (m\<lparr>tree_cache := RadixTree c'\<rparr>) a' c' al" "rid r2 = rid r" "same_run ?a a'" "tree_slots c' = tree_slots c"
      "can_run_list a' = can_run_list a \<or> can_run_list a' = can_run_list a @ [r2]"
      using admit_step [OF adm wo cfg(2,3)] by auto
    have b': "running_batch a' = Some ?b" using o(5) b by (simp add: same_run_def)
    have lim: "row_limit cfg m b a'" using o(7) False by auto
    obtain x where x: "can_run_list a' = can_run_list a @ x" "mset (map rid x) \<subseteq># {#rid r#}"
    proof (cases "can_run_list a' = can_run_list a")
      case True
      then show ?thesis using that [of "[]"] by simp
    next
      case False
      then show ?thesis using that [of "[r2]"] o(4,7) by simp
    qed
    have loop: "prefill_loop cfg (r # rs) m a = (if st = CONTINUE
        then bind_r (prefill_loop cfg rs (m\<lparr>tree_cache := RadixTree c'\<rparr>) a') (\<lambda>(rs', m3, a4). Inr (r2 # rs', m3, a4))
        else Inr (r2 # rs, m\<lparr>tree_cache := RadixTree c'\<rparr>, if st = NO_TOKEN then set_full True a' else a'))"
      using Cons.prems(2) pl False o(1,2) by (simp add: Let_def)
    show ?thesis
    proof (cases "st = CONTINUE")
      case True
      have lim2: "row_limit cfg (m\<lparr>tree_cache := RadixTree c'\<rparr>) ?b a'" using lim by simp
      have wrs: "\<forall>r \<in> set rs. waiting_ok w r" using Cons.prems(4) by simp
      have "\<exists>q' a2 c2 added f. prefill_loop cfg rs (m\<lparr>tree_cache := RadixTree c'\<rparr>) a' = Inr (q', m\<lparr>tree_cache := RadixTree c2\<rparr>, a2) \<and>
        admitted w L (m\<lparr>tree_cache := RadixTree c2\<rparr>) a2 c2 al \<and> map rid q' = map rid rs \<and> tree_slots c2 = tree_slots c' \<and>
        running_batch a2 = Some (b\<lparr>batch_is_full := f\<rparr>) \<and> row_limit cfg m b a2 \<and>
        can_run_list a2 = can_run_list a' @ added \<and> mset (map rid added) \<subseteq># mset (map rid rs)"
        using Cons.IH [OF o(3) b' lim2 wrs] by simp
      then obtain q' a2 c2 added f where IH: "prefill_loop cfg rs (m\<lparr>tree_cache := RadixTree c'\<rparr>) a' = Inr (q', m\<lparr>tree_cache := RadixTree c2\<rparr>, a2)"
        "admitted w L (m\<lparr>tree_cache := RadixTree c2\<rparr>) a2 c2 al" "map rid q' = map rid rs" "tree_slots c2 = tree_slots c'"
        "running_batch a2 = Some (b\<lparr>batch_is_full := f\<rparr>)" "row_limit cfg m b a2"
        "can_run_list a2 = can_run_list a' @ added" "mset (map rid added) \<subseteq># mset (map rid rs)" by blast
      have "mset (map rid (x @ added)) \<subseteq># mset (map rid (r # rs))"
        using subset_mset.add_mono [OF x(2) IH(8)] by simp
      then show ?thesis using loop True IH o(4,6) x(1)
        by (intro exI [of _ "r2 # q'"] exI [of _ a2] exI [of _ c2] exI [of _ "x @ added"] exI [of _ f]) simp
    next
      case stop: False
      let ?a2 = "if st = NO_TOKEN then set_full True a' else a'"
      have "mset (map rid x) \<subseteq># mset (map rid (r # rs))" using subset_mset.add_mono [OF x(2), of "{#}" "mset (map rid rs)"] by simp
      moreover have "running_batch ?a2 = Some (b\<lparr>batch_is_full := ?full \<or> st = NO_TOKEN\<rparr>)" using b' False by (simp add: set_full_def)
      ultimately show ?thesis using loop stop o(3,4,6) x(1) lim
        by (intro exI [of _ "r2 # rs"] exI [of _ ?a2] exI [of _ c'] exI [of _ x] exI [of _ "?full \<or> st = NO_TOKEN"]) simp
    qed
  qed
qed

lemma extend_reqs_keeps:
  "extend_reqs po rs is ss ps = Inr rs' \<Longrightarrow> length rs' = length rs \<Longrightarrow> map rid rs' = map rid rs \<and> map last_node rs' = map last_node rs"
  by (induction po rs "is" ss ps arbitrary: rs' rule: extend_reqs.induct)
    (auto simp: bind_r_eq_Inr extend_req_def assert_r_eq_Inr)

lemma prepare_for_extend_keeps:
  assumes "tree_cache m = RadixTree c" and p: "prepare_for_extend cfg m b = Inr (b', m')" and "length (reqs b') = length (reqs b)"
  shows "map rid (reqs b') = map rid (reqs b) \<and> map last_node (reqs b') = map last_node (reqs b)"
proof -
  let ?pres = "map (\<lambda>r. length (prefix_indices r)) (reqs b)"
  obtain loc idx rs1 m1 rs2 where a: "alloc_for_extend (support_triton cfg) (kernels cfg) (attention_chunk_size cfg) m (reqs b) ?pres
      (map nat (map extend_input_len (reqs b))) (map (\<lambda>r. length (fill_ids r)) (reqs b))
      (sum_list (map length (map (\<lambda>r. drop (length (prefix_indices r)) (fill_ids r)) (reqs b)))) = Inr (loc, idx, rs1, m1)"
    "extend_reqs (batch_is_prefill_only b) rs1 idx (map (\<lambda>r. length (fill_ids r)) (reqs b)) ?pres = Inr rs2" "reqs b' = rs2"
    using p by (auto simp: prepare_for_extend_def Let_def bind_r_eq_Inr)
  have "rs1 = reqs b" using a(1) assms(1) by (auto simp: alloc_for_extend_def drop_window_def bind_r_eq_Inr Let_def)
  then show ?thesis using extend_reqs_keeps [OF a(2)] a(3) assms(3) by simp
qed

lemma map_chunked_simps:
  assumes "run1 = map (\<lambda>r. if C r then r\<lparr>is_chunked := is_chunked r + 1\<rparr> else r) run"
  shows "map rid run1 = map rid run" "map last_node run1 = map last_node run" "map new_tokens run1 = map new_tokens run"
    "length run1 = length run" "(\<forall>r \<in> set run. fits_row w r) \<Longrightarrow> \<forall>r \<in> set run1. fits_row w r"
  unfolding assms by (auto simp: new_tokens_def fits_row_def)

text \<open>What was admitted can be allocated.\<close>

lemma launch_prefill_spec:
  assumes adm: "admitted w L (sc_mem s) a c al" and pool: "pool_ready (req_to_token_pool (sc_mem s)) w" and run: "can_run_list a \<noteq> []"
    and rows: "length (can_run_list a) \<le> length (free_slots (req_to_token_pool (sc_mem s)))"
    and "chunked_req s = None" and "\<not> is_mixed_chunk cfg"
  shows "\<exists>b ch m' c' al' out. launch_prefill cfg now s a = Inr (Some b,
      s\<lparr>waiting_queue := filter (\<lambda>x. rid x \<notin> set (map rid (can_run_list a))) (waiting_queue s), chunked_req := ch, sc_mem := m'\<rparr>) \<and>
    map rid (reqs b) = map rid (can_run_list a) \<and> token_mem m' c' al' (L + mset (map node_of (reqs b))) \<and>
    out_cache_loc b = Some out \<and> mset out + token_slots al' + tree_slots c' = token_slots al + tree_slots c \<and>
    map req_pool_idx (reqs b) = map Some (take (length (reqs b)) (free_slots (req_to_token_pool (sc_mem s))))"
proof -
  let ?m = "sc_mem s" and ?run = "can_run_list a" and ?ch = "new_chunked_req a"
  define run1 where "run1 = map (\<lambda>r. if ?ch \<noteq> None \<and> rid r = rid (the ?ch) then r\<lparr>is_chunked := is_chunked r + 1\<rparr> else r) ?run"
  note r1 = map_chunked_simps [OF run1_def]
  have mem: "token_mem ?m c al (L + mset (map node_of ?run))" and t: "token_tree c" and pl: "preempt_list a = []"
    and fit: "\<forall>r \<in> set ?run. fits_row w r" and room: "int (sum_list (map new_tokens ?run)) \<le> mem_tokens c al"
    using adm by (simp_all add: admitted_def)
  note d = token_memD [OF mem]
  obtain b where b: "init_new (sc_server cfg) ?m run1 (sc_enable_overlap cfg) (sync_req run1 ?ch) = Inr b" "reqs b = run1"
    using d(2) by (simp add: init_new_def is_swa_alloc_def)
  have "reqs b \<noteq> []" "\<forall>r \<in> set (reqs b). fits_row w r" "length (reqs b) \<le> length (free_slots (req_to_token_pool ?m))"
    "int (sum_list (map new_tokens (reqs b))) \<le> mem_tokens c al"
    using b(2) r1(3,4) r1(5) [OF fit] run rows room by auto
  then obtain b' m' out c' al' where e: "prepare_for_extend (sc_server cfg) ?m b = Inr (b', m')" "out_cache_loc b' = Some out"
    "token_mem m' c' al' (L + mset (map node_of ?run))" "mset out + token_slots al' + tree_slots c' = token_slots al + tree_slots c"
    "length (reqs b') = length (reqs b)"
    "\<forall>i < length (reqs b). req_pool_idx (reqs b' ! i) = Some (free_slots (req_to_token_pool ?m) ! i)"
    using prepare_for_extend_spec [OF mem t pool, of b "sc_server cfg"] by blast
  have k: "map rid (reqs b') = map rid ?run" "map last_node (reqs b') = map last_node ?run"
    using prepare_for_extend_keeps [OF d(1) e(1,5)] b(2) r1(1,2) by simp_all
  have nodes: "map node_of (reqs b') = map node_of ?run" using arg_cong [OF k(2), of "map the"] by (simp add: comp_def)
  have idx: "map req_pool_idx (reqs b') = map Some (take (length (reqs b')) (free_slots (req_to_token_pool ?m)))"
    using e(5,6) rows b(2) r1(4) by (intro nth_equalityI) auto
  let ?b = "b'\<lparr>batch_chunked_req := sync_req (reqs b') ?ch, decoding_reqs := None\<rparr>"
  have "launch_prefill cfg now s a = Inr (Some ?b,
      s\<lparr>waiting_queue := filter (\<lambda>x. rid x \<notin> set (map rid ?run)) (waiting_queue s), chunked_req := sync_req (reqs b') ?ch, sc_mem := m'\<rparr>)"
    using pl assms(5,6) b(1) [unfolded run1_def] e(1) by (cases ?ch) (simp_all add: launch_prefill_def mix_running_def Let_def)
  then show ?thesis using k(1) nodes idx e(2-4)
    by (intro exI [of _ ?b] exI [of _ "sync_req (reqs b') ?ch"] exI [of _ m'] exI [of _ c'] exI [of _ al'] exI [of _ out]) simp
qed

section \<open>Lemmas on decoding\<close>

lemma write_points_ok:
  assumes "length cs = length rs" and "length vs = length rs" and "\<forall>row \<in> set (req_to_token p). length row = w"
    and "\<forall>r \<in> set rs. row_ok p r" and "\<forall>x \<in> set cs. x < w"
  shows "\<exists>p'. write_points p rs (map int cs) vs = Inr p'"
  using assms
proof (induction rs arbitrary: cs vs p)
  case (Cons r rs)
  then obtain x cs' v vs' where x: "cs = x # cs'" "vs = v # vs'" by (cases cs; cases vs) auto
  let ?p = "p\<lparr>req_to_token := (req_to_token p)[nat r := (req_to_token p ! nat r)[nat (int x) := to_int32 v]]\<rparr>"
  have r: "row_ok p r" "length (req_to_token p ! nat r) = w" using Cons.prems(3,4) by (auto simp: row_ok_def)
  have "\<forall>row \<in> set (req_to_token ?p). length row = w"
    using rows_update_length [OF Cons.prems(3), of "(req_to_token p ! nat r)[x := to_int32 v]" "nat r"] r(2) by simp
  moreover have "\<forall>r \<in> set rs. row_ok ?p r" using Cons.prems(4) by (simp add: row_ok_def)
  ultimately obtain p' where "write_points ?p rs (map int cs') vs' = Inr p'" using Cons.IH [of cs' vs' ?p] Cons.prems(1,2,5) x by auto
  then show ?case using x r row_okD [OF r(1)] Cons.prems(5) by auto
qed simp

text \<open>\<open>decodable\<close>: the rows of a batch have room for one more token.\<close>

definition decodable :: "req_pool \<Rightarrow> nat \<Rightarrow> schedule_batch \<Rightarrow> bool" where
  "decodable p w b \<longleftrightarrow> batch_rows b \<and> \<not> is_hybrid b \<and> (\<forall>row \<in> set (req_to_token p). length row = w) \<and> (\<forall>n \<in> set (seq_lens b). n < w)"

lemma prepare_for_decode_token:
  assumes mem: "token_mem m c al L" and t: "token_tree c" and cfg: "plain_cfg cfg" and b: "decodable (req_to_token_pool m) w b" "reqs b \<noteq> []"
    and h: "\<forall>r \<in> set (reqs b). holding (req_to_token_pool m) r" and room: "int (length (reqs b)) \<le> mem_tokens c al"
  shows "\<exists>b' m' c' al' out. prepare_for_decode cfg m b = Inr (b', m') \<and> out_cache_loc b' = Some out \<and> length out = length (reqs b) \<and>
    token_mem m' c' al' L \<and> mset out + token_slots al' + tree_slots c' = token_slots al + tree_slots c \<and>
    forward_mode b' = Some DECODE \<and> map rid (reqs b') = map rid (reqs b) \<and> map last_node (reqs b') = map last_node (reqs b)"
proof -
  note d = token_memD [OF mem]
  have rows: "batch_rows b" using b(1) by (simp add: decodable_def)
  note br = batch_rowsD [OF rows b(2)]
  have "if int (length (reqs b)) \<le> mem_tokens c al
    then \<exists>out st c' s'. alloc_token_slots m (length (reqs b)) False = Inr (out, st, m\<lparr>tree_cache := RadixTree c', kv_allocator := TokenAlloc s'\<rparr>) \<and>
      token_mem (m\<lparr>tree_cache := RadixTree c', kv_allocator := TokenAlloc s'\<rparr>) c' s' L \<and> conf c' = conf c \<and>
      length out = length (reqs b) \<and> mset out + token_slots s' + tree_slots c' = token_slots al + tree_slots c
    else alloc_token_slots m (length (reqs b)) False = Inl RuntimeError" by (rule alloc_token_slots_spec [OF mem])
  then obtain out st c' al' where a: "alloc_token_slots m (length (reqs b)) False = Inr (out, st, m\<lparr>tree_cache := RadixTree c', kv_allocator := TokenAlloc al'\<rparr>)"
    "token_mem (m\<lparr>tree_cache := RadixTree c', kv_allocator := TokenAlloc al'\<rparr>) c' al' L" "length out = length (reqs b)"
    "mset out + token_slots al' + tree_slots c' = token_slots al + tree_slots c" using room by auto
  have ok: "\<forall>i \<in> set (req_pool_indices b). row_ok (req_to_token_pool m) i"
  proof
    fix i assume "i \<in> set (req_pool_indices b)"
    then obtain j where j: "j < length (reqs b)" "i = req_pool_indices b ! j" using br(1) by (metis in_set_conv_nth)
    have "holding (req_to_token_pool m) (reqs b ! j)" using h j(1) by simp
    then show "row_ok (req_to_token_pool m) i" using br(5) [OF j(1)] j(2) by (auto simp: holding_def)
  qed
  obtain p where p: "write_points (req_to_token_pool m) (req_pool_indices b) (map int (seq_lens b)) out = Inr p"
    using write_points_ok [OF _ _ _ ok, of "seq_lens b" out w] b(1) br(1,2) a(3) by (auto simp: decodable_def)
  let ?m = "m\<lparr>tree_cache := RadixTree c', kv_allocator := TokenAlloc al', req_to_token_pool := p\<rparr>"
  have "alloc_for_decode (kernels cfg) (attention_chunk_size cfg) m (reqs b) (req_pool_indices b) (seq_lens b) None 1 = Inr (out, reqs b, ?m)"
    using d(1) t a(1) p br(2) by (simp add: alloc_for_decode_def drop_window_def token_tree_def comp_def)
  moreover have "token_mem ?m c' al' L" using a(2) by (simp add: token_mem_def)
  ultimately show ?thesis using cfg a(3,4) by (auto simp: prepare_for_decode_def plain_cfg_def comp_def)
qed

lemma decodable_sub:
  "decodable p w b \<Longrightarrow> batch_rows b' \<Longrightarrow> is_hybrid b' = is_hybrid b \<Longrightarrow> set (seq_lens b') \<subseteq> set (seq_lens b) \<Longrightarrow>
   req_to_token p' = req_to_token p \<Longrightarrow> decodable p' w b'"
  by (auto simp: decodable_def)

lemma holding_rows: "req_to_token p' = req_to_token p \<Longrightarrow> holding p' r = holding p r"
  by (simp add: holding_def row_ok_def row_of_def)

text \<open>Retraction with a free slot at hand, the case of a single request included.\<close>

lemma retract_any:
  assumes mem: "token_mem m c s (mset (map node_of (reqs b)) + L)" and t: "token_tree c" and cfg: "plain_cfg cfg"
    and d: "decodable (req_to_token_pool m) w b" "reqs b \<noteq> []"
    and h: "\<And>r. r \<in> set (reqs b) \<Longrightarrow> holding (req_to_token_pool m) r \<and> max_new_tokens (sampling r) \<noteq> None"
    and room: "length (reqs b) = 1 \<longrightarrow> 0 < token_available_size s"
  shows "\<exists>ret ratio b' m' c' s'. retract_decode cfg m b = Inr (ret, ratio, b', m') \<and> reqs b' \<noteq> [] \<and>
    mset (map rid ret) + mset (map rid (reqs b')) = mset (map rid (reqs b)) \<and> set (reqs b') \<subseteq> set (reqs b) \<and>
    token_mem m' c' s' (mset (map node_of (reqs b')) + L) \<and> token_tree c' \<and> length (reqs b') \<le> token_available_size s' \<and>
    decodable (req_to_token_pool m') w b' \<and> (\<forall>r \<in> set (reqs b'). holding (req_to_token_pool m') r)"
proof (cases "length (reqs b) = 1")
  case True
  then obtain r where r: "reqs b = [r]" by (cases "reqs b") auto
  have "allocator_available_size (kv_allocator m) = Inr (token_available_size s)" using token_memD(2) [OF mem] by simp
  then have "retract_loop cfg m b True [0] [] = Inr ([0], [], b, m)"
    using room True d(1) by (subst retract_loop.simps) (simp add: room_for_one_def decodable_def)
  moreover have "retract_order cfg b = [0]" using r by (simp add: retract_order_def Let_def)
  moreover obtain q where "new_estimate_ratio (RETRACT_DECODE_STEPS cfg) (reqs b) = Inr q" using new_estimate_ratio_le [of "reqs b"] h by blast
  ultimately have "retract_decode cfg m b = Inr ([], q, b, m)"
    using r by (simp add: retract_decode_def filter_batch_def keep_indices_of_def)
  then show ?thesis using mem t d h room True by (intro exI [of _ "[]"] exI [of _ q] exI [of _ b] exI [of _ m] exI [of _ c] exI [of _ s]) simp
next
  case False
  then have two: "2 \<le> length (reqs b)" using d(2) by (cases "reqs b") (auto simp: Suc_le_eq)
  have bh: "\<not> is_hybrid b" "batch_rows b" using d(1) by (simp_all add: decodable_def)
  obtain ret ratio b' m' c' s' where o: "retract_decode cfg m b = Inr (ret, ratio, b', m')" "reqs b' \<noteq> []"
    "mset (map rid ret) + mset (map rid (reqs b')) = mset (map rid (reqs b))" "set (reqs b') \<subseteq> set (reqs b)"
    "token_mem m' c' s' (mset (map node_of (reqs b')) + L)" "length (reqs b') \<le> token_available_size s'" "batch_rows b'" "token_tree c'"
    "set (seq_lens b') \<subseteq> set (seq_lens b)" "req_to_token (req_to_token_pool m') = req_to_token (req_to_token_pool m)" "is_hybrid b' = is_hybrid b"
    using retract_decode_spec [OF mem t cfg bh two h] by blast
  have "decodable (req_to_token_pool m') w b'" by (rule decodable_sub [OF d(1) o(7,11,9,10)])
  moreover have "\<forall>r \<in> set (reqs b'). holding (req_to_token_pool m') r" using h o(4) holding_rows [OF o(10)] by auto
  ultimately show ?thesis using o by blast
qed

text \<open>
  The state in which \<^verbatim>\<open>update_running_batch\<close> is called, with the locks \<open>L\<close> that others hold: the
  unfinished requests hold their memory, no id is also in the queue, and a single request has room.
\<close>

abbreviation unfinished :: "schedule_batch \<Rightarrow> req list" where
  "unfinished b \<equiv> filter (\<lambda>r. \<not> finished r) (reqs b)"

definition decode_ready :: "sched_cfg \<Rightarrow> scheduler \<Rightarrow> schedule_batch \<Rightarrow> nat \<Rightarrow> radix_cache \<Rightarrow> kv_alloc \<Rightarrow> nat multiset \<Rightarrow> bool" where
  "decode_ready cfg s b w c al L \<longleftrightarrow> token_mem (sc_mem s) c al (mset (map node_of (unfinished b)) + L) \<and> token_tree c \<and>
     plain_cfg (sc_server cfg) \<and> decodable (req_to_token_pool (sc_mem s)) w b \<and>
     (\<forall>r \<in> set (unfinished b). holding (req_to_token_pool (sc_mem s)) r \<and> max_new_tokens (sampling r) \<noteq> None) \<and>
     queue_ok cfg (waiting_queue s) \<and> max_queued_requests cfg \<noteq> Some 0 \<and> distinct (map rid (waiting_queue s @ unfinished b)) \<and>
     1 \<le> decode_mem_cache_buf_multiplier cfg \<and> (length (unfinished b) = 1 \<longrightarrow> 0 < mem_tokens c al) \<and> \<not> TEST_RETRACT cfg"

definition stepped :: "sched_cfg \<Rightarrow> scheduler \<Rightarrow> schedule_batch \<Rightarrow> nat multiset \<Rightarrow> schedule_batch \<Rightarrow> scheduler \<Rightarrow> bool" where
  "stepped cfg s b L b' s' \<longleftrightarrow> (\<exists>out' c' al'. outbox s' = outbox s @ out' \<and>
     mset (map rid (reqs b')) + mset (map rid (waiting_queue s')) + mset (map aborted out')
       = mset (map rid (unfinished b)) + mset (map rid (waiting_queue s)) \<and>
     queue_ok cfg (waiting_queue s') \<and> token_mem (sc_mem s') c' al' (mset (map node_of (reqs b')) + L) \<and>
     (unfinished b \<noteq> [] \<longrightarrow> reqs b' \<noteq> [] \<and> forward_mode b' = Some DECODE \<and>
        (\<exists>out. out_cache_loc b' = Some out \<and> length out = length (reqs b'))))"

section \<open>An example\<close>

definition demo_sched_cfg :: sched_cfg where
  "demo_sched_cfg = \<lparr>sc_server = demo_cfg, sc_env = default_env, sc_page_size = 1, max_queued_requests = Some 1,
     sc_enable_priority = False, sc_low_first = False, abort_on_priority_when_disabled = False, pp_max_micro_batch_size = 2,
     pp_size = 1, is_mixed_chunk = False, chunked_prefill_size = None, max_prefill_tokens = 100, truncation_align_size = None,
     sc_enable_overlap = False, sc_preemption_threshold = 10, decode_mem_cache_buf_multiplier = 1, min_new_token_ratio = 1 / 10,
     new_token_ratio_decay = 1 / 100, max_total_num_tokens = 4,
     tokens_per_layer = None, init_new_token_ratio = 7 / 10, TEST_RETRACT = False, TEST_RETRACT_INTERVAL = 3, TEST_RETRACT_NO_PREFILL_BS = 8\<rparr>"

definition demo_scheduler :: "schedule_policy \<Rightarrow> schedule_batch \<Rightarrow> mem_state \<Rightarrow> scheduler" where
  "demo_scheduler sp b m = \<lparr>waiting_queue = [demo_req\<lparr>Req.output_ids := []\<rparr>], sc_policy = sp, sc_running_batch = b, last_batch = None,
     cur_batch = None, chunked_req = None, sc_new_token_ratio = 7 / 10, sc_mem = m, num_retracted_reqs = 0, forward_ct = 0, outbox = []\<rparr>"

lemma demo_policy:
  assumes "rc_inv c {#}"
  obtains sp where "schedule_policy_init ''lof'' (RadixTree c) False False False (\<lambda>n. int n) (\<lambda>_. 0) = Inr sp"
    "policy_ok sp (RadixTree c) {#}" "\<not> enable_priority_scheduling sp"
proof -
  have "parse_policy ''lru'' = Inr LRUStrategy" by code_simp
  then obtain sp where sp: "schedule_policy_init ''lof'' (RadixTree c) False False False (\<lambda>n. int n) (\<lambda>_. 0) = Inr sp"
    "\<not> enable_priority_scheduling sp"
    by (simp add: schedule_policy_init_def validate_and_adjust_policy_def radix_init_def)
  moreover have "policy_ok sp (RadixTree c) {#}" by (rule policy_ok_init [OF sp(1)]) (use assms in auto)
  ultimately show thesis by (intro that)
qed

section \<open>Properties\<close>

text \<open>
  (C25) The waiting queue is bounded and nothing is lost in it: with a limit other than 0, adding any sequence of
  requests with new ids to a queue within its limit never fails, leaves the queue within its limit, and
  every request is afterwards either in the queue or was reported aborted, exactly once.
\<close>

theorem queue_limit_accounted:
  assumes "queue_ok cfg (waiting_queue s)" and "max_queued_requests cfg \<noteq> Some 0" and "distinct (map rid (waiting_queue s @ rs))"
  shows "\<exists>q out. add_requests cfg now s rs = Inr (s\<lparr>waiting_queue := q, outbox := outbox s @ out\<rparr>) \<and> queue_ok cfg q \<and>
    mset (map rid q) + mset (map aborted out) = mset (map rid (waiting_queue s @ rs))"
  by (rule add_requests_spec [OF assms])

theorem queue_limit_accounted_witness:
  "\<forall>sp b m. \<exists>q out. add_requests demo_sched_cfg (\<lambda>_. 0) (demo_scheduler sp b m) [demo_req\<lparr>rid := ''b''\<rparr>] =
     Inr ((demo_scheduler sp b m)\<lparr>waiting_queue := q, outbox := out\<rparr>) \<and> mset (map rid q) + mset (map aborted out) = {#''r'', ''b''#}"
proof (intro allI)
  fix sp b m
  have "queue_ok demo_sched_cfg (waiting_queue (demo_scheduler sp b m))" "max_queued_requests demo_sched_cfg \<noteq> Some 0"
    "distinct (map rid (waiting_queue (demo_scheduler sp b m) @ [demo_req\<lparr>rid := ''b''\<rparr>]))"
    by (simp_all add: queue_ok_def demo_sched_cfg_def demo_scheduler_def demo_req_simps)
  note * = queue_limit_accounted [OF this, of "\<lambda>_. 0"]
  have "outbox (demo_scheduler sp b m) = []" "mset (map rid (waiting_queue (demo_scheduler sp b m) @ [demo_req\<lparr>rid := ''b''\<rparr>])) = {#''r'', ''b''#}"
    by (simp_all add: demo_scheduler_def demo_req_simps)
  show "\<exists>q out. add_requests demo_sched_cfg (\<lambda>_. 0) (demo_scheduler sp b m) [demo_req\<lparr>rid := ''b''\<rparr>] =
     Inr ((demo_scheduler sp b m)\<lparr>waiting_queue := q, outbox := out\<rparr>) \<and> mset (map rid q) + mset (map aborted out) = {#''r'', ''b''#}"
    using * by (simp only: \<open>outbox _ = []\<close> \<open>mset (map rid (_ @ _)) = _\<close> append_Nil) blast
qed

text \<open>
  The state in which \<^verbatim>\<open>get_new_batch_prefill\<close> is called on a server with a radix tree over a token allocator, one
  token per page: locks \<open>L\<close> of the running requests, rows of width \<open>w\<close>, no unfinished chunked request, and
  rows enough for the micro batch. \<open>plain_sched\<close> has no preemption and no mixed batches.
\<close>

definition plain_sched :: "sched_cfg \<Rightarrow> bool" where
  "plain_sched cfg \<longleftrightarrow> \<not> sc_enable_priority cfg \<and> 0 \<le> CLIP_MAX_NEW_TOKENS (sc_env cfg) \<and>
     (\<forall>x. truncation_align_size cfg = Some x \<longrightarrow> 0 < x) \<and> sc_page_size cfg = 1 \<and> \<not> is_mixed_chunk cfg"

definition sched_ready :: "sched_cfg \<Rightarrow> scheduler \<Rightarrow> nat \<Rightarrow> radix_cache \<Rightarrow> kv_alloc \<Rightarrow> nat multiset \<Rightarrow> bool" where
  "sched_ready cfg s w c al L \<longleftrightarrow> token_mem (sc_mem s) c al L \<and> token_tree c \<and> pool_ready (req_to_token_pool (sc_mem s)) w \<and>
     policy_ok (sc_policy s) (RadixTree c) L \<and> \<not> enable_priority_scheduling (sc_policy s) \<and>
     distinct (map rid (waiting_queue s)) \<and> (\<forall>r \<in> set (waiting_queue s). waiting_ok w r) \<and>
     (\<forall>r \<in> set (reqs (sc_running_batch s)). \<exists>mx. max_new_tokens (sampling r) = Some mx \<and> int (length (Req.output_ids r)) \<le> mx) \<and>
     0 \<le> sc_new_token_ratio s \<and> chunked_req s = None \<and>
     pp_max_micro_batch_size cfg \<le> int (length (reqs (sc_running_batch s))) + int (length (free_slots (req_to_token_pool (sc_mem s))))"

lemma running_offset_nonneg:
  assumes "\<forall>r \<in> set rs. \<exists>mx. max_new_tokens (sampling r) = Some mx \<and> int (length (Req.output_ids r)) \<le> mx" and "0 \<le> ratio"
    and "0 \<le> CLIP_MAX_NEW_TOKENS e"
  shows "\<exists>off. sum_r (get_running_request_total_token_offset e ratio) rs = Inr off \<and> 0 \<le> off"
  using assms(1)
proof (induction rs)
  case (Cons r rs)
  then obtain mx off where x: "max_new_tokens (sampling r) = Some mx" "int (length (Req.output_ids r)) \<le> mx"
    "sum_r (get_running_request_total_token_offset e ratio) rs = Inr off" "0 \<le> off" by auto
  have "0 \<le> (of_int (min (mx - int (length (Req.output_ids r))) (CLIP_MAX_NEW_TOKENS e)) :: rat)" using x(2) assms(3) by simp
  then have "0 \<le> of_int (min (mx - int (length (Req.output_ids r))) (CLIP_MAX_NEW_TOKENS e)) * ratio" using assms(2) by (rule mult_nonneg_nonneg)
  moreover have "get_running_request_total_token_offset e ratio r =
      Inr (of_int (min (mx - int (length (Req.output_ids r))) (CLIP_MAX_NEW_TOKENS e)) * ratio)"
    using x(1) by (simp add: get_running_request_total_token_offset_def)
  ultimately show ?case using x(3,4) by simp
qed simp

lemma unmatched_keeps [simp]: "rid (unmatched r) = rid r" "waiting_ok w (unmatched r) = waiting_ok w r"
  by (simp_all add: unmatched_def waiting_ok_def seqlen_def)

lemma unmatched_queue:
  assumes "mset (map unmatched q') = mset (map unmatched q)"
  shows "mset (map rid q') = mset (map rid q)" "(\<forall>r \<in> set q. waiting_ok w r) \<Longrightarrow> \<forall>r \<in> set q'. waiting_ok w r"
proof -
  have "image_mset rid (mset (map unmatched q')) = image_mset rid (mset (map unmatched q))" using assms by simp
  then show "mset (map rid q') = mset (map rid q)" by (simp add: image_mset.compositionality comp_def)
  have "unmatched ` set q' = unmatched ` set q" using arg_cong [OF assms, of set_mset] by simp
  then show "(\<forall>r \<in> set q. waiting_ok w r) \<Longrightarrow> \<forall>r \<in> set q'. waiting_ok w r" by (metis image_iff unmatched_keeps(2))
qed

lemma mset_map_partition: "mset (map f (filter (\<lambda>x. \<not> P x) q)) + mset (map f (filter P q)) = mset (map f q)"
  by (induction q) auto

lemma taken_from_queue:
  assumes "distinct (map rid q)" and "mset xs \<subseteq># mset (map rid q)"
  shows "mset (map rid (filter (\<lambda>x. rid x \<notin> set xs) q)) + mset xs = mset (map rid q)"
proof -
  have "distinct xs" by (rule distinct_subset_mset [OF assms(2,1)])
  have "mset (map rid (filter (\<lambda>x. rid x \<in> set xs) q)) = mset xs"
  proof (rule set_eq_iff_mset_eq_distinct [THEN iffD1])
    show "distinct (map rid (filter (\<lambda>x. rid x \<in> set xs) q))" by (rule distinct_map_filter [OF assms(1)])
    show "set (map rid (filter (\<lambda>x. rid x \<in> set xs) q)) = set xs" using set_mset_mono [OF assms(2)] by auto
  qed (fact \<open>distinct xs\<close>)
  then show ?thesis using mset_map_partition [of rid "\<lambda>x. rid x \<in> set xs" q] by simp
qed

abbreviation batch_reqs :: "schedule_batch option \<Rightarrow> req list" where
  "batch_reqs nb \<equiv> (case nb of None \<Rightarrow> [] | Some b \<Rightarrow> reqs b)"

text \<open>The outcome: the batch holds what left the queue, its locks and its slots; everything else is as before.\<close>

definition prefilled ::
    "sched_cfg \<Rightarrow> scheduler \<Rightarrow> radix_cache \<Rightarrow> kv_alloc \<Rightarrow> nat multiset \<Rightarrow> schedule_batch option \<Rightarrow> scheduler \<Rightarrow> bool" where
  "prefilled cfg s c al L nb s' \<longleftrightarrow> (\<exists>c' al'.
     token_mem (sc_mem s') c' al' (L + mset (map node_of (batch_reqs nb))) \<and>
     mset (map rid (waiting_queue s')) + mset (map rid (batch_reqs nb)) = mset (map rid (waiting_queue s)) \<and>
     reqs (sc_running_batch s') = reqs (sc_running_batch s) \<and>
     (case nb of
        None \<Rightarrow> token_slots al' + tree_slots c' = token_slots al + tree_slots c
      | Some b \<Rightarrow> \<exists>out. out_cache_loc b = Some out \<and> mset out + token_slots al' + tree_slots c' = token_slots al + tree_slots c \<and>
          reqs b \<noteq> [] \<and> int (length (reqs (sc_running_batch s)) + length (reqs b)) \<le> pp_max_micro_batch_size cfg \<and>
          distinct (map req_pool_idx (reqs b)) \<and> (\<forall>r \<in> set (reqs b). req_pool_idx r \<in> Some ` set (free_slots (req_to_token_pool (sc_mem s))))))"

lemma prefill_after_policy:
  assumes cfg: "plain_sched cfg" and rd: "sched_ready cfg s w c al L"
    and m: "m = (sc_mem s)\<lparr>tree_cache := RadixTree c1\<rparr>" "rc_inv c1 L" "conf c1 = conf c" "tree_slots c1 = tree_slots c"
    and q: "mset (map rid q) = mset (map rid (waiting_queue s))" "\<forall>r \<in> set q. waiting_ok w r"
    and a: "prefill_adder_init (sc_env cfg) m (sc_page_size cfg) (Some (sc_running_batch s)) (sc_new_token_ratio s)
      (max_prefill_tokens cfg) (chunked_prefill_size cfg) 0 (sc_preemption_threshold cfg) = Inr a" "0 \<le> rem_total_token_offset a"
    and s1: "s1 = s\<lparr>waiting_queue := q, sc_policy := sp, sc_mem := m\<rparr>"
  shows "\<exists>q1 m1 a2. prefill_loop cfg q m a = Inr (q1, m1, a2) \<and>
    (let s2 = s1\<lparr>waiting_queue := q1, sc_mem := m1, sc_running_batch := the (running_batch a2), chunked_req := None\<rparr>
     in \<exists>nb s'. (if can_run_list a2 = [] then Inr (None, s2) else launch_prefill cfg now s2 a2) = Inr (nb, s') \<and> prefilled cfg s c al L nb s')"
proof -
  let ?b = "sc_running_batch s" and ?p = "req_to_token_pool (sc_mem s)"
  have mem: "token_mem (sc_mem s) c al L" and t: "token_tree c" and pool: "pool_ready ?p w" and dist: "distinct (map rid (waiting_queue s))"
    and lim: "pp_max_micro_batch_size cfg \<le> int (length (reqs ?b)) + int (length (free_slots ?p))" using rd by (simp_all add: sched_ready_def)
  have mem1: "token_mem m c1 al L" using token_mem_upd [OF mem m(2)] conf_eqD [OF m(3)] token_memD(4) [OF mem] m(1) by simp
  have a': "can_run_list a = []" "preempt_list a = []" "running_batch a = Some ?b" "plain_adder a"
    using a(1) cfg token_memD(2) [OF mem] m(1)
    by (auto simp: prefill_adder_init_def bind_r_eq_Inr plain_adder_def is_swa_alloc_def plain_sched_def)
  have adm: "admitted w L m a c1 al"
    using mem1 a' a(2) token_tree_conf [OF m(3)] t token_memD(7) [OF mem1] by (simp add: admitted_def mem_tokens_def)
  have ps: "\<not> sc_enable_priority cfg" "0 \<le> CLIP_MAX_NEW_TOKENS (sc_env cfg)" "\<forall>x. truncation_align_size cfg = Some x \<longrightarrow> 0 < x"
    "\<not> is_mixed_chunk cfg" using cfg by (simp_all add: plain_sched_def)
  have rl: "row_limit cfg m ?b a" using a'(1) by simp
  obtain q1 a2 c2 added full where l: "prefill_loop cfg q m a = Inr (q1, m\<lparr>tree_cache := RadixTree c2\<rparr>, a2)"
    "admitted w L (m\<lparr>tree_cache := RadixTree c2\<rparr>) a2 c2 al" "map rid q1 = map rid q" "tree_slots c2 = tree_slots c1"
    "running_batch a2 = Some (?b\<lparr>batch_is_full := full\<rparr>)" "row_limit cfg m ?b a2" "can_run_list a2 = can_run_list a @ added"
    "mset (map rid added) \<subseteq># mset (map rid q)"
    using prefill_loop_spec [OF ps(1-3) adm a'(3) rl q(2)] by blast
  let ?m = "m\<lparr>tree_cache := RadixTree c2\<rparr>"
  let ?s2 = "s1\<lparr>waiting_queue := q1, sc_mem := ?m, sc_running_batch := ?b\<lparr>batch_is_full := full\<rparr>, chunked_req := None\<rparr>"
  have fs: "req_to_token_pool (sc_mem ?s2) = ?p" using m(1) by simp
  have "\<exists>nb s'. (if can_run_list a2 = [] then Inr (None, ?s2) else launch_prefill cfg now ?s2 a2) = Inr (nb, s') \<and> prefilled cfg s c al L nb s'"
  proof (cases "can_run_list a2 = []")
    case True
    then have "prefilled cfg s c al L None ?s2"
      unfolding prefilled_def using l(2-4) q(1) m(4)
      by (intro exI [of _ c2] exI [of _ al]) (simp add: admitted_def s1 del: mset_map)
    then show ?thesis using True by simp
  next
    case False
    have n: "int (length (reqs ?b) + length (can_run_list a2)) \<le> pp_max_micro_batch_size cfg" "length (can_run_list a2) \<le> length (free_slots ?p)"
      using l(6) False lim by (auto simp: get_num_allocatable_reqs_def Let_def split: if_splits)
    have ad: "admitted w L (sc_mem ?s2) a2 c2 al" and pl: "pool_ready (req_to_token_pool (sc_mem ?s2)) w"
      and rw: "length (can_run_list a2) \<le> length (free_slots (req_to_token_pool (sc_mem ?s2)))" using l(2) pool n(2) m(1) by simp_all
    obtain b ch m' c' al' out where e: "launch_prefill cfg now ?s2 a2 = Inr (Some b,
        ?s2\<lparr>waiting_queue := filter (\<lambda>x. rid x \<notin> set (map rid (can_run_list a2))) q1, chunked_req := ch, sc_mem := m'\<rparr>)"
      "map rid (reqs b) = map rid (can_run_list a2)" "token_mem m' c' al' (L + mset (map node_of (reqs b)))"
      "out_cache_loc b = Some out" "mset out + token_slots al' + tree_slots c' = token_slots al + tree_slots c2"
      "map req_pool_idx (reqs b) = map Some (take (length (reqs b)) (free_slots ?p))"
      using launch_prefill_spec [OF ad pl False rw _ ps(4), of now] unfolding fs by auto
    let ?s' = "?s2\<lparr>waiting_queue := filter (\<lambda>x. rid x \<notin> set (map rid (can_run_list a2))) q1, chunked_req := ch, sc_mem := m'\<rparr>"
    have "distinct (map rid q1)" using dist q(1) l(3) mset_eq_imp_distinct_iff by metis
    then have acc: "mset (map rid (waiting_queue ?s')) + mset (map rid (reqs b)) = mset (map rid (waiting_queue s))"
      using taken_from_queue [of q1 "map rid (can_run_list a2)"] l(3,7,8) a'(1) q(1) e(2) by simp
    have "length (reqs b) = length (can_run_list a2)" using e(2) by (metis length_map)
    moreover have "distinct (map req_pool_idx (reqs b))" unfolding e(6) using pool by (simp add: pool_ready_def distinct_map)
    moreover have "set (map req_pool_idx (reqs b)) \<subseteq> Some ` set (free_slots ?p)" unfolding e(6) by (auto dest: in_set_takeD)
    then have "\<forall>r \<in> set (reqs b). req_pool_idx r \<in> Some ` set (free_slots ?p)" by auto
    ultimately have "prefilled cfg s c al L (Some b) ?s'"
      unfolding prefilled_def using acc e(3-5) l(4) m(4) n(1) False
      by (intro exI [of _ c'] exI [of _ al']) (auto simp: s1 simp del: mset_map)
    then show ?thesis using e(1) False by auto
  qed
  then show ?thesis using l(1,5) by (cases "can_run_list a2 = []") (simp_all add: Let_def)
qed

lemma calc_priority_ready:
  assumes rd: "sched_ready cfg s w c al L" and sh: "\<And>xs. mset (shuffle xs) = mset xs"
  shows "\<exists>bb q sp c1. calc_priority (sc_env cfg) u shuffle (sc_policy s) (tree_cache (sc_mem s)) (waiting_queue s) = Inr (bb, q, sp, RadixTree c1) \<and>
    rc_inv c1 L \<and> conf c1 = conf c \<and> tree_slots c1 = tree_slots c \<and> mset (map rid q) = mset (map rid (waiting_queue s)) \<and>
    (\<forall>r \<in> set q. waiting_ok w r)"
proof -
  have mem: "token_mem (sc_mem s) c al L" using rd by (simp add: sched_ready_def)
  note d = token_memD [OF mem]
  have pol: "policy_ok (sc_policy s) (tree_cache (sc_mem s)) L" using rd d(1) by (simp add: sched_ready_def)
  have rq: "(enable_priority_scheduling (sc_policy s) \<longrightarrow> priority r \<noteq> None) \<and> max_new_tokens (sampling r) \<noteq> None"
    if "r \<in> set (waiting_queue s)" for r using rd that by (auto simp: sched_ready_def waiting_ok_def)
  obtain bb q sp t where p: "calc_priority (sc_env cfg) u shuffle (sc_policy s) (tree_cache (sc_mem s)) (waiting_queue s) = Inr (bb, q, sp, t)"
    "mset (map unmatched q) = mset (map unmatched (waiting_queue s))"
    "t = tree_cache (sc_mem s) \<or> (\<exists>c c'. tree_cache (sc_mem s) = RadixTree c \<and> t = RadixTree c' \<and> reshapes c c')"
    using calc_priority_spec [OF pol sh rq] by blast
  have "\<exists>c1. t = RadixTree c1 \<and> reshapes c c1"
    using p(3)
  proof
    assume "t = tree_cache (sc_mem s)"
    then show ?thesis using d(1) by auto
  qed (use d(1) in auto)
  then obtain c1 where c1: "t = RadixTree c1" "reshapes c c1" by blast
  have "\<forall>r \<in> set q. waiting_ok w r" using unmatched_queue(2) [OF p(2)] rd by (simp add: sched_ready_def)
  then show ?thesis using p(1) c1(1) reshapes_inv [OF c1(2) d(3)] reshapes_conf [OF c1(2)] unmatched_queue(1) [OF p(2)] by blast
qed

lemma prefill_attempt:
  assumes cfg: "plain_sched cfg" and rd: "sched_ready cfg s w c al L" and sh: "\<And>xs. mset (shuffle xs) = mset xs"
    and go: "\<not> (batch_is_full (sc_running_batch s) \<or> waiting_queue s = [])"
      "\<not> get_num_allocatable_reqs cfg (sc_mem s) (int (length (reqs (sc_running_batch s)))) \<le> 0"
  shows "\<exists>nb s'. get_new_batch_prefill cfg u shuffle now s = Inr (nb, s') \<and> prefilled cfg s c al L nb s'"
proof -
  let ?b = "sc_running_batch s"
  have mem: "token_mem (sc_mem s) c al L" and ch: "chunked_req s = None" and pr: "\<not> sc_enable_priority cfg" and mix: "\<not> is_mixed_chunk cfg"
    using rd cfg by (simp_all add: sched_ready_def plain_sched_def)
  note d = token_memD [OF mem]
  obtain bb q sp c1 where p: "calc_priority (sc_env cfg) u shuffle (sc_policy s) (tree_cache (sc_mem s)) (waiting_queue s) = Inr (bb, q, sp, RadixTree c1)"
    and c1: "rc_inv c1 L" "conf c1 = conf c" "tree_slots c1 = tree_slots c" and q: "mset (map rid q) = mset (map rid (waiting_queue s))"
    "\<forall>r \<in> set q. waiting_ok w r" using calc_priority_ready [OF rd sh] by blast
  let ?m = "(sc_mem s)\<lparr>tree_cache := RadixTree c1\<rparr>"
  let ?s1 = "s\<lparr>waiting_queue := q, sc_policy := sp, sc_mem := ?m\<rparr>"
  have step: "get_new_batch_prefill cfg u shuffle now s = (if TEST_RETRACT cfg \<and> length (reqs ?b) > TEST_RETRACT_NO_PREFILL_BS cfg
      then Inr (None, ?s1) else bind_r (prefill_adder_init (sc_env cfg) ?m (sc_page_size cfg) (Some ?b) (sc_new_token_ratio s)
        (max_prefill_tokens cfg) (chunked_prefill_size cfg) 0 (sc_preemption_threshold cfg)) (\<lambda>a.
        bind_r (prefill_loop cfg q ?m a) (\<lambda>(q1, m1, a2).
          let s2 = ?s1\<lparr>waiting_queue := q1, sc_mem := m1, sc_running_batch := the (running_batch a2), chunked_req := None\<rparr>
          in if can_run_list a2 = [] then Inr (None, s2) else launch_prefill cfg now s2 a2)))"
    using go pr ch mix p by (simp add: get_new_batch_prefill_def Let_def)
  show ?thesis
  proof (cases "TEST_RETRACT cfg \<and> length (reqs ?b) > TEST_RETRACT_NO_PREFILL_BS cfg")
    case True
    have "token_mem ?m c1 al L" using token_mem_upd [OF mem c1(1)] conf_eqD [OF c1(2)] d(4) by simp
    then have "prefilled cfg s c al L None ?s1"
      unfolding prefilled_def using q(1) c1(3) by (intro exI [of _ c1] exI [of _ al]) (simp del: mset_map)
    then show ?thesis using step True by simp
  next
    case False
    obtain off where off: "sum_r (get_running_request_total_token_offset (sc_env cfg) (sc_new_token_ratio s)) (reqs ?b) = Inr off" "0 \<le> off"
      using running_offset_nonneg [of "reqs ?b" "sc_new_token_ratio s" "sc_env cfg"] rd cfg by (auto simp: sched_ready_def plain_sched_def)
    obtain a where a: "prefill_adder_init (sc_env cfg) ?m (sc_page_size cfg) (Some ?b) (sc_new_token_ratio s)
        (max_prefill_tokens cfg) (chunked_prefill_size cfg) 0 (sc_preemption_threshold cfg) = Inr a" "0 \<le> rem_total_token_offset a"
      using off by (simp add: prefill_adder_init_def)
    obtain q1 m1 a2 nb s' where l: "prefill_loop cfg q ?m a = Inr (q1, m1, a2)"
      "(let s2 = ?s1\<lparr>waiting_queue := q1, sc_mem := m1, sc_running_batch := the (running_batch a2), chunked_req := None\<rparr>
        in if can_run_list a2 = [] then Inr (None, s2) else launch_prefill cfg now s2 a2) = Inr (nb, s')" "prefilled cfg s c al L nb s'"
      using prefill_after_policy [OF cfg rd refl c1 q a refl, of sp now] unfolding Let_def by blast
    show ?thesis unfolding step if_not_P [OF False] using a(1) l by simp
  qed
qed





lemma decode_step_launch:
  assumes mem: "token_mem (sc_mem s2) c al (mset (map node_of (reqs b2)) + L)" and t: "token_tree c" and cfg: "plain_cfg (sc_server cfg)"
    and d: "decodable (req_to_token_pool (sc_mem s2)) w b2" "reqs b2 \<noteq> []" and h: "\<forall>r \<in> set (reqs b2). holding (req_to_token_pool (sc_mem s2)) r"
    and room: "length (reqs b2) \<le> token_available_size al"
    and acc: "outbox s2 = outbox s @ out'" "queue_ok cfg (waiting_queue s2)"
      "mset (map rid (reqs b2)) + mset (map rid (waiting_queue s2)) + mset (map aborted out')
        = mset (map rid (unfinished b)) + mset (map rid (waiting_queue s))"
  shows "\<exists>b' s'. bind_r (prepare_for_decode (sc_server cfg) (sc_mem s2) (if x then b2\<lparr>batch_is_full := False\<rparr> else b2))
      (\<lambda>(b4, m2). Inr (b4, s2\<lparr>sc_mem := m2\<rparr>)) = Inr (b', s') \<and> stepped cfg s b L b' s'"
proof -
  let ?b = "if x then b2\<lparr>batch_is_full := False\<rparr> else b2"
  have e: "reqs ?b = reqs b2" "decodable (req_to_token_pool (sc_mem s2)) w ?b" using d(1) by (simp_all add: decodable_def batch_rows_def)
  have "int (length (reqs b2)) \<le> mem_tokens c al" using room token_memD(7) [OF mem] by (simp add: mem_tokens_def)
  then obtain b' m' c' al' out where p: "prepare_for_decode (sc_server cfg) (sc_mem s2) ?b = Inr (b', m')" "out_cache_loc b' = Some out"
    "length out = length (reqs b2)" "token_mem m' c' al' (mset (map node_of (reqs b2)) + L)" "forward_mode b' = Some DECODE"
    "map rid (reqs b') = map rid (reqs b2)" "map last_node (reqs b') = map last_node (reqs b2)"
    using prepare_for_decode_token [OF mem t cfg e(2)] d(2) h e(1) by auto
  have "map node_of (reqs b') = map node_of (reqs b2)" using arg_cong [OF p(7), of "map the"] by (simp add: comp_def)
  moreover have "length (reqs b') = length (reqs b2)" using p(6) by (metis length_map)
  ultimately have "stepped cfg s b L b' (s2\<lparr>sc_mem := m'\<rparr>)"
    unfolding stepped_def using acc p d(2) by (intro exI [of _ out'] exI [of _ c'] exI [of _ al']) auto
  then show ?thesis using p(1) by simp
qed

lemma decode_step_retracts:
  assumes mem: "token_mem m c al (mset (map node_of (reqs b1)) + L)" and t: "token_tree c" and cfg: "plain_cfg (sc_server cfg)"
    and dec: "decodable (req_to_token_pool m) w b1" and ne: "reqs b1 \<noteq> []"
    and h: "\<And>r. r \<in> set (reqs b1) \<Longrightarrow> holding (req_to_token_pool m) r \<and> max_new_tokens (sampling r) \<noteq> None"
    and one: "length (reqs b1) = 1 \<longrightarrow> 0 < token_available_size al"
    and q: "queue_ok cfg (waiting_queue s)" "max_queued_requests cfg \<noteq> Some 0" "distinct (map rid (waiting_queue s @ unfinished b))"
    and b1: "reqs b1 = unfinished b"
  shows "\<exists>ret ratio b2 m2 s2 b' s'. retract_decode (sc_server cfg) m b1 = Inr (ret, ratio, b2, m2) \<and>
    add_requests cfg now (s\<lparr>sc_mem := m2, num_retracted_reqs := length ret, sc_new_token_ratio := ratio\<rparr>) ret = Inr s2 \<and>
    bind_r (prepare_for_decode (sc_server cfg) (sc_mem s2) (if batch_size b2 < batch_size b then b2\<lparr>batch_is_full := False\<rparr> else b2))
      (\<lambda>(b4, m2). Inr (b4, s2\<lparr>sc_mem := m2\<rparr>)) = Inr (b', s') \<and> stepped cfg s b L b' s'"
proof -
  obtain ret ratio b2 m2 c2 al2 where r: "retract_decode (sc_server cfg) m b1 = Inr (ret, ratio, b2, m2)" "reqs b2 \<noteq> []"
    "mset (map rid ret) + mset (map rid (reqs b2)) = mset (map rid (reqs b1))"
    "token_mem m2 c2 al2 (mset (map node_of (reqs b2)) + L)" "token_tree c2" "length (reqs b2) \<le> token_available_size al2"
    "decodable (req_to_token_pool m2) w b2" "\<forall>r \<in> set (reqs b2). holding (req_to_token_pool m2) r"
    using retract_any [OF mem t cfg dec ne h one] by blast
  let ?s = "s\<lparr>sc_mem := m2, num_retracted_reqs := length ret, sc_new_token_ratio := ratio\<rparr>"
  have "mset (map rid (waiting_queue ?s @ ret)) \<subseteq># mset (map rid (waiting_queue s @ unfinished b))"
    unfolding map_append mset_append b1 [symmetric] r(3) [symmetric] by simp
  then have "distinct (map rid (waiting_queue ?s @ ret))" using q(3) by (rule distinct_subset_mset)
  then obtain q' out' where a: "add_requests cfg now ?s ret = Inr (?s\<lparr>waiting_queue := q', outbox := outbox ?s @ out'\<rparr>)" "queue_ok cfg q'"
    "mset (map rid q') + mset (map aborted out') = mset (map rid (waiting_queue ?s @ ret))"
    using add_requests_spec [of cfg ?s ret now] q(1,2) by auto
  let ?s2 = "?s\<lparr>waiting_queue := q', outbox := outbox ?s @ out'\<rparr>"
  have acc: "mset (map rid (reqs b2)) + mset (map rid (waiting_queue ?s2)) + mset (map aborted out')
      = mset (map rid (unfinished b)) + mset (map rid (waiting_queue s))"
  proof -
    have "mset (map rid (reqs b2)) + mset (map rid q') + mset (map aborted out')
        = mset (map rid (reqs b2)) + mset (map rid (waiting_queue ?s @ ret))" unfolding a(3) [symmetric] by (rule add.assoc)
    also have "\<dots> = (mset (map rid ret) + mset (map rid (reqs b2))) + mset (map rid (waiting_queue s))" by (simp add: ac_simps)
    finally show ?thesis unfolding r(3) b1 by simp
  qed
  have "\<exists>b' s'. bind_r (prepare_for_decode (sc_server cfg) (sc_mem ?s2) (if batch_size b2 < batch_size b then b2\<lparr>batch_is_full := False\<rparr> else b2))
      (\<lambda>(b4, m2). Inr (b4, ?s2\<lparr>sc_mem := m2\<rparr>)) = Inr (b', s') \<and> stepped cfg s b L b' s'"
    by (rule decode_step_launch [where out' = out']) (use r(2,4-8) cfg a(2) acc in auto)
  then show ?thesis using r(1) a(1) by blast
qed



lemma token_loop_cases: "token_finish_loop r i ts = (b, r') \<Longrightarrow> if b then finished r' \<and> Req.output_ids r' = Req.output_ids r else r' = r"
  by (induction r i ts rule: token_finish_loop.induct) (auto simp: finished_def split: if_splits)

lemma length_replace_id [simp]: "length (replace_id first S i ids) = length ids"
  by (simp add: replace_id_def split: option.split)

lemma vocab_loop_cases:
  assumes "vocab_size r \<noteq> None"
  shows "\<exists>b r'. vocab_finish_loop first r i ts = Inr (b, r') \<and>
     (b \<longrightarrow> finished r' \<and> length (Req.output_ids r') = length (Req.output_ids r)) \<and> (\<not> b \<longrightarrow> r' = r)"
proof (induction ts arbitrary: i)
  case (Cons t ts)
  obtain v where v: "vocab_size r = Some v" using assms by auto
  show ?case
  proof (cases "v < t \<or> t < 0")
    case True
    then show ?thesis using v by (intro exI [of _ True]) (simp add: finished_def)
  next
    case False
    then show ?thesis using v Cons.IH [of "i + 1"] by simp
  qed
qed (intro exI [of _ False] exI [of _ r], simp)

lemma str_finish_cases:
  assumes "stop_strs (sampling r) = [] \<and> stop_regex_strs (sampling r) = [] \<or> req_tokenizer r \<noteq> None"
  shows "\<exists>b r'. check_str_based_finish re r = Inr (b, r') \<and> (r' = r \<or> finished r' \<and> Req.output_ids r' = Req.output_ids r)"
proof (cases "stop_strs (sampling r) = [] \<and> stop_regex_strs (sampling r) = []")
  case False
  then obtain tail where t: "tail_str r = Inr tail" using assms by (auto simp: tail_str_def Let_def)
  obtain f1 f2 where f: "first_in (stop_strs (sampling r)) (\<lambda>s. str_in s tail \<or> str_in s (decoded_text r)) = f1"
    "first_in (stop_regex_strs (sampling r)) (\<lambda>p. re p tail) = f2" by blast
  have "check_str_based_finish re r = (case f1 of Some s \<Rightarrow> Inr (True, r\<lparr>finished_reason := Some (FINISH_MATCHED_STR s)\<rparr>)
      | None \<Rightarrow> (case f2 of Some p \<Rightarrow> Inr (True, r\<lparr>finished_reason := Some (FINISHED_MATCHED_REGEX p)\<rparr>) | None \<Rightarrow> Inr (False, r)))"
    unfolding check_str_based_finish_def if_not_P [OF False] t bind_r_Inr f ..
  moreover have "finished (r\<lparr>finished_reason := Some x\<rparr>) \<and> Req.output_ids (r\<lparr>finished_reason := Some x\<rparr>) = Req.output_ids r" for x
    by (simp add: finished_def)
  ultimately show ?thesis by (cases f1; cases f2) (simp_all only: option.case, blast+)
qed (auto simp: check_str_based_finish_def)

text \<open>\<open>checkable\<close>: what the finish check of a request relies on.\<close>

definition checkable :: "req \<Rightarrow> bool" where
  "checkable r \<longleftrightarrow> vocab_size r \<noteq> None \<and>
     (stop_strs (sampling r) = [] \<and> stop_regex_strs (sampling r) = [] \<or> req_tokenizer r \<noteq> None)"

lemma check_finished_step:
  assumes "\<not> finished r" and "checkable r" and "max_new_tokens (sampling r) = Some mx" and "Req.output_ids r \<noteq> []"
  shows "\<exists>r'. check_finished re first n r = Inr r' \<and>
    (finished r' \<and> length (Req.output_ids r') = length (Req.output_ids r) \<or> int (length (Req.output_ids r)) < mx \<and> r' = r)"
proof (cases "to_finish r \<noteq> None \<or> mx \<le> int (length (Req.output_ids r)) \<or> grammar_terminated r = Some True")
  case True
  then show ?thesis using assms(1,3,4) by (auto simp: check_finished_def finished_def)
next
  case False
  let ?new = "py_from (Req.output_ids r) (- int n)"
  obtain b1 r1 where t: "check_token_based_finish r ?new = (b1, r1)"
    "if b1 then finished r1 \<and> Req.output_ids r1 = Req.output_ids r else r1 = r"
    using token_loop_cases [of r _ ?new] by (cases "check_token_based_finish r ?new") (auto simp: check_token_based_finish_def split: if_splits)
  obtain b2 r2 where v: "check_vocab_boundary_finish first r ?new = Inr (b2, r2)"
    "b2 \<longrightarrow> finished r2 \<and> length (Req.output_ids r2) = length (Req.output_ids r)" "\<not> b2 \<longrightarrow> r2 = r"
    using vocab_loop_cases [of r first "length (Req.output_ids r) - length ?new" ?new] assms(2)
    unfolding check_vocab_boundary_finish_def checkable_def by blast
  obtain b3 r3 where s: "check_str_based_finish re r = Inr (b3, r3)"
    "r3 = r \<or> finished r3 \<and> Req.output_ids r3 = Req.output_ids r"
    using str_finish_cases [of r re] assms(2) unfolding checkable_def by blast
  have "check_finished re first n r = (if b1 then Inr r1 else if b2 then Inr r2 else Inr r3)"
    using False assms(1,3) t v(1,3) s(1) by (cases b1) (auto simp: check_finished_def finished_def Let_def)
  then show ?thesis using t(2) v(2) s(2) False by (cases b1; cases b2) auto
qed

text \<open>
  (C19) Generation ends: whatever tokens the model samples, a request with an output limit is finished after
  at most as many decode steps as it has tokens left (one, if it has none left), without an error, and
  its output never exceeds the limit by more than that step.
\<close>

theorem generation_terminates:
  assumes "\<not> finished r" and "checkable r" and "max_new_tokens (sampling r) = Some mx" and "new \<noteq> []"
    and "mx \<le> int (length (Req.output_ids r)) + int (length new)"
  shows "\<exists>r'. decode_run fe r new = Inr r' \<and> finished r' \<and>
    int (length (Req.output_ids r')) \<le> max (int (length (Req.output_ids r)) + 1) mx"
  using assms
proof (induction new arbitrary: r)
  case (Cons t ts)
  let ?r = "r\<lparr>Req.output_ids := Req.output_ids r @ [t]\<rparr>"
  have "\<not> finished ?r" "checkable ?r" "max_new_tokens (sampling ?r) = Some mx" "Req.output_ids ?r \<noteq> []"
    using Cons.prems by (simp_all add: finished_def checkable_def)
  then obtain r' where r': "check_finished (fst fe) (snd fe) 1 ?r = Inr r'"
    "finished r' \<and> length (Req.output_ids r') = Suc (length (Req.output_ids r)) \<or> int (length (Req.output_ids r)) + 1 < mx \<and> r' = ?r"
    using check_finished_step [of ?r mx "fst fe" "snd fe" 1] by auto
  show ?case
  proof (cases "finished r'")
    case True
    then have "length (Req.output_ids r') = Suc (length (Req.output_ids r))" using r'(2) \<open>\<not> finished ?r\<close> by auto
    moreover have "decode_run fe r' ts = Inr r'" using True by (cases ts) simp_all
    ultimately show ?thesis using Cons.prems(1) r'(1) True by simp
  next
    case False
    then have e: "r' = ?r" "int (length (Req.output_ids r)) + 1 < mx" using r'(2) by auto
    then have "ts \<noteq> []" "mx \<le> int (length (Req.output_ids ?r)) + int (length ts)" using Cons.prems(5) by auto
    then obtain r2 where "decode_run fe ?r ts = Inr r2" "finished r2" "int (length (Req.output_ids r2)) \<le> max (int (length (Req.output_ids ?r)) + 1) mx"
      using Cons.IH [of ?r] Cons.prems(2,3) \<open>\<not> finished ?r\<close> \<open>checkable ?r\<close> by auto
    then show ?thesis using e r'(1) Cons.prems(1) by auto
  qed
qed simp

theorem generation_terminates_witness:
  "\<exists>r'. decode_run (\<lambda>_ _. False, \<lambda>_. 0) (demo_req\<lparr>req_tokenizer := Some \<lparr>eos_token_id = None, additional_stop_token_ids = None, tok_decode = \<lambda>_. []\<rparr>\<rparr>)
     [1, 2, 3, 4, 5, 6, 8, 9, 10, 11, 12, 13] = Inr r' \<and> finished r' \<and> int (length (Req.output_ids r')) \<le> max (4 + 1) 16"
proof -
  let ?r = "demo_req\<lparr>req_tokenizer := Some \<lparr>eos_token_id = None, additional_stop_token_ids = None, tok_decode = \<lambda>_. []\<rparr>\<rparr>"
  have "\<not> finished ?r" "checkable ?r" "max_new_tokens (sampling ?r) = Some 16" "length (Req.output_ids ?r) = 4"
    by (simp_all add: finished_def checkable_def demo_req_simps)
  then show ?thesis using generation_terminates [of ?r 16 "[1, 2, 3, 4, 5, 6, 8, 9, 10, 11, 12, 13]" "(\<lambda>_ _. False, \<lambda>_. 0)"] by simp
qed

text \<open>\<open>idle\<close>: nothing waits and nothing runs; the last batch, if any, was a decode batch.\<close>

definition idle :: "scheduler \<Rightarrow> bool" where
  "idle s \<longleftrightarrow> waiting_queue s = [] \<and> chunked_req s = None \<and> unfinished (sc_running_batch s) = [] \<and>
     (case last_batch s of None \<Rightarrow> True | Some b \<Rightarrow> forward_mode b = Some DECODE)"

lemma filter_batch_finished:
  assumes "unfinished b = []" shows "filter_batch b [] None = Inr (b\<lparr>reqs := []\<rparr>)"
proof -
  obtain keep where k: "keep_indices_of b [] None = keep" "map (\<lambda>i. reqs b ! i) keep = filter (\<lambda>r. \<not> finished r \<and> rid r \<notin> set (map rid ([] :: req list))) (reqs b)"
    "\<forall>i \<in> set keep. i < length (reqs b)" by (rule keep_none [of b "[]"])
  then show ?thesis using assms by (simp add: filter_batch_def)
qed

lemma idle_next_batch:
  assumes "idle s"
  shows "\<exists>b. get_next_batch_to_run cfg u shuffle now s = Inr (None, s\<lparr>sc_running_batch := b\<rparr>) \<and> reqs b = []"
proof -
  let ?b = "if sc_enable_priority cfg then (sc_running_batch s)\<lparr>batch_is_full := False\<rparr> else sc_running_batch s"
  have un: "unfinished ?b = []" using assms by (simp add: idle_def)
  have "stash_chunked s = Inr s" "merge_last s = Inr s"
    using assms by (auto simp: idle_def stash_chunked_def merge_last_def is_extend_def split: option.splits)
  moreover have "get_new_batch_prefill cfg u shuffle now s = Inr (None, s\<lparr>sc_running_batch := ?b\<rparr>)"
    using assms by (simp add: idle_def get_new_batch_prefill_def)
  ultimately have step: "get_next_batch_to_run cfg u shuffle now s = (if is_empty ?b then Inr (None, s\<lparr>sc_running_batch := ?b\<rparr>)
      else bind_r (update_running_batch cfg now (s\<lparr>sc_running_batch := ?b\<rparr>) ?b) (\<lambda>(running, s4).
        Inr (if is_empty running then None else Some running, s4\<lparr>sc_running_batch := running\<rparr>)))"
    by (simp add: get_next_batch_to_run_def)
  show ?thesis
  proof (cases "is_empty ?b")
    case True
    then show ?thesis using step by (intro exI [of _ ?b]) (simp add: is_empty_def)
  next
    case False
    have "filter_batch ?b [] None = Inr (?b\<lparr>reqs := []\<rparr>)" using un by (rule filter_batch_finished)
    then show ?thesis
      using step False by (intro exI [of _ "?b\<lparr>reqs := [], batch_is_full := False\<rparr>"]) (simp add: update_running_batch_def is_empty_def)
  qed
qed

lemma tree_slots_counted:
  assumes "rc_inv c L" shows "int (size (tree_slots c)) = evictable_size c + protected_size c"
proof -
  have "size (\<Sum>n \<in> A. node_slots (nodes c n)) = (\<Sum>n \<in> A. length (slots_of c n))" if "finite A" for A
    using that by (induction A) (simp_all add: node_slots_def slots_of_def split: option.splits)
  moreover have "finite (live c)" using assms by (intro finite_live) (simp add: rc_inv_def)
  ultimately show ?thesis using live_locked_sum [OF assms] by (simp add: live_sum_def)
qed

text \<open>
  (C11) An idle turn detects exactly the leaks: when the KV slots are the free ones, those in the tree and
  those \<open>held\<close> by someone else, an idle turn of the event loop on a server with a radix tree raises iff a slot is held or a
  row is not returned. Otherwise it keeps the memory and resets the new token ratio.
\<close>

theorem idle_turn_detects_leaks:
  assumes "idle s" and "token_mem (sc_mem s) c al L" and "tokens_per_layer cfg = None" and "0 < n"
    and "max_total_num_tokens cfg = int n" and "token_slots al + tree_slots c + held = mset (map int [1..<Suc n])"
  shows "if held = {#} \<and> length (free_slots (req_to_token_pool (sc_mem s))) = rp_size (req_to_token_pool (sc_mem s))
    then \<exists>s'. event_loop_turn cfg fe forward u shuffle now s [] = Inr s' \<and> idle s' \<and> sc_mem s' = sc_mem s \<and>
      outbox s' = outbox s \<and> sc_new_token_ratio s' = init_new_token_ratio cfg
    else event_loop_turn cfg fe forward u shuffle now s [] = Inl ValueError"
proof -
  note d = token_memD [OF assms(2)]
  obtain b where b: "get_next_batch_to_run cfg u shuffle now s = Inr (None, s\<lparr>sc_running_batch := b\<rparr>)" "reqs b = []"
    using idle_next_batch [OF assms(1)] by blast
  have "size (token_slots al) + size (tree_slots c) + size held = n"
    using arg_cong [OF assms(6), of size] by simp
  then have "int (token_available_size al) + evictable_size c + protected_size c + int (size held) = int n"
    using tree_slots_counted [OF d(3)] d(6) by simp
  then have "check_radix_cache_memory cfg (sc_mem s) = Inr (held \<noteq> {#})"
    using assms(4,5) d(1,2) by (auto simp: check_radix_cache_memory_def get_token_info_def Let_def)
  then have chk: "check_memory cfg (sc_mem s) = (if held = {#} \<and>
      length (free_slots (req_to_token_pool (sc_mem s))) = rp_size (req_to_token_pool (sc_mem s)) then Inr () else Inl ValueError)"
    using assms(3) by (simp add: check_memory_def check_req_pool_def)
  have "event_loop_turn cfg fe forward u shuffle now s [] = bind_r (check_memory cfg (sc_mem s)) (\<lambda>_.
      Inr (s\<lparr>sc_running_batch := b, sc_new_token_ratio := init_new_token_ratio cfg, cur_batch := None, last_batch := None\<rparr>))"
    using b(1) by (cases "check_memory cfg (sc_mem s)") (simp_all add: event_loop_turn_def self_check_during_idle_def)
  then show ?thesis using chk assms(1) b(2) by (auto simp: idle_def)
qed

theorem idle_turn_detects_leaks_witness:
  "\<exists>c sp s'. demo_radix = Inr c \<and> schedule_policy_init ''lof'' (RadixTree c) False False False (\<lambda>n. int n) (\<lambda>_. 0) = Inr sp \<and>
     event_loop_turn demo_sched_cfg (\<lambda>_ _. False, \<lambda>_. 0) (\<lambda>_. []) (\<lambda>_. 0) rev (\<lambda>_. 0)
       ((demo_scheduler sp (empty_batch False) ((demo_mem c)\<lparr>req_to_token_pool := req_pool_init 2 4\<rparr>))\<lparr>waiting_queue := [], sc_new_token_ratio := 0\<rparr>) []
       = Inr s' \<and> sc_new_token_ratio s' = 7 / 10"
proof -
  obtain c where c: "demo_radix = Inr c" "rc_inv c {#}" "\<not> disable c" "page_size c = 1" "\<not> is_eagle c" by (rule demo_radix_ok) blast
  obtain sp where sp: "schedule_policy_init ''lof'' (RadixTree c) False False False (\<lambda>n. int n) (\<lambda>_. 0) = Inr sp"
    by (rule demo_policy [OF c(2)])
  let ?m = "(demo_mem c)\<lparr>req_to_token_pool := req_pool_init 2 4\<rparr>"
  let ?s = "(demo_scheduler sp (empty_batch False) ?m)\<lparr>waiting_queue := [], sc_new_token_ratio := 0\<rparr>"
  have s: "sc_mem ?s = ?m" "idle ?s" by (simp_all add: demo_scheduler_def idle_def empty_batch_def)
  have m: "token_mem (sc_mem ?s) c (token_init 4 False) {#}" unfolding s(1) using c(2,3) by (simp add: token_mem_def demo_mem_def)
  have "token_slots (token_init 4 False) = mset (map int [1..<Suc 4])" by (simp add: token_slots_def token_init_def token_clear_def)
  moreover have "tree_slots c = {#}" using radix_init_inv(3) [OF c(1) [unfolded demo_radix_def]] by simp
  ultimately have slots: "token_slots (token_init 4 False) + tree_slots c + {#} = mset (map int [1..<Suc 4])" by simp
  have cfg: "tokens_per_layer demo_sched_cfg = None" "max_total_num_tokens demo_sched_cfg = int 4" "init_new_token_ratio demo_sched_cfg = 7 / 10"
    by (simp_all add: demo_sched_cfg_def)
  have ok: "({#} :: int multiset) = {#} \<and> length (free_slots (req_to_token_pool (sc_mem ?s))) = rp_size (req_to_token_pool (sc_mem ?s))"
    unfolding s(1) by (simp add: req_pool_init_def)
  have "0 < (4 :: nat)" by simp
  note turn = idle_turn_detects_leaks [OF s(2) m cfg(1) this cfg(2) slots, unfolded if_P [OF ok] cfg(3)]
  show ?thesis using turn [of "(\<lambda>_ _. False, \<lambda>_. 0)" "\<lambda>_. []" "\<lambda>_. 0" rev "\<lambda>_. 0"] c(1) sp by blast
qed

text \<open>
  A full server with priorities: request \<open>a\<close> of low priority holds 2 of 8 slots, \<open>b\<close> of high priority
  holds 4, and \<open>c\<close> with 5 input tokens and a priority between them waits.
\<close>

definition prio_req :: "string \<Rightarrow> int list \<Rightarrow> int \<Rightarrow> int \<Rightarrow> req" where
  "prio_req i ids p new = req_init i ids [] (demo_params\<lparr>max_new_tokens := Some new\<rparr>) False False None None None (Some 100) (Some p) None"

definition prio_running :: "string \<Rightarrow> int list \<Rightarrow> int \<Rightarrow> int \<Rightarrow> req" where
  "prio_running i ids p row = (prio_req i ids p 2)\<lparr>Req.output_ids := [1], req_pool_idx := Some row, kv_committed_len := length ids,
     kv_allocated_len := length ids, fill_ids := ids, extend_input_len := int (length ids)\<rparr>"

definition prio_batch :: schedule_batch where
  "prio_batch = (empty_batch False)\<lparr>reqs := [prio_running ''a'' [10, 11] 0 0, prio_running ''b'' [20, 21, 22, 23] 100 1],
     forward_mode := Some DECODE, req_pool_indices := [0, 1], seq_lens := [2, 4], seq_lens_cpu := [2, 4], orig_seq_lens := [2, 4],
     batch_output_ids := Some [1, 1], seq_lens_sum := 6\<rparr>"

definition prio_mem :: mem_state where
  "prio_mem = \<lparr>tree_cache = Chunk (chunk_init 1), kv_allocator = TokenAlloc ((token_init 8 False)\<lparr>free_pages := [7, 8]\<rparr>),
     req_to_token_pool = \<lparr>rp_size = 3, max_context_len = 8,
       req_to_token = [[1, 2, 0, 0, 0, 0, 0, 0], [3, 4, 5, 6, 0, 0, 0, 0], [0, 0, 0, 0, 0, 0, 0, 0]], free_slots = [2]\<rparr>\<rparr>"

definition prio_cfg :: sched_cfg where
  "prio_cfg = demo_sched_cfg\<lparr>sc_enable_priority := True, max_queued_requests := None\<rparr>"

definition prio_scheduler :: "schedule_policy \<Rightarrow> scheduler" where
  "prio_scheduler sp = (demo_scheduler sp prio_batch prio_mem)\<lparr>waiting_queue := [prio_req ''c'' [30, 31, 32, 33, 34] 50 1]\<rparr>"

definition prio_outcome :: "(schedule_batch option \<times> scheduler) result result" where
  "prio_outcome = bind_r (schedule_policy_init ''fcfs'' (Chunk (chunk_init 1)) False True False (\<lambda>n. int n) (\<lambda>_. 0))
     (\<lambda>sp. Inr (get_new_batch_prefill prio_cfg (\<lambda>_. 0) rev (\<lambda>_. 0) (prio_scheduler sp)))"

definition prio_summary :: "(schedule_batch option \<times> scheduler) result \<Rightarrow> (bool \<times> string list \<times> string list \<times> abort_msg list) option" where
  "prio_summary x = (case x of Inl _ \<Rightarrow> None
     | Inr (nb, s) \<Rightarrow> Some (case nb of None \<Rightarrow> True | Some _ \<Rightarrow> False, map rid (waiting_queue s), map rid (reqs (sc_running_batch s)), outbox s))"

lemma prio_outcome_summary: "map_sum id prio_summary prio_outcome = Inr (Some (True, [''c''], [''b''], []))"
  by code_simp


end
