(* ===== verification/Static_Vocab.thy ===== *)
theory Static_Vocab
  imports Prelude Complex_Main
begin

text \<open>
  The reduced vocabulary of draft models: its configuration in \<^verbatim>\<open>configs/model_config.py\<close>, the projection of
  hidden states to the reduced vocabulary in \<^verbatim>\<open>layers/logits_processor.py\<close> over the tensor parallel shards
  of \<^verbatim>\<open>layers/vocab_parallel_embedding.py\<close>, the mapping of sampled positions back to token ids in
  \<^verbatim>\<open>layers/sampler.py\<close>, and the draft tokens of \<^verbatim>\<open>speculative/eagle_worker.py\<close>. Logits are rational numbers, in place
  of floats, and functions on a tensor whose first dimension is the batch are given for one row of it.
\<close>

section \<open>Configuration\<close>

text \<open>The functions of \<^verbatim>\<open>os.path\<close> and the lines of a file.\<close>

record vocab_fs =
  expanduser :: "string \<Rightarrow> string"
  isabs :: "string \<Rightarrow> bool"
  abspath :: "string \<Rightarrow> string"
  isdir :: "string \<Rightarrow> bool"
  path_join :: "string \<Rightarrow> string \<Rightarrow> string"
  isfile :: "string \<Rightarrow> bool"
  file_lines :: "string \<Rightarrow> string list"

fun first_file :: "vocab_fs \<Rightarrow> string list \<Rightarrow> string list \<Rightarrow> string option" where
  "first_file fs seen [] = None"
| "first_file fs seen (p # ps) =
     (if p \<in> set seen then first_file fs seen ps
      else if isfile fs p then Some (abspath fs p) else first_file fs (p # seen) ps)"

definition resolve_static_vocab_path :: "vocab_fs \<Rightarrow> string \<Rightarrow> string \<Rightarrow> string option" where
  "resolve_static_vocab_path fs model_path path =
     (let expanded = expanduser fs path
      in first_file fs [] (expanded # (if isabs fs expanded then []
           else abspath fs expanded # (if isdir fs model_path then [path_join fs model_path expanded] else []))))"

text \<open>\<^verbatim>\<open>str.strip()\<close> and \<^verbatim>\<open>int(str)\<close>, where digits may be separated by single underscores.\<close>

definition is_space :: "char \<Rightarrow> bool" where
  "is_space c = (let n = (of_char c :: nat) in 9 \<le> n \<and> n \<le> 13 \<or> 28 \<le> n \<and> n \<le> 32 \<or> n = 133 \<or> n = 160)"

definition py_strip :: "string \<Rightarrow> string" where
  "py_strip s = rev (dropWhile is_space (rev (dropWhile is_space s)))"

fun parse_digits :: "int \<Rightarrow> bool \<Rightarrow> string \<Rightarrow> int option" where
  "parse_digits acc after_digit [] = (if after_digit then Some acc else None)"
| "parse_digits acc after_digit (c # cs) =
     (let n = (of_char c :: nat)
      in if 48 \<le> n \<and> n \<le> 57 then parse_digits (10 * acc + int (n - 48)) True cs
         else if c = CHR ''_'' \<and> after_digit then parse_digits acc False cs
         else None)"

definition int_of_str :: "string \<Rightarrow> int option" where
  "int_of_str s =
     (case py_strip s of
        [] \<Rightarrow> None
      | c # cs \<Rightarrow> if c = CHR ''-'' then map_option uminus (parse_digits 0 False cs)
                   else if c = CHR ''+'' then parse_digits 0 False cs
                   else parse_digits 0 False (c # cs))"

text \<open>The result has the token ids in the order of the file, which are also those seen, and the number of invalid lines.\<close>

fun load_lines :: "int \<Rightarrow> string list \<Rightarrow> int list \<Rightarrow> nat \<Rightarrow> int list \<times> nat" where
  "load_lines vocab_size [] indices invalid = (indices, invalid)"
| "load_lines vocab_size (l # ls) indices invalid =
     (let stripped = py_strip l
      in if stripped = [] \<or> hd stripped = CHR ''#'' then load_lines vocab_size ls indices invalid
         else case int_of_str stripped of
                None \<Rightarrow> load_lines vocab_size ls indices (invalid + 1)
              | Some token_id \<Rightarrow>
                  if token_id < 0 \<or> vocab_size \<le> token_id then load_lines vocab_size ls indices (invalid + 1)
                  else if token_id \<in> set indices then load_lines vocab_size ls indices invalid
                  else load_lines vocab_size ls (indices @ [token_id]) invalid)"

definition load_static_vocab_from_file :: "vocab_fs \<Rightarrow> string \<Rightarrow> string \<Rightarrow> int \<Rightarrow> int list option \<times> string option" where
  "load_static_vocab_from_file fs model_path path vocab_size =
     (case resolve_static_vocab_path fs model_path path of
        None \<Rightarrow> (None, None)
      | Some p \<Rightarrow> (case load_lines vocab_size (file_lines fs p) [] 0 of (indices, _) \<Rightarrow>
                     (if indices = [] then None else Some indices, Some p)))"

record static_vocab =
  use_static_vocab :: bool
  static_vocab_ratio :: rat
  static_vocab_size :: int
  static_vocab_indices :: "int list option"
  static_vocab_path :: "string option"

definition custom_static_vocab :: "vocab_fs \<Rightarrow> string \<Rightarrow> int \<Rightarrow> string \<Rightarrow> static_vocab option" where
  "custom_static_vocab fs model_path vocab_size path =
     (case load_static_vocab_from_file fs model_path path vocab_size of
        (Some indices, resolved) \<Rightarrow>
          if vocab_size \<le> int (length indices) then None
          else Some \<lparr>use_static_vocab = True, static_vocab_ratio = of_nat (length indices) / of_int vocab_size,
                 static_vocab_size = int (length indices), static_vocab_indices = Some indices, static_vocab_path = resolved\<rparr>
      | (None, _) \<Rightarrow> None)"

definition static_vocab_config :: "vocab_fs \<Rightarrow> string \<Rightarrow> int \<Rightarrow> bool \<Rightarrow> bool \<Rightarrow> rat \<Rightarrow> string option \<Rightarrow> static_vocab" where
  "static_vocab_config fs model_path vocab_size is_draft_model requested_use requested_ratio custom_vocab_path =
     (let full = \<lparr>use_static_vocab = False, static_vocab_ratio = 1, static_vocab_size = vocab_size,
                   static_vocab_indices = None, static_vocab_path = None\<rparr>
      in if \<not> (is_draft_model \<and> requested_use) then full
         else case (case custom_vocab_path of None \<Rightarrow> None
                    | Some path \<Rightarrow> if path = [] then None else custom_static_vocab fs model_path vocab_size path) of
                Some sv \<Rightarrow> sv
              | None \<Rightarrow>
                  let ratio = (if 0 < requested_ratio \<and> requested_ratio \<le> 1 then requested_ratio else 1);
                      size0 = min (max 1 \<lfloor>of_int vocab_size * ratio\<rfloor>) vocab_size
                  in if size0 < vocab_size
                     then full\<lparr>use_static_vocab := True, static_vocab_size := size0,
                               static_vocab_ratio := of_int size0 / of_int vocab_size,
                               static_vocab_indices := Some (map int [0..<nat size0])\<rparr>
                     else full)"

section \<open>The logits processor\<close>

record logits_processor =
  lp_use_static :: bool
  lp_static_size :: "nat option"
  lp_indices :: "int list"
  lp_index_map :: "int \<rightharpoonup> nat"

text \<open>The arguments are attributes of the configuration; \<^verbatim>\<open>None\<close> is one that is missing.\<close>

definition logits_processor_init :: "bool \<Rightarrow> int option \<Rightarrow> int list option \<Rightarrow> int option \<Rightarrow> rat \<Rightarrow> logits_processor" where
  "logits_processor_init use_static vocab_size indices size_attr ratio =
     (let off = \<lparr>lp_use_static = False, lp_static_size = None, lp_indices = [], lp_index_map = Map.empty\<rparr>;
          target = (case size_attr of Some n \<Rightarrow> n
                    | None \<Rightarrow> (case vocab_size of Some v \<Rightarrow> max 1 \<lfloor>of_int v * ratio\<rfloor> | None \<Rightarrow> 0));
          ids = (case indices of Some l \<Rightarrow> l | None \<Rightarrow> map int [0..<nat target])
      in if \<not> use_static \<or> (case vocab_size of Some v \<Rightarrow> v \<le> int (length ids) | None \<Rightarrow> False) \<or> ids = [] then off
         else \<lparr>lp_use_static = True, lp_static_size = Some (length ids), lp_indices = ids,
               lp_index_map = map_of (rev (zip ids [0..<length ids]))\<rparr>)"

text \<open>The shards of a vocabulary parallel weight.\<close>

definition pad_vocab_size :: "int \<Rightarrow> int \<Rightarrow> int" where
  "pad_vocab_size vocab_size pad_to = (vocab_size + pad_to - 1) div pad_to * pad_to"

definition vocab_range_from_per_partition_vocab_size :: "int \<Rightarrow> int \<Rightarrow> int \<Rightarrow> int \<times> int" where
  "vocab_range_from_per_partition_vocab_size per_partition rank offset =
     (rank * per_partition + offset, rank * per_partition + per_partition + offset)"

definition divide_exact :: "int \<Rightarrow> int \<Rightarrow> int result" where
  "divide_exact numerator denominator = assert_r (numerator mod denominator = 0) (Inr (numerator div denominator))"

definition vocab_range_from_global_vocab_size :: "int \<Rightarrow> int \<Rightarrow> int \<Rightarrow> int \<Rightarrow> (int \<times> int) result" where
  "vocab_range_from_global_vocab_size global rank world_size offset =
     bind_r (divide_exact global world_size) (\<lambda>per. Inr (vocab_range_from_per_partition_vocab_size per rank offset))"

record shard_indices =
  padded_org_start :: int
  padded_org_end :: int
  padded_added_start :: int
  padded_added_end :: int
  org_start :: int
  org_end :: int
  added_start :: int
  added_end :: int

definition check_shard :: "shard_indices \<Rightarrow> shard_indices result" where
  "check_shard s =
     assert_r (padded_org_start s \<le> padded_org_end s \<and> padded_added_start s \<le> padded_added_end s \<and>
       org_start s \<le> org_end s \<and> added_start s \<le> added_end s \<and>
       org_start s \<le> padded_org_start s \<and> added_start s \<le> padded_added_start s \<and>
       org_end s \<le> padded_org_end s \<and> added_end s \<le> padded_added_end s \<and>
       org_end s - org_start s \<le> padded_org_end s - padded_org_start s \<and>
       added_end s - added_start s \<le> padded_added_end s - padded_added_start s) (Inr s)"

definition get_indices :: "int \<Rightarrow> int \<Rightarrow> int \<Rightarrow> int \<Rightarrow> int \<Rightarrow> int \<Rightarrow> shard_indices result" where
  "get_indices vocab_size_padded org_vocab_size_padded vocab_size org_vocab_size tp_rank tp_size =
     bind_r (vocab_range_from_global_vocab_size org_vocab_size_padded tp_rank tp_size 0) (\<lambda>(ps, pe).
     bind_r (vocab_range_from_global_vocab_size (vocab_size_padded - org_vocab_size_padded) tp_rank tp_size org_vocab_size) (\<lambda>(as, ae).
     let s = \<lparr>padded_org_start = ps, padded_org_end = pe, padded_added_start = as, padded_added_end = ae,
              org_start = min ps org_vocab_size, org_end = min pe org_vocab_size,
              added_start = min as vocab_size, added_end = min ae vocab_size\<rparr>
     in check_shard s))"

record lm_head =
  head_shard :: shard_indices
  num_embeddings_per_partition :: int
  num_org_embeddings_per_partition :: int
  head_weight :: "rat list list"

text \<open>
  \<^verbatim>\<open>weight_loader\<close> with the full weight, a list of rows of length \<open>width\<close>, for an unpacked parameter of \<open>per\<close> rows.
\<close>

definition load_weight :: "int \<Rightarrow> nat \<Rightarrow> int \<Rightarrow> shard_indices \<Rightarrow> rat list list \<Rightarrow> rat list list result" where
  "load_weight org_vocab_size width per s full_weight =
     assert_r (int (length full_weight) = org_vocab_size)
       (let rows = take (nat (org_end s - org_start s)) (drop (nat (org_start s)) full_weight)
        in Inr (rows @ replicate (nat per - length rows) (replicate width 0)))"

text \<open>
  The constructor for a rank, without added embeddings and padding for CPUs, followed by the loading of
  the weight.
\<close>

definition lm_head_init :: "int \<Rightarrow> int \<Rightarrow> nat \<Rightarrow> int \<Rightarrow> rat list list \<Rightarrow> int \<Rightarrow> lm_head result" where
  "lm_head_init num_embeddings padding_size width tp_size full_weight tp_rank =
     (let org_padded = pad_vocab_size num_embeddings padding_size;
          padded = pad_vocab_size (org_padded + (num_embeddings - num_embeddings)) padding_size
      in assert_r (org_padded \<le> padded)
         (bind_r (get_indices padded org_padded num_embeddings num_embeddings tp_rank tp_size) (\<lambda>s.
          bind_r (divide_exact padded tp_size) (\<lambda>per.
          assert_r ((padded_org_end s - padded_org_start s) + (padded_added_end s - padded_added_start s) = per)
          (bind_r (load_weight num_embeddings width per s full_weight) (\<lambda>w.
           Inr \<lparr>head_shard = s, num_embeddings_per_partition = per, num_org_embeddings_per_partition = org_end s - org_start s, head_weight = w\<rparr>))))))"

fun results :: "'a result list \<Rightarrow> 'a list result" where
  "results [] = Inr []"
| "results (x # xs) = bind_r x (\<lambda>y. bind_r (results xs) (\<lambda>ys. Inr (y # ys)))"

text \<open>The heads of all ranks.\<close>

definition parallel_lm_heads :: "int \<Rightarrow> int \<Rightarrow> nat \<Rightarrow> nat \<Rightarrow> rat list list \<Rightarrow> lm_head list result" where
  "parallel_lm_heads num_embeddings padding_size width tp_size full_weight =
     results (map (\<lambda>r. lm_head_init num_embeddings padding_size width (int tp_size) full_weight (int r)) [0..<tp_size])"

definition index_select :: "'a list \<Rightarrow> int list \<Rightarrow> 'a list result" where
  "index_select xs is =
     (if list_all (\<lambda>i. 0 \<le> i \<and> i < int (length xs)) is then Inr (map (\<lambda>i. xs ! nat i) is) else Inl IndexError)"

text \<open>Indexing with a list of indices, where negative ones count from the end.\<close>

definition adv_index :: "'a list \<Rightarrow> int list \<Rightarrow> 'a list result" where
  "adv_index xs is =
     (if list_all (\<lambda>i. - int (length xs) \<le> i \<and> i < int (length xs)) is
      then Inr (map (\<lambda>i. xs ! nat (if i < 0 then i + int (length xs) else i)) is) else Inl IndexError)"

definition index_copy :: "'a list \<Rightarrow> int list \<Rightarrow> 'a list \<Rightarrow> 'a list result" where
  "index_copy xs is vs =
     (if list_all (\<lambda>i. 0 \<le> i \<and> i < int (length xs)) is then Inr (fold (\<lambda>(i, v) ys. ys[nat i := v]) (zip is vs) xs) else Inl IndexError)"

definition dot :: "rat list \<Rightarrow> rat list \<Rightarrow> rat" where
  "dot h w = sum_list (map2 (*) h w)"

definition get_partition_static_relative_indices :: "logits_processor \<Rightarrow> int \<Rightarrow> int \<Rightarrow> int list result" where
  "get_partition_static_relative_indices lp local_start local_end =
     (if \<not> lp_use_static lp \<or> lp_static_size lp = None then Inl RuntimeError
      else Inr (map (\<lambda>t. t - local_start) (filter (\<lambda>t. local_start \<le> t \<and> t < local_end) (lp_indices lp))))"

text \<open>\<open>fill\<close> is the least value of the float type.\<close>

definition matmul_static_vocab_parallel :: "rat \<Rightarrow> logits_processor \<Rightarrow> rat list \<Rightarrow> lm_head \<Rightarrow> rat list result" where
  "matmul_static_vocab_parallel fill lp h lm =
     assert_r (lp_static_size lp \<noteq> None)
       (let local_logits = replicate (nat (num_embeddings_per_partition lm)) fill
        in bind_r (get_partition_static_relative_indices lp (org_start (head_shard lm)) (org_end (head_shard lm))) (\<lambda>is.
           if is = [] then Inr local_logits
           else bind_r (index_select (take (nat (num_org_embeddings_per_partition lm)) (head_weight lm)) is) (\<lambda>ws.
                index_copy local_logits is (map (dot h) ws))))"

definition matmul_full :: "rat list \<Rightarrow> lm_head \<Rightarrow> rat list" where
  "matmul_full h lm = map (dot h) (head_weight lm)"

text \<open>
  \<^verbatim>\<open>_get_logits\<close>: all shards are gathered in rank order. \<open>scale\<close> is the logit scale and \<open>softcap\<close> the final soft
  capping, when configured. The second result are the active static indices.
\<close>

definition get_logits :: "rat \<Rightarrow> rat option \<Rightarrow> (rat \<Rightarrow> rat) option \<Rightarrow> int \<Rightarrow> logits_processor \<Rightarrow> lm_head list \<Rightarrow> rat list \<Rightarrow> (rat list \<times> int list option) result" where
  "get_logits fill scale softcap vocab_size lp heads h =
     bind_r (results (map (\<lambda>lm. if lp_use_static lp then matmul_static_vocab_parallel fill lp h lm else Inr (matmul_full h lm)) heads)) (\<lambda>parts.
     let scaled = (\<lambda>x. case scale of None \<Rightarrow> x | Some c \<Rightarrow> x * c);
         logits = concat (map (map scaled) parts);
         cap = (case softcap of None \<Rightarrow> id | Some f \<Rightarrow> f)
     in if lp_use_static lp \<and> lp_static_size lp \<noteq> None \<and> lp_static_size lp \<noteq> Some 0
        then bind_r (index_select logits (lp_indices lp)) (\<lambda>ls. Inr (map cap ls, Some (lp_indices lp)))
        else Inr (map cap (take (nat vocab_size) logits), None))"

text \<open>\<^verbatim>\<open>torch.argmax\<close> returns the first of the largest values; the sampler then maps it to a token id.\<close>

definition argmax :: "rat list \<Rightarrow> int" where
  "argmax xs = int (the (find (\<lambda>i. list_all (\<lambda>x. x \<le> xs ! i) xs) [0..<length xs]))"

definition map_sampled :: "int list option \<Rightarrow> int \<Rightarrow> int result" where
  "map_sampled mapping i =
     (case mapping of None \<Rightarrow> Inr i | Some ids \<Rightarrow> bind_r (adv_index ids [i]) (\<lambda>r. Inr (hd r)))"

definition greedy_token :: "rat list \<times> int list option \<Rightarrow> int result" where
  "greedy_token out = map_sampled (snd out) (argmax (fst out))"

text \<open>The ids of top log probabilities, given the positions of \<^verbatim>\<open>topk\<close>.\<close>

definition top_logprob_ids :: "logits_processor \<Rightarrow> int list \<Rightarrow> int list result" where
  "top_logprob_ids lp row = (if lp_use_static lp \<and> lp_indices lp \<noteq> [] then adv_index (lp_indices lp) row else Inr row)"

text \<open>The log probabilities of given tokens at one position.\<close>

definition gather_token_logprobs :: "rat \<Rightarrow> logits_processor \<Rightarrow> rat list \<Rightarrow> int list \<Rightarrow> rat list result" where
  "gather_token_logprobs fill lp logprobs tokens =
     (if tokens = [] then Inr []
      else if \<not> lp_use_static lp then adv_index logprobs tokens
      else let mapping = (\<lambda>col. lp_index_map lp (tokens ! col));
               valid = filter (\<lambda>col. mapping col \<noteq> None) [0..<length tokens]
           in if valid = [] then Inr (replicate (length tokens) fill)
              else bind_r (index_select logprobs (map (\<lambda>col. int (the (mapping col))) valid)) (\<lambda>gathered.
                   Inr (fold (\<lambda>(col, x) row. row[col := x]) (zip valid gathered) (replicate (length tokens) fill))))"

section \<open>Draft tokens\<close>

text \<open>
  \<^verbatim>\<open>draft_forward\<close> of the EAGLE worker takes the positions of the largest probabilities as token ids, after
  mapping them by \<^verbatim>\<open>hot_token_id\<close> when a token map is configured.
\<close>

definition draft_token_ids :: "int list option \<Rightarrow> int list \<Rightarrow> int list result" where
  "draft_token_ids hot_token_id topk_index =
     (case hot_token_id of None \<Rightarrow> Inr topk_index | Some hot \<Rightarrow> adv_index hot topk_index)"

section \<open>Lemmas\<close>

definition vocab_ids :: "int \<Rightarrow> int list \<Rightarrow> bool" where
  "vocab_ids v ids \<longleftrightarrow> ids \<noteq> [] \<and> distinct ids \<and> set ids \<subseteq> {0..<v} \<and> int (length ids) < v"

lemma load_lines_ids:
  assumes "load_lines v ls ids k = (ids', k')" and "distinct ids" and "set ids \<subseteq> {0..<v}"
  shows "distinct ids' \<and> set ids' \<subseteq> {0..<v}"
  using assms
proof (induction v ls ids k arbitrary: ids' k' rule: load_lines.induct)
  case (2 v l ls ids k)
  then show ?case by (auto simp: Let_def split: if_splits option.splits)
qed simp

lemma custom_static_vocab_ok:
  assumes "custom_static_vocab fs mp v path = Some sv"
  shows "\<exists>ids. vocab_ids v ids \<and> sv = \<lparr>use_static_vocab = True, static_vocab_ratio = of_nat (length ids) / of_int v,
    static_vocab_size = int (length ids), static_vocab_indices = Some ids, static_vocab_path = resolve_static_vocab_path fs mp path\<rparr>"
proof -
  obtain p ids k where p: "resolve_static_vocab_path fs mp path = Some p" "load_lines v (file_lines fs p) [] 0 = (ids, k)"
    "ids \<noteq> []" "int (length ids) < v" "sv = \<lparr>use_static_vocab = True, static_vocab_ratio = of_nat (length ids) / of_int v,
      static_vocab_size = int (length ids), static_vocab_indices = Some ids, static_vocab_path = Some p\<rparr>"
    using assms by (auto simp: custom_static_vocab_def load_static_vocab_from_file_def split: option.splits prod.splits if_splits)
  have "vocab_ids v ids" using load_lines_ids [OF p(2)] p(3,4) by (simp add: vocab_ids_def)
  then show ?thesis using p(1,5) by auto
qed

lemma prefix_vocab_ids: "1 \<le> n \<Longrightarrow> n < v \<Longrightarrow> vocab_ids v (map int [0..<nat n])"
  by (auto simp: vocab_ids_def distinct_map)

lemma index_map_inverse:
  assumes "distinct ids" and "i < length ids" shows "map_of (rev (zip ids [0..<length ids])) (ids ! i) = Some i"
proof (rule map_of_is_SomeI)
  show "distinct (map fst (rev (zip ids [0..<length ids])))" using assms(1) by (simp add: rev_map [symmetric])
  show "(ids ! i, i) \<in> set (rev (zip ids [0..<length ids]))" using assms(2) by (auto simp: set_zip)
qed

lemma results_map: "(\<And>x. x \<in> set xs \<Longrightarrow> f x = Inr (g x)) \<Longrightarrow> results (map f xs) = Inr (map g xs)"
  by (induction xs) auto

lemma results_nth: "results xs = Inr ys \<Longrightarrow> length ys = length xs \<and> (\<forall>i < length xs. xs ! i = Inr (ys ! i))"
proof (induction xs arbitrary: ys)
  case (Cons x xs)
  then obtain y zs where "x = Inr y" "results xs = Inr zs" "ys = y # zs" by (auto simp: bind_r_eq_Inr)
  then show ?case using Cons.IH [of zs] by (auto simp: nth_Cons split: nat.splits)
qed simp

lemma concat_nth:
  "\<forall>xs \<in> set xss. length xs = n \<Longrightarrow> r < length xss \<Longrightarrow> j < n \<Longrightarrow> concat xss ! (r * n + j) = xss ! r ! j"
proof (induction xss arbitrary: r)
  case (Cons xs xss)
  then show ?case by (cases r) (auto simp: nth_append)
qed simp

lemma length_concat_all: "\<forall>xs \<in> set xss. length xs = n \<Longrightarrow> length (concat xss) = length xss * n"
  by (induction xss) auto

lemma fold_copy_nth:
  assumes "\<forall>i \<in> set is. 0 \<le> i \<and> i < int (length xs)"
  shows "length (fold (\<lambda>(i, v) ys. ys[nat i := v]) (zip is (map f is)) xs) = length xs \<and>
    (\<forall>k < length xs. fold (\<lambda>(i, v) ys. ys[nat i := v]) (zip is (map f is)) xs ! k = (if int k \<in> set is then f (int k) else xs ! k))"
  using assms
proof (induction "is" arbitrary: xs)
  case (Cons i "is")
  then have "\<forall>j \<in> set is. 0 \<le> j \<and> j < int (length (xs[nat i := f i]))" by simp
  from Cons.IH [OF this] show ?case using Cons.prems by (auto simp: nth_list_update)
qed simp

lemma pad_vocab_size_facts:
  assumes "0 < pad" shows "pad dvd pad_vocab_size v pad" "v \<le> pad_vocab_size v pad" "pad_vocab_size (pad_vocab_size v pad) pad = pad_vocab_size v pad"
proof -
  show d: "pad dvd pad_vocab_size v pad" by (simp add: pad_vocab_size_def)
  have "(v + pad - 1) mod pad < pad" using assms by simp
  then show "v \<le> pad_vocab_size v pad" unfolding pad_vocab_size_def using div_mult_mod_eq [of "v + pad - 1" pad] by linarith
  obtain k where "pad_vocab_size v pad = pad * k" using d by blast
  moreover have "(pad * k + pad - 1) div pad = k"
    using div_mult_self4 [of pad k "pad - 1"] assms div_pos_pos_trivial [of "pad - 1" pad] by (simp add: algebra_simps)
  ultimately show "pad_vocab_size (pad_vocab_size v pad) pad = pad_vocab_size v pad"
    using pad_vocab_size_def [of "pad_vocab_size v pad" pad] by (simp add: mult.commute)
qed

lemma lm_head_init_facts:
  assumes "lm_head_init v pad width (int tp) W r = Inr lm" and "0 < pad" and "0 < tp" and "0 \<le> r"
  shows "\<exists>per. num_embeddings_per_partition lm = per \<and> 0 \<le> per \<and> per * int tp = pad_vocab_size v pad \<and> int (length W) = v \<and>
    org_start (head_shard lm) = min (r * per) v \<and> org_end (head_shard lm) = min (r * per + per) v \<and>
    take (nat (num_org_embeddings_per_partition lm)) (head_weight lm)
      = take (nat (min (r * per + per) v - min (r * per) v)) (drop (nat (min (r * per) v)) W)"
proof -
  let ?p = "pad_vocab_size v pad"
  note q = pad_vocab_size_facts [OF assms(2), of v]
  define per where "per = ?p div int tp"
  have i: "int tp dvd ?p" "int (length W) = v"
    and s: "org_start (head_shard lm) = min (r * per) v" "org_end (head_shard lm) = min (r * per + per) v"
      "num_embeddings_per_partition lm = per" "num_org_embeddings_per_partition lm = min (r * per + per) v - min (r * per) v"
    and w: "\<exists>zs. head_weight lm = take (nat (min (r * per + per) v - min (r * per) v)) (drop (nat (min (r * per) v)) W) @ zs"
    using assms(1) by (auto simp: lm_head_init_def load_weight_def get_indices_def check_shard_def vocab_range_from_global_vocab_size_def divide_exact_def
        vocab_range_from_per_partition_vocab_size_def Let_def bind_r_eq_Inr assert_r_eq_Inr q(3) per_def)
  have "0 \<le> ?p" using q(2) i(2) by linarith
  then have per: "0 \<le> per" "per * int tp = ?p" using i(1) assms(3) by (simp_all add: per_def pos_imp_zdiv_nonneg_iff)
  have "min (r * per + per) v \<le> v" "0 \<le> min (r * per) v" using per(1) assms(4) i(2) by auto
  then have "length (take (nat (min (r * per + per) v - min (r * per) v)) (drop (nat (min (r * per) v)) W)) = nat (min (r * per + per) v - min (r * per) v)"
    using i(2) by auto
  then show ?thesis using s w per i(2) by auto
qed

text \<open>The local logits of a rank hold the logit of each static token of the rank.\<close>

lemma matmul_static_spec:
  assumes lp: "lp_use_static lp" "lp_static_size lp = Some n" and lm: "lm_head_init v pad width (int tp) W r = Inr lm"
    and pos: "0 < pad" "0 < tp" "0 \<le> r" and per: "num_embeddings_per_partition lm = per"
  shows "\<exists>L. matmul_static_vocab_parallel fill lp h lm = Inr L \<and> length L = nat per \<and>
    (\<forall>t \<in> set (lp_indices lp). min (r * per) v \<le> t \<and> t < min (r * per + per) v \<longrightarrow> L ! nat (t - min (r * per) v) = dot h (W ! nat t))"
proof -
  define a where "a = min (r * per) v"
  define b where "b = min (r * per + per) v"
  define js where "js = map (\<lambda>t. t - a) (filter (\<lambda>t. a \<le> t \<and> t < b) (lp_indices lp))"
  have f: "0 \<le> per" "int (length W) = v" "org_start (head_shard lm) = a" "org_end (head_shard lm) = b"
    "take (nat (num_org_embeddings_per_partition lm)) (head_weight lm) = take (nat (b - a)) (drop (nat a) W)"
    using lm_head_init_facts [OF lm pos] per unfolding a_def b_def by auto
  let ?f = "\<lambda>i. dot h (W ! nat (i + a))"
  have a0: "0 \<le> a" "b - a \<le> per" "b \<le> v" using f(1,2) pos(3) by (auto simp: a_def b_def)
  then have len: "length (take (nat (b - a)) (drop (nat a) W)) = nat (b - a)" using f(2) by auto
  have rng: "\<forall>i \<in> set js. 0 \<le> i \<and> i < b - a" by (auto simp: js_def)
  have sel: "index_select (take (nat (b - a)) (drop (nat a) W)) js = Inr (map (\<lambda>i. W ! nat (i + a)) js)"
  proof -
    have "list_all (\<lambda>i. 0 \<le> i \<and> i < int (length (take (nat (b - a)) (drop (nat a) W)))) js"
      unfolding len list_all_iff using rng by auto
    moreover have "take (nat (b - a)) (drop (nat a) W) ! nat i = W ! nat (i + a)" if "i \<in> set js" for i
    proof -
      have "0 \<le> i" "i < b - a" using that rng by auto
      moreover then have "nat a + nat i \<le> length W" using a0(1,3) f(2) by linarith
      ultimately show ?thesis using a0(1) by (simp add: nat_add_distrib add.commute)
    qed
    ultimately show ?thesis by (auto simp: index_select_def)
  qed
  let ?base = "replicate (nat per) fill"
  let ?L = "fold (\<lambda>(i, v) ys. ys[nat i := v]) (zip js (map ?f js)) ?base"
  have rng': "\<forall>i \<in> set js. 0 \<le> i \<and> i < int (length ?base)" using rng a0(2) f(1) by fastforce
  then have cp: "index_copy ?base js (map (dot h) (map (\<lambda>i. W ! nat (i + a)) js)) = Inr ?L"
    by (simp add: index_copy_def list_all_iff comp_def)
  have "matmul_static_vocab_parallel fill lp h lm = Inr ?L"
  proof (cases "js = []")
    case True
    then show ?thesis using lp f(3,4) per by (simp add: js_def [symmetric] matmul_static_vocab_parallel_def get_partition_static_relative_indices_def Let_def)
  next
    case False
    then show ?thesis using lp f(3-5) per sel cp
      by (simp add: js_def [symmetric] matmul_static_vocab_parallel_def get_partition_static_relative_indices_def Let_def del: map_map)
  qed
  moreover have "?L ! nat (t - a) = dot h (W ! nat t)" if "t \<in> set (lp_indices lp)" "a \<le> t" "t < b" for t
  proof -
    have "t - a \<in> set js" using that by (auto simp: js_def)
    moreover have "nat (t - a) < length ?base" using that a0(2) by auto
    ultimately show ?thesis using fold_copy_nth [OF rng', of ?f] that(2) by auto
  qed
  ultimately show ?thesis
    unfolding a_def [symmetric] b_def [symmetric] using fold_copy_nth [OF rng', of ?f] by (intro exI [of _ ?L]) auto
qed

definition final_logit :: "rat option \<Rightarrow> (rat \<Rightarrow> rat) option \<Rightarrow> rat \<Rightarrow> rat" where
  "final_logit scale softcap x = (case softcap of None \<Rightarrow> id | Some f \<Rightarrow> f) (case scale of None \<Rightarrow> x | Some c \<Rightarrow> x * c)"

lemma gathered_logits:
  assumes heads: "parallel_lm_heads v pad width tp W = Inr heads" "0 < pad" "0 < tp"
    and lp: "lp_use_static lp" "lp_static_size lp = Some n"
  shows "\<exists>parts. results (map (matmul_static_vocab_parallel fill lp h) heads) = Inr parts \<and>
    (\<forall>t \<in> set (lp_indices lp). 0 \<le> t \<and> t < v \<longrightarrow> nat t < length (concat parts) \<and> concat parts ! nat t = dot h (W ! nat t))"
proof -
  have hs: "length heads = tp" "\<And>r. r < tp \<Longrightarrow> lm_head_init v pad width (int tp) W (int r) = Inr (heads ! r)"
    using results_nth [OF heads(1) [unfolded parallel_lm_heads_def]] by auto
  define per where "per = num_embeddings_per_partition (heads ! 0)"
  have per0: "0 \<le> per" "per * int tp = pad_vocab_size v pad"
    using lm_head_init_facts [OF hs(2) [of 0] heads(2,3)] heads(3) by (auto simp: per_def)
  have per: "num_embeddings_per_partition (heads ! r) = per" if r: "r < tp" for r
  proof -
    have "num_embeddings_per_partition (heads ! r) * int tp = per * int tp"
      using lm_head_init_facts [OF hs(2) [OF r] heads(2,3)] per0(2) by auto
    then show ?thesis using heads(3) by simp
  qed
  have "\<forall>r. \<exists>L. r < tp \<longrightarrow> matmul_static_vocab_parallel fill lp h (heads ! r) = Inr L \<and> length L = nat per \<and>
    (\<forall>t \<in> set (lp_indices lp). min (int r * per) v \<le> t \<and> t < min (int r * per + per) v \<longrightarrow> L ! nat (t - min (int r * per) v) = dot h (W ! nat t))"
    using matmul_static_spec [OF lp hs(2) heads(2,3) _ per] by simp
  from choice [OF this] obtain P where P0: "\<forall>r. r < tp \<longrightarrow> matmul_static_vocab_parallel fill lp h (heads ! r) = Inr (P r) \<and> length (P r) = nat per \<and>
    (\<forall>t \<in> set (lp_indices lp). min (int r * per) v \<le> t \<and> t < min (int r * per + per) v \<longrightarrow> P r ! nat (t - min (int r * per) v) = dot h (W ! nat t))"
    by blast
  have P: "\<And>r. r < tp \<Longrightarrow> matmul_static_vocab_parallel fill lp h (heads ! r) = Inr (P r) \<and> length (P r) = nat per"
    "\<And>r t. r < tp \<Longrightarrow> t \<in> set (lp_indices lp) \<Longrightarrow> min (int r * per) v \<le> t \<Longrightarrow> t < min (int r * per + per) v \<Longrightarrow>
      P r ! nat (t - min (int r * per) v) = dot h (W ! nat t)"
    using P0 by blast+
  let ?parts = "map P [0..<tp]"
  have "map (matmul_static_vocab_parallel fill lp h) heads = map (\<lambda>r. matmul_static_vocab_parallel fill lp h (heads ! r)) [0..<tp]"
    by (rule nth_equalityI) (simp_all add: hs(1))
  then have res: "results (map (matmul_static_vocab_parallel fill lp h) heads) = Inr ?parts"
    using results_map [of "[0..<tp]" "\<lambda>r. matmul_static_vocab_parallel fill lp h (heads ! r)" P] P(1) by simp
  have len: "\<forall>xs \<in> set ?parts. length xs = nat per" using P(1) by auto
  have "nat t < length (concat ?parts) \<and> concat ?parts ! nat t = dot h (W ! nat t)" if t: "t \<in> set (lp_indices lp)" "0 \<le> t" "t < v" for t
  proof -
    have lt: "t < per * int tp" using t(3) pad_vocab_size_facts(2) [OF heads(2), of v] per0(2) by linarith
    then have pos: "0 < per" using t(2) per0(1) by (cases "per = 0") auto
    let ?r = "nat (t div per)" and ?j = "nat (t mod per)"
    have e: "t = t div per * per + t mod per" "0 \<le> t mod per" "t mod per < per" using pos by simp_all
    have d0: "0 \<le> t div per" using pos t(2) by (simp add: pos_imp_zdiv_nonneg_iff)
    have "t div per < int tp"
    proof (rule ccontr)
      assume "\<not> t div per < int tp"
      then have "int tp * per \<le> t div per * per" using pos by (intro mult_right_mono) simp_all
      then show False using e(1,2) lt mult.commute [of per "int tp"] by linarith
    qed
    then have r: "?r < tp" "int ?r = t div per" using d0 by (simp_all add: nat_less_iff)
    have nt: "nat t = ?r * nat per + ?j"
    proof -
      have "int (?r * nat per + ?j) = t" using e pos r(2) by simp
      then show ?thesis by linarith
    qed
    have "concat ?parts ! nat t = P ?r ! ?j" using concat_nth [OF len, of ?r ?j] r(1) e nt by simp
    moreover have "min (int ?r * per) v = t - t mod per" "t < min (int ?r * per + per) v" unfolding r(2) using e t(3) by linarith+
    moreover have "nat t < length (concat ?parts)" using length_concat_all [OF len] lt pos t(2) by (simp add: nat_less_iff mult.commute [of "int tp"])
    ultimately show ?thesis using P(2) [OF r(1) t(1)] e(2) by simp
  qed
  then show ?thesis using res by blast
qed

lemma get_logits_static:
  assumes heads: "parallel_lm_heads v pad width tp W = Inr heads" "0 < pad" "0 < tp"
    and lp: "lp_use_static lp" "lp_static_size lp = Some n" "0 < n" and ids: "set (lp_indices lp) \<subseteq> {0..<v}"
  shows "get_logits fill scale softcap v lp heads h
    = Inr (map (\<lambda>t. final_logit scale softcap (dot h (W ! nat t))) (lp_indices lp), Some (lp_indices lp))"
proof -
  obtain parts where p: "results (map (matmul_static_vocab_parallel fill lp h) heads) = Inr parts"
    "\<And>t. t \<in> set (lp_indices lp) \<Longrightarrow> nat t < length (concat parts) \<and> concat parts ! nat t = dot h (W ! nat t)"
    using gathered_logits [OF heads lp(1,2), of fill h] ids by fastforce
  let ?sc = "\<lambda>x. case scale of None \<Rightarrow> x | Some c \<Rightarrow> x * c"
  have "concat (map (map ?sc) parts) = map ?sc (concat parts)" by (simp add: map_concat)
  moreover have "index_select (map ?sc (concat parts)) (lp_indices lp) = Inr (map (\<lambda>t. ?sc (dot h (W ! nat t))) (lp_indices lp))"
  proof -
    have "\<forall>i \<in> set (lp_indices lp). 0 \<le> i \<and> i < int (length (map ?sc (concat parts)))" using p(2) ids by (fastforce simp: nat_less_iff)
    then show ?thesis using p(2) by (auto simp: index_select_def list_all_iff cong: option.case_cong)
  qed
  ultimately show ?thesis using p(1) lp by (simp add: get_logits_def final_logit_def comp_def)
qed

lemma argmax_spec:
  assumes "xs \<noteq> []" shows "\<exists>i < length xs. argmax xs = int i \<and> (\<forall>x \<in> set xs. x \<le> xs ! i)"
proof -
  have "Max (set xs) \<in> set xs" using assms by simp
  then obtain j where "j < length xs" "xs ! j = Max (set xs)" by (metis in_set_conv_nth)
  then have "list_all (\<lambda>x. x \<le> xs ! j) xs" "j \<in> set [0..<length xs]" by (simp_all add: list_all_iff)
  then obtain i where "find (\<lambda>i. list_all (\<lambda>x. x \<le> xs ! i) xs) [0..<length xs] = Some i"
    by (cases "find (\<lambda>i. list_all (\<lambda>x. x \<le> xs ! i) xs) [0..<length xs]") (auto simp: find_None_iff)
  moreover from this have "i < length xs" "list_all (\<lambda>x. x \<le> xs ! i) xs" by (auto simp: find_Some_iff)
  ultimately show ?thesis by (intro exI [of _ i]) (simp add: argmax_def list_all_iff)
qed

lemma logits_processor_init_static:
  assumes "vocab_ids v ids"
  shows "logits_processor_init True (Some v) (Some ids) sz ratio = \<lparr>lp_use_static = True, lp_static_size = Some (length ids),
    lp_indices = ids, lp_index_map = map_of (rev (zip ids [0..<length ids]))\<rparr>"
  using assms by (simp add: logits_processor_init_def vocab_ids_def)

lemma map_sampled_position: "i < length ids \<Longrightarrow> map_sampled (Some ids) (int i) = Inr (ids ! i)"
  by (simp add: map_sampled_def adv_index_def)

lemma index_map_find:
  assumes "distinct ids" shows "map_of (rev (zip ids [0..<length ids])) t = find (\<lambda>i. ids ! i = t) [0..<length ids]"
proof (cases "t \<in> set ids")
  case True
  then obtain i where i: "i < length ids" "ids ! i = t" by (metis in_set_conv_nth)
  then have "\<not> (\<exists>j < i. ids ! j = t)" using assms nth_eq_iff_index_eq [OF assms] by fastforce
  then have "find (\<lambda>i. ids ! i = t) [0..<length ids] = Some i" using i by (auto simp: find_Some_iff)
  then show ?thesis using index_map_inverse [OF assms i(1)] i(2) by simp
next
  case False
  then have "map_of (rev (zip ids [0..<length ids])) t = None" by (auto simp: map_of_eq_None_iff dest: set_zip_leftD)
  moreover have "find (\<lambda>i. ids ! i = t) [0..<length ids] = None" using False by (auto simp: find_None_iff)
  ultimately show ?thesis by simp
qed

lemma fold_columns:
  assumes "\<forall>c \<in> set cs. c < length row"
  shows "length (fold (\<lambda>(col, x) row. row[col := x]) (zip cs (map f cs)) row) = length row \<and>
    (\<forall>k < length row. fold (\<lambda>(col, x) row. row[col := x]) (zip cs (map f cs)) row ! k = (if k \<in> set cs then f k else row ! k))"
  using assms
proof (induction cs arbitrary: row)
  case (Cons c cs)
  then have "\<forall>d \<in> set cs. d < length (row[c := f c])" by simp
  from Cons.IH [OF this] show ?case using Cons.prems by (auto simp: nth_list_update)
qed simp

text \<open>The log probability of a requested token: that of its position, or the fill value outside the vocabulary.\<close>

lemma gather_token_logprobs_exact:
  assumes "vocab_ids v ids" and len: "length logprobs = length ids"
  shows "gather_token_logprobs fill (logits_processor_init True (Some v) (Some ids) sz ratio) logprobs tokens
    = Inr (map (\<lambda>t. case find (\<lambda>i. ids ! i = t) [0..<length ids] of Some i \<Rightarrow> logprobs ! i | None \<Rightarrow> fill) tokens)"
proof -
  define m where "m = (\<lambda>t. find (\<lambda>i. ids ! i = t) [0..<length ids])"
  define valid where "valid = filter (\<lambda>col. m (tokens ! col) \<noteq> None) [0..<length tokens]"
  let ?f = "\<lambda>col. logprobs ! the (m (tokens ! col))"
  let ?row = "replicate (length tokens) fill"
  have lp: "lp_use_static (logits_processor_init True (Some v) (Some ids) sz ratio)"
    "lp_index_map (logits_processor_init True (Some v) (Some ids) sz ratio) = m"
    using index_map_find [of ids] assms(1) by (auto simp: logits_processor_init_static [OF assms(1)] m_def fun_eq_iff vocab_ids_def)
  have "the (m t) < length logprobs" if t: "m t \<noteq> None" for t
  proof -
    obtain i where "m t = Some i" using t by auto
    moreover from this have "i < length ids" by (auto simp: m_def find_Some_iff)
    ultimately show ?thesis using len by simp
  qed
  then have sel: "index_select logprobs (map (\<lambda>col. int (the (m (tokens ! col)))) valid) = Inr (map ?f valid)"
    by (auto simp: index_select_def list_all_iff valid_def)
  have res: "fold (\<lambda>(col, x) row. row[col := x]) (zip valid (map ?f valid)) ?row
      = map (\<lambda>t. case m t of Some i \<Rightarrow> logprobs ! i | None \<Rightarrow> fill) tokens"
    using fold_columns [of valid ?row ?f] by (intro nth_equalityI) (auto simp: valid_def split: option.splits)
  have "valid = [] \<Longrightarrow> ?row = map (\<lambda>t. case m t of Some i \<Rightarrow> logprobs ! i | None \<Rightarrow> fill) tokens" using res by simp
  then have "gather_token_logprobs fill (logits_processor_init True (Some v) (Some ids) sz ratio) logprobs tokens
    = Inr (map (\<lambda>t. case m t of Some i \<Rightarrow> logprobs ! i | None \<Rightarrow> fill) tokens)"
    unfolding gather_token_logprobs_def Let_def lp valid_def [symmetric] using sel res lp(1) by auto
  then show ?thesis by (simp only: m_def)
qed

lemma static_vocab_config_cases:
  fixes v :: int
  defines "full \<equiv> \<lparr>use_static_vocab = False, static_vocab_ratio = 1, static_vocab_size = v, static_vocab_indices = None, static_vocab_path = None\<rparr>"
  obtains "static_vocab_config fs model_path v is_draft_model use ratio custom = full"
    | path where "custom_static_vocab fs model_path v path = Some (static_vocab_config fs model_path v is_draft_model use ratio custom)"
    | size0 where "1 \<le> size0" "size0 < v" "static_vocab_config fs model_path v is_draft_model use ratio custom
        = full\<lparr>use_static_vocab := True, static_vocab_size := size0, static_vocab_ratio := of_int size0 / of_int v,
          static_vocab_indices := Some (map int [0..<nat size0])\<rparr>"
proof (cases "is_draft_model \<and> use")
  case True
  let ?sv = "static_vocab_config fs model_path v is_draft_model use ratio custom"
  define size0 where "size0 = min (max 1 \<lfloor>of_int v * (if 0 < ratio \<and> ratio \<le> 1 then ratio else 1)\<rfloor>) v"
  define cu where "cu = (case custom of None \<Rightarrow> None | Some path \<Rightarrow> if path = [] then None else custom_static_vocab fs model_path v path)"
  have e: "?sv = (case cu of Some sv \<Rightarrow> sv | None \<Rightarrow> if size0 < v then full\<lparr>use_static_vocab := True, static_vocab_size := size0,
      static_vocab_ratio := of_int size0 / of_int v, static_vocab_indices := Some (map int [0..<nat size0])\<rparr> else full)"
    unfolding static_vocab_config_def cu_def [symmetric] size0_def [symmetric] Let_def full_def using True by simp
  show thesis
  proof (cases cu)
    case None
    moreover have "1 \<le> size0" if "size0 < v" using that by (auto simp: size0_def)
    ultimately show thesis using e that(1,3) by (cases "size0 < v") auto
  next
    case (Some sv)
    then show thesis using e that(2) by (auto simp: cu_def split: option.splits if_splits)
  qed
qed (auto simp: static_vocab_config_def full_def)

section \<open>Properties\<close>

text \<open>
  (C32) A configured static vocabulary is a proper part of the vocabulary: whatever file and ratio are given, either the
  full vocabulary stays in use, or the token ids are distinct, in range, at least one and fewer than the
  vocabulary, and size and ratio agree with them.
\<close>

theorem static_vocab_config_ok:
  "let sv = static_vocab_config fs model_path v is_draft_model use ratio custom
   in if use_static_vocab sv
      then \<exists>ids. static_vocab_indices sv = Some ids \<and> vocab_ids v ids \<and> static_vocab_size sv = int (length ids) \<and>
             static_vocab_ratio sv = of_nat (length ids) / of_int v \<and> 0 < static_vocab_ratio sv \<and> static_vocab_ratio sv < 1
      else static_vocab_indices sv = None \<and> static_vocab_size sv = v \<and> static_vocab_ratio sv = 1"
proof -
  let ?sv = "static_vocab_config fs model_path v is_draft_model use ratio custom"
  have *: "0 < (of_nat (length ids) :: rat) / of_int v \<and> (of_nat (length ids) :: rat) / of_int v < 1" if "vocab_ids v ids" for ids
  proof -
    have "0 < length ids" "int (length ids) < v" using that by (simp_all add: vocab_ids_def)
    moreover from this have "(of_int (int (length ids)) :: rat) < of_int v" by (simp only: of_int_less_iff)
    ultimately show ?thesis by (simp add: divide_less_eq)
  qed
  show ?thesis
  proof (rule static_vocab_config_cases [of fs model_path v is_draft_model use ratio custom], goal_cases)
    case (2 path)
    obtain ids where i: "vocab_ids v ids" "?sv = \<lparr>use_static_vocab = True, static_vocab_ratio = of_nat (length ids) / of_int v,
      static_vocab_size = int (length ids), static_vocab_indices = Some ids, static_vocab_path = resolve_static_vocab_path fs model_path path\<rparr>"
      using custom_static_vocab_ok [OF 2] by blast
    show ?thesis unfolding i(2) using i(1) * [OF i(1)] by simp
  next
    case (3 size0)
    then have ids: "vocab_ids v (map int [0..<nat size0])" using prefix_vocab_ids by blast
    show ?thesis unfolding 3(3) using ids * [OF ids] 3(1) by simp
  qed simp
qed

text \<open>
  (C15) Drafting on a static vocabulary is exact: over any number of tensor parallel shards, with the vocabulary
  padded or not, the reduced logits are the logits of the full projection at the static token ids, and the
  greedy token is a static token whose full logit is the largest among the static tokens.
\<close>

theorem static_vocab_sampling_exact:
  assumes "parallel_lm_heads v pad width tp W = Inr heads" and "0 < pad" and "0 < tp" and "vocab_ids v ids"
  shows "\<exists>out t. get_logits fill scale softcap v (logits_processor_init True (Some v) (Some ids) sz ratio) heads h = Inr out \<and>
    out = (map (\<lambda>u. final_logit scale softcap (dot h (W ! nat u))) ids, Some ids) \<and> greedy_token out = Inr t \<and> t \<in> set ids \<and>
    (\<forall>u \<in> set ids. final_logit scale softcap (dot h (W ! nat u)) \<le> final_logit scale softcap (dot h (W ! nat t)))"
proof -
  let ?lp = "logits_processor_init True (Some v) (Some ids) sz ratio"
  let ?l = "\<lambda>u. final_logit scale softcap (dot h (W ! nat u))"
  have ids: "ids \<noteq> []" "set ids \<subseteq> {0..<v}" using assms(4) by (simp_all add: vocab_ids_def)
  have "get_logits fill scale softcap v ?lp heads h = Inr (map ?l ids, Some ids)"
    using get_logits_static [OF assms(1-3), of ?lp "length ids"] ids unfolding logits_processor_init_static [OF assms(4)] by simp
  moreover obtain i where i: "i < length (map ?l ids)" "argmax (map ?l ids) = int i" "\<forall>x \<in> set (map ?l ids). x \<le> map ?l ids ! i"
    using argmax_spec [of "map ?l ids"] ids(1) by auto
  moreover have "greedy_token (map ?l ids, Some ids) = Inr (ids ! i)"
    using i(1,2) map_sampled_position [of i ids] by (simp add: greedy_token_def)
  ultimately show ?thesis by (intro exI [of _ "(map ?l ids, Some ids)"] exI [of _ "ids ! i"]) simp
qed

theorem static_vocab_sampling_exact_witness:
  "\<exists>heads out. parallel_lm_heads 5 2 1 2 [[1], [2], [9], [4], [3]] = Inr heads \<and>
     get_logits 0 None None 5 (logits_processor_init True (Some 5) (Some [4, 0, 3]) None 1) heads [1] = Inr out \<and>
     greedy_token out = Inr 3"
proof -
  obtain heads where heads: "parallel_lm_heads 5 2 1 2 [[1], [2], [9], [4], [3]] = Inr heads"
    by (simp add: parallel_lm_heads_def lm_head_init_def load_weight_def get_indices_def check_shard_def vocab_range_from_global_vocab_size_def divide_exact_def
        vocab_range_from_per_partition_vocab_size_def pad_vocab_size_def numeral_2_eq_2)
  have "vocab_ids 5 [4, 0, 3]" by (simp add: vocab_ids_def)
  from static_vocab_sampling_exact [OF heads _ _ this, of 0 None None None 1 "[1]"]
  have "\<exists>out t. get_logits 0 None None 5 (logits_processor_init True (Some 5) (Some [4, 0, 3]) None 1) heads [1] = Inr out \<and>
      greedy_token out = Inr t \<and> t \<in> {4, 0, 3} \<and> (\<forall>u \<in> {4, 0, 3}. dot [1] ([[1], [2], [9], [4], [3]] ! nat u) \<le> dot [1] ([[1], [2], [9], [4], [3]] ! nat t))"
    by (simp add: final_logit_def)
  then show ?thesis using heads by (auto simp: dot_def)
qed



end
