(* ===== verification/Spec2Isabelle.thy ===== *)
theory Spec2Isabelle
  imports Scheduler Static_Vocab
begin

text \<open>
  A verification development of the serving runtime of this repository, \<^verbatim>\<open>python/sglang/srt\<close> under
  \<^verbatim>\<open>src/\<close>: how a request is queued, ordered, admitted, given memory, stepped, retracted, finished and
  answered.

  \<^bold>\<open>The program.\<close> The scheduler (\<^verbatim>\<open>managers/scheduler.py\<close>) keeps a waiting queue and a running batch. In
  each turn of its event loop it orders the queue (\<^verbatim>\<open>managers/schedule_policy.py\<close>), admits requests to a
  prefill batch as long as memory lasts (\<^verbatim>\<open>PrefillAdder\<close>), or steps the running batch
  (\<^verbatim>\<open>managers/schedule_batch.py\<close>), retracting requests when memory is short. Memory is a pool of KV slots,
  handed out by an allocator (\<^verbatim>\<open>mem_cache/allocator.py\<close>), a table from requests to slots
  (\<^verbatim>\<open>mem_cache/memory_pool.py\<close>) and a prefix cache (\<^verbatim>\<open>mem_cache/radix_cache.py\<close> or
  \<^verbatim>\<open>mem_cache/chunk_cache.py\<close>) which owns the slots of finished prefixes and gives them up by eviction.
  \<^verbatim>\<open>mem_cache/common.py\<close> joins the three.

  \<^bold>\<open>Conventions.\<close> Tensors and Python lists are lists, a slot is an \<open>int\<close>, a float is a rational number (or
  \<open>real\<close> with NaN where the code meets NaN). A raised exception is a value of \<open>py_error\<close> and a fallible
  operation returns \<open>py_error + 'a\<close> (theory Prelude). Objects that are shared by reference are either nodes of
  an explicit store (the radix tree) or values that are written back to every holder (requests).
  Code outside the program is a parameter: the clock and the hash function, the tokenizer, regular
  expression search, random shuffles, uninitialised memory and the forward pass.

  \<^bold>\<open>Memory.\<close>
  \<^item> KV_Allocator, Paged_Kernels, Paged_Allocator, SWA_Allocator model \<^verbatim>\<open>TokenToKVPoolAllocator\<close>,
    \<^verbatim>\<open>PagedTokenToKVPoolAllocator\<close> with its two Triton kernels as folds over the programs of the launch, and
    \<^verbatim>\<open>SWATokenToKVPoolAllocator\<close>. The locale \<open>kv_pool\<close> states the contract of an allocator and is interpreted by
    the token allocator, the paged one and the row table. Shown: no slot is handed out twice or lost;
    the kernels compute the reference slots; the window and full pools stay in step.
  \<^item> Req_Pool models \<^verbatim>\<open>ReqToTokenPool\<close>: writes are read back, the table keeps its type, rows are conserved.
  \<^item> Radix_Key, Heapq and Radix_Cache model \<^verbatim>\<open>RadixKey\<close>, the functions of \<^verbatim>\<open>heapq\<close> that eviction uses (with the
    locale \<open>prio_queue\<close>), \<^verbatim>\<open>TreeNode\<close> and \<^verbatim>\<open>RadixCache\<close>. Radix_Shape, Radix_Match, Radix_Lock and Radix_Evict
    are the library on trees: well-formedness, paths, splitting, locks, eviction. Radix_Req models
    \<^verbatim>\<open>cache_finished_req\<close> and \<^verbatim>\<open>cache_unfinished_req\<close>. Radix_Properties has the results: longest-prefix
    matching, insertion followed by a match, exact accounting in all reachable states, eviction in
    priority order which frees what was asked or all that is unlocked, and conservation of slots.
  \<^item> Chunk_Cache models \<^verbatim>\<open>ChunkCache\<close> and \<^verbatim>\<open>SWAChunkCache\<close>. Cache_Common models allocation for a batch,
    eviction on demand, the write kernel and \<^verbatim>\<open>release_kv_cache\<close>, which releases a request once.

  \<^bold>\<open>Requests and scheduling.\<close>
  \<^item> Sampling_Params models \<^verbatim>\<open>sampling/sampling_params.py\<close>; Req models \<^verbatim>\<open>Req\<close>: construction, finish checks,
    stop strings, incremental detokenization. Shown: bounds of the parameters, where a request stops.
  \<^item> Schedule_Policy models \<^verbatim>\<open>SchedulePolicy\<close>: every policy permutes the queue, and longest-prefix-match
    sorts by the real prefix. Schedule_Batch models \<^verbatim>\<open>ScheduleBatch\<close>: preparing prefill and decode steps,
    filtering, merging, retraction. Prefill_Adder models admission with its budgets.
  \<^item> Scheduler models the queue, \<^verbatim>\<open>get_next_batch_to_run\<close>, the processing of results, aborts, the idle check
    (\<^verbatim>\<open>managers/scheduler_runtime_checker_mixin.py\<close>) and a turn of \<^verbatim>\<open>event_loop_normal\<close>. Shown: admission never
    takes memory it does not have, a decode step always goes on and accounts for every request, a request
    ends, the idle check finds exactly the leaks, and a preempted request can get lost.
  \<^item> Static_Vocab models the reduced vocabulary of draft models (\<^verbatim>\<open>configs/model_config.py\<close>,
    \<^verbatim>\<open>layers/logits_processor.py\<close>, \<^verbatim>\<open>layers/vocab_parallel_embedding.py\<close>, \<^verbatim>\<open>layers/sampler.py\<close>). Shown: the
    configuration is always a proper part of the vocabulary, the sharded projection is exact, and EAGLE
    drafts are right only for a leading part of the vocabulary.

  \<^bold>\<open>Loops and fuel.\<close> Loops over lists are recursive functions. The \<^verbatim>\<open>while\<close> loops over the tree take fuel and
  return \<open>NonTermination\<close> when it runs out: a match or an insertion takes the length of the key plus one,
  since every turn consumes a token; the loops over nodes take the number of nodes ever created, since
  each turn removes a node from those still to visit; eviction takes that number too, since every turn
  deletes a node. The lemmas show that the result is never \<open>NonTermination\<close> on a well-formed tree.

  \<^bold>\<open>Not modelled.\<close> Models, layers and kernels are numerical code whose contract is not written down in the
  program. Server arguments, the HTTP front ends, the tokenizer manager and the process plumbing are
  input and output. The overlap, pipeline and disaggregated event loops, speculative decoding, LoRA,
  grammars, hierarchical, sliding-window and Mamba radix caches, multimodal inputs, log probabilities and
  metrics are left out of the scheduler's model; where a modelled function branches on one of them, the
  model is the branch with the feature off.
\<close>

end
